(* ===== verification/Prelude.thy ===== *)
theory Prelude
  imports
    Main
    "HOL-Library.AList"
    "HOL-Library.Multiset"
    "HOL-Library.Word"
    "HOL-Library.Product_Lexorder"
    "HOL-Library.List_Lexorder"
    "HOL-Library.Char_ord"
begin

text \<open>
  The vocabulary every component shares.

  \<^item> Machine integers: \<open>u64\<close> and \<open>u32\<close> are words, so a source addition that can wrap does.
  \<^item> Results: \<open>('e, 'a) res\<close> is a Go result pair, with \<open>Panic\<close> for a call that panics.
  \<^item> Go maps: \<open>('k, 'v) gomap\<close> is an association list with distinct keys. The list order
    is one iteration order; a lemma about an arbitrary well-formed \<open>gomap\<close> therefore holds for
    every order Go may pick.
  \<^item> Times are \<open>int\<close> nanoseconds since Go's zero time, durations \<open>int\<close> nanoseconds, with the
    saturation of \<open>time.Time.Sub\<close> written out.
\<close>

section \<open>Integers and results\<close>

type_synonym u64 = "64 word"
type_synonym u32 = "32 word"

datatype ('e, 'a) res = Ok 'a | Err 'e | Panic

fun res_bind :: "('e, 'a) res \<Rightarrow> ('a \<Rightarrow> ('e, 'b) res) \<Rightarrow> ('e, 'b) res" where
  "res_bind (Ok a) f = f a"
| "res_bind (Err e) f = Err e"
| "res_bind Panic f = Panic"

lemma res_bind_Ok_conv: "res_bind r f = Ok b \<longleftrightarrow> (\<exists>a. r = Ok a \<and> f a = Ok b)"
  by (cases r) auto

section \<open>Go maps\<close>

type_synonym ('k, 'v) gomap = "('k \<times> 'v) list"

named_theorems gomap "lookup and well-formedness facts of the Go map operations"

definition gm_wf :: "('k, 'v) gomap \<Rightarrow> bool" where
  "gm_wf m \<longleftrightarrow> distinct (map fst m)"

definition gm_put :: "'k \<Rightarrow> 'v \<Rightarrow> ('k, 'v) gomap \<Rightarrow> ('k, 'v) gomap" where
  "gm_put k v m = AList.update k v m"

definition gm_del :: "'k \<Rightarrow> ('k, 'v) gomap \<Rightarrow> ('k, 'v) gomap" where
  "gm_del k m = AList.delete k m"

text \<open>Reading an absent key yields the zero value of the element type.\<close>

definition gm_at :: "'v \<Rightarrow> ('k, 'v) gomap \<Rightarrow> 'k \<Rightarrow> 'v" where
  "gm_at z m k = (case map_of m k of None \<Rightarrow> z | Some v \<Rightarrow> v)"

definition gm_has :: "('k, 'v) gomap \<Rightarrow> 'k \<Rightarrow> bool" where
  "gm_has m k \<longleftrightarrow> map_of m k \<noteq> None"

lemma map_of_gm_put [simp, gomap]: "map_of (gm_put k v m) = (map_of m)(k \<mapsto> v)"
  by (simp add: gm_put_def update_conv')

lemma map_of_gm_del [simp, gomap]: "map_of (gm_del k m) = (map_of m)(k := None)"
  by (simp add: gm_del_def fun_eq_iff delete_conv)

lemma gm_wf_Nil [simp, gomap]: "gm_wf []"
  by (simp add: gm_wf_def)

lemma gm_wf_put [simp, intro, gomap]: "gm_wf m \<Longrightarrow> gm_wf (gm_put k v m)"
  by (simp add: gm_wf_def gm_put_def distinct_update)

lemma gm_wf_del [simp, intro, gomap]: "gm_wf m \<Longrightarrow> gm_wf (gm_del k m)"
  by (simp add: gm_wf_def gm_del_def distinct_delete)

lemma gm_wf_Cons [simp]: "gm_wf ((k, v) # m) \<longleftrightarrow> k \<notin> fst ` set m \<and> gm_wf m"
  by (simp add: gm_wf_def)

lemma gm_wf_lookup: "gm_wf m \<Longrightarrow> (k, v) \<in> set m \<longleftrightarrow> map_of m k = Some v"
  by (simp add: gm_wf_def)

lemma gm_at_put [simp, gomap]: "gm_at z (gm_put k v m) k' = (if k' = k then v else gm_at z m k')"
  by (simp add: gm_at_def)

lemma gm_at_del [simp, gomap]: "gm_at z (gm_del k m) k' = (if k' = k then z else gm_at z m k')"
  by (simp add: gm_at_def)

lemma gm_has_put [simp, gomap]: "gm_has (gm_put k v m) k' \<longleftrightarrow> k' = k \<or> gm_has m k'"
  by (simp add: gm_has_def)

lemma gm_has_del [simp, gomap]: "gm_has (gm_del k m) k' \<longleftrightarrow> k' \<noteq> k \<and> gm_has m k'"
  by (simp add: gm_has_def)

lemma gm_at_Nil [simp]: "gm_at z [] k = z"
  by (simp add: gm_at_def)

lemma gm_has_Nil [simp]: "\<not> gm_has [] k"
  by (simp add: gm_has_def)

lemma keys_gm_put: "fst ` set (gm_put k v m) = insert k (fst ` set m)"
  by (simp add: gm_put_def dom_update)

lemma keys_gm_del: "fst ` set (gm_del k m) = fst ` set m - {k}"
proof -
  have "set (map fst (gm_del k m)) = set (removeAll k (map fst m))"
    by (simp only: gm_del_def delete_keys)
  then show ?thesis by simp
qed

lemma keys_dom: "fst ` set m = dom (map_of m)"
  by (simp add: dom_map_of_conv_image_fst)

text \<open>
  The sum of a map's values, the running totals some components keep. It depends on the
  lookups only, so the iteration order does not matter.
\<close>

lemma gm_put_put [simp]: "gm_put k v (gm_put k v' m) = gm_put k v m"
  unfolding gm_put_def by (induction m) auto

lemma gm_put_fresh: "k \<notin> fst ` set m \<Longrightarrow> gm_put k v m = m @ [(k, v)]"
  unfolding gm_put_def by (induction m) auto

lemma gm_at_fresh: "k \<notin> fst ` set m \<Longrightarrow> gm_at z m k = z"
  by (simp add: gm_at_def map_of_eq_None_iff [THEN iffD2])

text \<open>Walking a map in key order, as the code does for every stable rendering.\<close>

lemma map_fst_sort_key: "map fst (sort_key fst m) = sort (map fst m)"
  by (rule properties_for_sort [symmetric]) simp_all

lemma gm_sorted_pairs:
  assumes "gm_wf m"
  shows "map (\<lambda>k. (k, gm_at z m k)) (sort (map fst m)) = sort_key fst m"
proof -
  have "(fst p, gm_at z m (fst p)) = p" if "p \<in> set m" for p
  proof -
    obtain k v where "p = (k, v)" by force
    with that assms show ?thesis by (simp add: gm_at_def gm_wf_lookup)
  qed
  then have "map (\<lambda>p. (fst p, gm_at z m (fst p))) (sort_key fst m) = sort_key fst m"
    by (intro map_idI) simp
  then show ?thesis unfolding map_fst_sort_key [symmetric] by (simp add: comp_def)
qed

lemma insort_key_map: "insort_key f (g x) (map g ys) = map g (insort_key (f \<circ> g) x ys)"
  by (induction ys) auto

lemma sort_key_map: "sort_key f (map g xs) = map g (sort_key (f \<circ> g) xs)"
  by (induction xs) (simp_all add: insort_key_map comp_def)

lemma map_of_map_snd: "map_of (map (\<lambda>(k, v). (k, f v)) m) k = map_option f (map_of m k)"
  by (induction m) auto

lemma gm_wf_sort_key: "gm_wf (sort_key fst m) \<longleftrightarrow> gm_wf m"
  unfolding gm_wf_def map_fst_sort_key by simp

lemma map_of_sort_key: "gm_wf m \<Longrightarrow> map_of (sort_key fst m) = map_of m"
  by (intro map_of_inject_set [THEN iffD2]) (simp_all add: gm_wf_sort_key [unfolded gm_wf_def] gm_wf_def)

definition gm_total :: "('k, int) gomap \<Rightarrow> int" where
  "gm_total m = sum_list (map snd m)"

lemma gm_total_put: "gm_total (gm_put k v m) = gm_total m - gm_at 0 m k + v"
  by (induction m) (auto simp: gm_total_def gm_put_def gm_at_def)

lemma gm_total_del: "gm_wf m \<Longrightarrow> gm_total (gm_del k m) = gm_total m - gm_at 0 m k"
proof (induction m)
  case Nil
  then show ?case by (simp add: gm_total_def gm_del_def)
next
  case (Cons a m)
  obtain k' v where a: "a = (k', v)" by (cases a)
  with Cons.prems have wf: "gm_wf m" and k': "map_of m k' = None"
    by (auto simp: map_of_eq_None_iff)
  from Cons.IH [OF wf] a k' show ?case
    by (auto simp: gm_total_def gm_del_def gm_at_def)
qed

lemma gm_total_nonneg: "\<forall>v\<in>snd ` set m. 0 \<le> v \<Longrightarrow> 0 \<le> gm_total m"
  by (induction m) (auto simp: gm_total_def)

lemma gm_at_le_total: "\<forall>v\<in>snd ` set m. 0 \<le> v \<Longrightarrow> gm_at 0 m k \<le> gm_total m"
proof (induction m)
  case Nil
  then show ?case by (simp add: gm_total_def)
next
  case (Cons a m)
  then have "0 \<le> gm_total m" by (simp add: gm_total_nonneg)
  with Cons show ?case by (cases a) (auto simp: gm_at_def gm_total_def)
qed

section \<open>Lists\<close>

lemma sorted_wrt_less_sort_distinct:
  fixes xs :: "'a::linorder list"
  shows "distinct xs \<Longrightarrow> sorted_wrt (<) (sort xs)"
  by (simp add: strict_sorted_iff)

lemma map_of_map_filter_keys:
  "map_of (map (\<lambda>k. (k, f k)) ks) x = (if x \<in> set ks then Some (f x) else None)"
  by (induction ks) auto

section \<open>Times\<close>

text \<open>Go's \<open>time.Time.Sub\<close> saturates at the bounds of a 64-bit duration.\<close>

definition maxDuration :: int where "maxDuration = 2 ^ 63 - 1"
definition minDuration :: int where "minDuration = - (2 ^ 63)"

definition time_Sub :: "int \<Rightarrow> int \<Rightarrow> int" where
  "time_Sub t u = max minDuration (min maxDuration (t - u))"

lemma time_Sub_exact: "minDuration \<le> t - u \<Longrightarrow> t - u \<le> maxDuration \<Longrightarrow> time_Sub t u = t - u"
  by (simp add: time_Sub_def)

end
