(* ===== verification/Markers.thy ===== *)
theory Markers
  imports Prelude
begin

text \<open>
  \<open>internal/snapshot/markers.go\<close> and the chunk id of \<open>chunkref.go\<close>: each worker's queued snapshot
  markers, what a lost worker had not committed, and the cursors a redo resumes from. A key tuple
  is a list over an arbitrary cell type; a nil tuple is \<open>None\<close>. The lemmas show that a chunk id
  keeps partition and index apart within their bits and that a redo never starts behind a lost
  window, nor takes another table's.
\<close>

unbundle bit_operations_syntax

definition ChunkRef :: "nat \<Rightarrow> nat \<Rightarrow> u32" where
  "ChunkRef part i = push_bit 20 (word_of_nat part) OR word_of_nat i"

record 'v marker =
  mk_ID :: u64
  mk_Target :: string
  mk_Window :: u64
  mk_ChunkRef :: u32
  mk_HighKey :: "'v list option"

record 'v markers =
  ms_queued :: "(string, 'v marker list) gomap"
  ms_lost :: "(string, 'v marker list) gomap"
  ms_cursor :: "(string \<times> u32, 'v list option) gomap"

definition ms_Note :: "'v markers \<Rightarrow> string \<Rightarrow> 'v marker \<Rightarrow> 'v markers" where
  "ms_Note m w mk = m\<lparr>ms_queued := gm_put w (gm_at [] (ms_queued m) w @ [mk]) (ms_queued m)\<rparr>"

definition ms_Held :: "'v markers \<Rightarrow> string \<Rightarrow> (u64 \<Rightarrow> bool) \<Rightarrow> 'v markers \<times> 'v marker list" where
  "ms_Held m w holds =
     (let kept = filter (\<lambda>mk. holds (mk_ID mk)) (gm_at [] (ms_queued m) w) in
      if kept = [] then (m\<lparr>ms_queued := gm_del w (ms_queued m)\<rparr>, [])
      else (m\<lparr>ms_queued := gm_put w kept (ms_queued m)\<rparr>, kept))"

definition RecordCursor :: "'v markers \<Rightarrow> string \<Rightarrow> u64 \<Rightarrow> 'v markers" where
  "RecordCursor m w i =
     (case find (\<lambda>mk. mk_ID mk = i \<and> mk_HighKey mk \<noteq> None) (gm_at [] (ms_queued m) w) of
        None \<Rightarrow> m
      | Some mk \<Rightarrow>
          m\<lparr>ms_cursor := gm_put (mk_Target mk, mk_ChunkRef mk) (mk_HighKey mk) (ms_cursor m)\<rparr>)"

definition TakeCursor :: "'v markers \<Rightarrow> string \<Rightarrow> u32 \<Rightarrow> 'v markers \<times> 'v list option" where
  "TakeCursor m target ref =
     (m\<lparr>ms_cursor := gm_del (target, ref) (ms_cursor m)\<rparr>, gm_at None (ms_cursor m) (target, ref))"

definition ForgetCursors :: "'v markers \<Rightarrow> string \<Rightarrow> 'v markers" where
  "ForgetCursors m target =
     m\<lparr>ms_cursor := filter (\<lambda>(k, v). fst k \<noteq> target) (ms_cursor m)\<rparr>"

definition Lose :: "'v markers \<Rightarrow> string \<Rightarrow> 'v marker list \<Rightarrow> 'v markers" where
  "Lose m w held =
     (if held = [] then m
      else m\<lparr>ms_lost := gm_put w (gm_at [] (ms_lost m) w @ held) (ms_lost m)\<rparr>)"

definition Lost :: "'v markers \<Rightarrow> string \<Rightarrow> 'v marker list" where
  "Lost m w = gm_at [] (ms_lost m) w"

definition TakeLost :: "'v markers \<Rightarrow> string \<Rightarrow> string \<Rightarrow> 'v markers \<times> 'v marker list" where
  "TakeLost m w target =
     (let all = gm_at [] (ms_lost m) w;
          out = filter (\<lambda>mk. mk_Target mk = target) all;
          kept = filter (\<lambda>mk. mk_Target mk \<noteq> target) all
      in (m\<lparr>ms_lost := (if kept = [] then gm_del w (ms_lost m) else gm_put w kept (ms_lost m))\<rparr>, out))"

definition redo_index :: "(u64, nat) gomap \<Rightarrow> 'v marker list \<Rightarrow> nat \<Rightarrow> nat" where
  "redo_index windows lost nxt =
     foldl (\<lambda>from mk. case map_of windows (mk_Window mk) of
                        None \<Rightarrow> from
                      | Some i \<Rightarrow> if i < from then i else from) nxt lost"

definition RedoFrom :: "'v markers \<Rightarrow> string \<Rightarrow> string \<Rightarrow> (u64, nat) gomap \<Rightarrow> nat \<Rightarrow> nat \<Rightarrow>
                        'v markers \<times> nat \<times> 'v list option" where
  "RedoFrom m w target windows part nxt =
     (let (m1, lost) = TakeLost m w target;
          from = redo_index windows lost nxt;
          (m2, cur) = TakeCursor m1 target (ChunkRef part from)
      in (m2, from, cur))"

section \<open>Chunk ids\<close>

lemma ChunkRef_nat: "ChunkRef part i = word_of_nat (push_bit 20 part OR i)"
  by (rule bit_word_eqI) (auto simp: ChunkRef_def bit_simps)

lemma nat_or_add: "i < 2 ^ 20 \<Longrightarrow> push_bit 20 part OR i = part * 2 ^ 20 + (i :: nat)"
proof -
  assume i: "i < 2 ^ 20"
  have "\<not> bit (push_bit 20 part) n \<or> \<not> bit i n" for n
  proof (cases "n < 20")
    case True
    then show ?thesis by (simp add: bit_push_bit_iff)
  next
    case False
    have "take_bit 20 i = i" using i by (simp only: take_bit_nat_eq_self)
    with False show ?thesis by (metis bit_take_bit_iff)
  qed
  then have "push_bit 20 part + i = push_bit 20 part OR i" by (rule disjunctive_add)
  then show ?thesis by (simp only: push_bit_eq_mult)
qed

lemma unat_ChunkRef:
  assumes "i < 2 ^ 20" "part < 2 ^ 12"
  shows "unat (ChunkRef part i) = part * 2 ^ 20 + i"
proof -
  have small: "unat (word_of_nat n :: u32) = n" if "n < 2 ^ 32" for n
    using that by (simp add: unsigned_of_nat take_bit_nat_eq_self)
  have "part * 2 ^ 20 + i < 2 ^ 32" using assms by simp
  then show ?thesis
    unfolding ChunkRef_nat nat_or_add [OF assms(1)] by (rule small)
qed

lemma ChunkRef_split:
  assumes "i < 2 ^ 20" "part < 2 ^ 12"
  shows "unat (drop_bit 20 (ChunkRef part i)) = part" "unat (ChunkRef part i AND mask 20) = i"
proof -
  show "unat (drop_bit 20 (ChunkRef part i)) = part"
    unfolding unat_drop_bit_eq unat_ChunkRef [OF assms] drop_bit_nat_def using assms(1) by simp
  have "unat (ChunkRef part i AND mask 20) = take_bit 20 (unat (ChunkRef part i))"
    unfolding take_bit_eq_mask [symmetric] by (rule unsigned_take_bit_eq)
  also have "\<dots> = i"
    unfolding unat_ChunkRef [OF assms] take_bit_nat_def using assms(1) by simp
  finally show "unat (ChunkRef part i AND mask 20) = i" .
qed

lemma ChunkRef_less:
  assumes "i < 2 ^ 20" "part < 2 ^ 12" "j < 2 ^ 20" "q < 2 ^ 12"
  shows "ChunkRef part i < ChunkRef q j \<longleftrightarrow> part < q \<or> part = q \<and> i < j"
  unfolding word_less_nat_alt unat_ChunkRef [OF assms(1,2)] unat_ChunkRef [OF assms(3,4)]
  using assms(1,3) by (cases part q rule: linorder_cases) auto

section \<open>Redo\<close>

lemma redo_index_le: "redo_index windows lost nxt \<le> nxt"
proof (induction lost rule: rev_induct)
  case (snoc mk lost)
  then show ?case by (simp add: redo_index_def split: option.split)
qed (simp add: redo_index_def)

lemma redo_index_lost:
  "mk \<in> set lost \<Longrightarrow> map_of windows (mk_Window mk) = Some i \<Longrightarrow> redo_index windows lost nxt \<le> i"
proof (induction lost rule: rev_induct)
  case (snoc x lost)
  then show ?case by (auto simp: redo_index_def split: option.split)
qed simp

lemma redo_index_tight:
  "redo_index windows lost nxt = nxt \<or>
     (\<exists>mk\<in>set lost. map_of windows (mk_Window mk) = Some (redo_index windows lost nxt))"
proof (induction lost rule: rev_induct)
  case (snoc x lost)
  then show ?case by (auto simp: redo_index_def split: option.split)
qed (simp add: redo_index_def)

lemma TakeLost_others:
  "map_of (ms_lost (fst (TakeLost m w target))) v =
     (if v = w then (let kept = filter (\<lambda>mk. mk_Target mk \<noteq> target) (Lost m w) in
                     if kept = [] then None else Some kept)
      else map_of (ms_lost m) v)"
  by (auto simp: TakeLost_def Lost_def Let_def)

lemma TakeLost_out: "snd (TakeLost m w target) = filter (\<lambda>mk. mk_Target mk = target) (Lost m w)"
  by (simp add: TakeLost_def Lost_def Let_def)

end
