(* ===== verification/Go_Text.thy ===== *)
theory Go_Text
  imports Prelude
begin

text \<open>
  The parts of Go's \<open>strings\<close> and \<open>strconv\<close> packages the text forms of positions use, on
  byte strings: splitting, cutting, joining, trimming and the base-10 and base-16 integer
  conversions with their range checks. The text forms are ASCII, so \<open>TrimSpace\<close> drops the six
  ASCII white space bytes. Lemmas: joining and splitting are inverse, and parsing a formatted
  number gives it back.
\<close>

section \<open>Splitting and joining\<close>

text \<open>\<open>strings.Split(s, sep)\<close> for a one-byte separator: the empty string splits into itself.\<close>

fun split_on :: "char \<Rightarrow> string \<Rightarrow> string list" where
  "split_on c [] = [[]]"
| "split_on c (x # xs) =
     (if x = c then [] # split_on c xs
      else (case split_on c xs of [] \<Rightarrow> [[x]] | y # ys \<Rightarrow> (x # y) # ys))"

text \<open>\<open>strings.Cut\<close>: the text before and after the first separator, if there is one.\<close>

fun cut_at :: "char \<Rightarrow> string \<Rightarrow> (string \<times> string) option" where
  "cut_at c [] = None"
| "cut_at c (x # xs) =
     (if x = c then Some ([], xs) else map_option (\<lambda>(a, b). (x # a, b)) (cut_at c xs))"

fun join_with :: "char \<Rightarrow> string list \<Rightarrow> string" where
  "join_with c [] = []"
| "join_with c [x] = x"
| "join_with c (x # y # ys) = x @ c # join_with c (y # ys)"

definition is_space :: "char \<Rightarrow> bool" where
  "is_space c \<longleftrightarrow> (of_char c :: nat) \<in> {9, 10, 11, 12, 13, 32}"

definition TrimSpace :: "string \<Rightarrow> string" where
  "TrimSpace s = rev (dropWhile is_space (rev (dropWhile is_space s)))"

fun TrimPrefix :: "char \<Rightarrow> string \<Rightarrow> string" where
  "TrimPrefix c [] = []"
| "TrimPrefix c (x # xs) = (if x = c then xs else x # xs)"

lemma split_on_nonempty [simp]: "split_on c s \<noteq> []"
  by (cases s) (auto split: list.splits)

lemma split_on_free: "c \<notin> set x \<Longrightarrow> split_on c x = [x]"
  by (induction x) auto

lemma split_on_append: "c \<notin> set x \<Longrightarrow> split_on c (x @ c # s) = x # split_on c s"
  by (induction x) auto

lemma split_on_join:
  "xs \<noteq> [] \<Longrightarrow> \<forall>x\<in>set xs. c \<notin> set x \<Longrightarrow> split_on c (join_with c xs) = xs"
  by (induction c xs rule: join_with.induct) (auto simp: split_on_free split_on_append)

lemma join_split_on: "join_with c (split_on c s) = s"
proof (induction s)
  case (Cons x s)
  then show ?case
    by (cases "split_on c s"; cases "tl (split_on c s)") auto
qed simp

lemma split_on_free_elem: "x \<in> set (split_on c s) \<Longrightarrow> c \<notin> set x"
proof (induction s arbitrary: x)
  case (Cons a s)
  then show ?case
    by (cases "split_on c s") (auto split: if_splits)
qed simp

lemma split_on_subset: "x \<in> set (split_on c s) \<Longrightarrow> set x \<subseteq> set s"
proof (induction s arbitrary: x)
  case (Cons a s)
  show ?case
  proof (cases "split_on c s")
    case (Cons y ys)
    with Cons.IH [of y] Cons.IH [of x] Cons.prems show ?thesis by (auto split: if_splits)
  qed simp
qed simp

lemma set_TrimSpace: "set (TrimSpace s) \<subseteq> set s"
proof -
  have "set (dropWhile P xs) \<subseteq> set xs" for P and xs :: string
    by (auto dest: set_dropWhileD)
  then show ?thesis unfolding TrimSpace_def set_rev by (metis order.trans set_rev)
qed

lemma cut_at_append: "c \<notin> set a \<Longrightarrow> cut_at c (a @ c # b) = Some (a, b)"
  by (induction a) auto

lemma cut_at_free: "c \<notin> set a \<Longrightarrow> cut_at c a = None"
  by (induction a) auto

lemma set_join_with: "set (join_with c xs) \<subseteq> insert c (\<Union> (set ` set xs))"
  by (induction c xs rule: join_with.induct) auto

lemma TrimSpace_id:
  assumes "s \<noteq> []" "\<not> is_space (hd s)" "\<not> is_space (last s)"
  shows "TrimSpace s = s"
proof -
  from assms have "dropWhile is_space s = s" by (cases s) auto
  moreover have "dropWhile is_space (rev s) = rev s"
    using assms(1,3) by (cases s rule: rev_cases) auto
  ultimately show ?thesis by (simp add: TrimSpace_def)
qed

section \<open>Integers as text\<close>

definition digit_val :: "char \<Rightarrow> nat option" where
  "digit_val c =
     (let n = of_char c :: nat in
      if 48 \<le> n \<and> n \<le> 57 then Some (n - 48)
      else if 97 \<le> n \<and> n \<le> 122 then Some (n - 87)
      else if 65 \<le> n \<and> n \<le> 90 then Some (n - 55)
      else None)"

fun digits_val :: "nat \<Rightarrow> nat \<Rightarrow> string \<Rightarrow> nat option" where
  "digits_val base acc [] = Some acc"
| "digits_val base acc (c # cs) =
     (case digit_val c of
        None \<Rightarrow> None
      | Some d \<Rightarrow> if d < base then digits_val base (acc * base + d) cs else None)"

text \<open>\<open>strconv.ParseUint(s, base, bits)\<close>: digits of the base only, at least one, in range.\<close>

definition ParseUint :: "nat \<Rightarrow> nat \<Rightarrow> string \<Rightarrow> nat option" where
  "ParseUint base bits s =
     (if s = [] then None
      else case digits_val base 0 s of
             None \<Rightarrow> None
           | Some n \<Rightarrow> if n < 2 ^ bits then Some n else None)"

text \<open>\<open>strconv.ParseInt(s, base, bits)\<close>: an optional sign, then the magnitude's range check.\<close>

definition ParseInt :: "nat \<Rightarrow> nat \<Rightarrow> string \<Rightarrow> int option" where
  "ParseInt base bits s =
     (let neg = (case s of c # _ \<Rightarrow> c = CHR ''-'' | [] \<Rightarrow> False);
          body = (case s of c # cs \<Rightarrow> if c = CHR ''-'' \<or> c = CHR ''+'' then cs else s | [] \<Rightarrow> s)
      in case ParseUint base bits body of
           None \<Rightarrow> None
         | Some un \<Rightarrow>
             if \<not> neg \<and> 2 ^ (bits - 1) \<le> un then None
             else if neg \<and> 2 ^ (bits - 1) < un then None
             else Some (if neg then - int un else int un))"

definition digit_chr :: "nat \<Rightarrow> char" where
  "digit_chr d = char_of (if d < 10 then 48 + d else 55 + d)"

fun fmt_nat :: "nat \<Rightarrow> nat \<Rightarrow> string" where
  "fmt_nat base n =
     (if base < 2 \<or> n < base then [digit_chr n]
      else fmt_nat base (n div base) @ [digit_chr (n mod base)])"

declare fmt_nat.simps [simp del]

text \<open>\<open>strconv.FormatUint(n, 10)\<close>, \<open>strconv.FormatInt(n, 10)\<close> and the verb \<open>%X\<close>.\<close>

definition FormatUint :: "nat \<Rightarrow> string" where
  "FormatUint n = fmt_nat 10 n"

definition FormatInt :: "int \<Rightarrow> string" where
  "FormatInt i = (if i < 0 then CHR ''-'' # fmt_nat 10 (nat (- i)) else fmt_nat 10 (nat i))"

definition FormatHex :: "nat \<Rightarrow> string" where
  "FormatHex n = fmt_nat 16 n"

lemma digit_val_chr: "d < 36 \<Longrightarrow> digit_val (digit_chr d) = Some d"
  by (auto simp: digit_val_def digit_chr_def Let_def)

lemma digits_val_append:
  "digits_val base acc (xs @ ys) =
     (case digits_val base acc xs of None \<Rightarrow> None | Some a \<Rightarrow> digits_val base a ys)"
  by (induction base acc xs rule: digits_val.induct) (auto split: option.splits)

lemma fmt_nat_nonempty [simp]: "fmt_nat base n \<noteq> []"
  by (subst fmt_nat.simps) simp

lemma digits_val_fmt:
  "2 \<le> base \<Longrightarrow> base \<le> 36 \<Longrightarrow> digits_val base 0 (fmt_nat base n) = Some n"
proof (induction base n rule: fmt_nat.induct)
  case (1 base n)
  show ?case
  proof (cases "n < base")
    case True
    with "1.prems" show ?thesis by (subst fmt_nat.simps) (simp add: digit_val_chr)
  next
    case False
    with "1.IH" "1.prems" have "digits_val base 0 (fmt_nat base (n div base)) = Some (n div base)"
      by simp
    moreover have less: "n mod base < base" using "1.prems" by simp
    moreover have "digit_val (digit_chr (n mod base)) = Some (n mod base)"
      by (rule digit_val_chr) (rule less_le_trans [OF less "1.prems"(2)])
    ultimately show ?thesis
      using False "1.prems"
      by (subst fmt_nat.simps) (simp add: digits_val_append)
  qed
qed

lemma ParseUint_fmt:
  "2 \<le> base \<Longrightarrow> base \<le> 36 \<Longrightarrow> n < 2 ^ bits \<Longrightarrow> ParseUint base bits (fmt_nat base n) = Some n"
  by (simp add: ParseUint_def digits_val_fmt)

lemma ParseUint_less: "ParseUint base bits s = Some n \<Longrightarrow> n < 2 ^ bits"
  by (auto simp: ParseUint_def split: if_splits option.splits)

text \<open>A formatted number consists of the digits and upper-case letters of its base.\<close>

lemma set_fmt_nat:
  "2 \<le> base \<Longrightarrow> base \<le> 36 \<Longrightarrow> c \<in> set (fmt_nat base n) \<Longrightarrow> \<exists>d<base. c = digit_chr d"
proof (induction base n rule: fmt_nat.induct)
  case (1 base n)
  show ?case
  proof (cases "n < base")
    case True
    with "1.prems" show ?thesis by (subst (asm) fmt_nat.simps) auto
  next
    case False
    have less: "n mod base < base" using "1.prems" by simp
    from False "1.prems" have "c \<in> set (fmt_nat base (n div base)) \<or> c = digit_chr (n mod base)"
      by (subst (asm) fmt_nat.simps) auto
    then show ?thesis
    proof
      assume "c \<in> set (fmt_nat base (n div base))"
      with False "1.IH" "1.prems" show ?thesis by simp
    next
      assume "c = digit_chr (n mod base)"
      with less show ?thesis by blast
    qed
  qed
qed

lemma of_char_digit_chr: "d < 36 \<Longrightarrow> (of_char (digit_chr d) :: nat) = (if d < 10 then 48 + d else 55 + d)"
  by (simp add: digit_chr_def)

lemma fmt_nat_no_sep:
  assumes "2 \<le> base" "base \<le> 36" and "(of_char s :: nat) < 48 \<or> of_char s \<in> {58::nat..64}"
  shows "s \<notin> set (fmt_nat base n)"
proof
  assume "s \<in> set (fmt_nat base n)"
  with assms(1,2) obtain d where "d < base" "s = digit_chr d" by (auto dest: set_fmt_nat)
  with assms of_char_digit_chr [of d] show False by (auto split: if_splits)
qed

lemma fmt_nat_no_space:
  assumes "2 \<le> base" "base \<le> 36" "c \<in> set (fmt_nat base n)"
  shows "\<not> is_space c"
proof -
  from assms obtain d where "d < base" "c = digit_chr d" by (auto dest: set_fmt_nat)
  with assms of_char_digit_chr [of d] show ?thesis by (auto simp: is_space_def split: if_splits)
qed

lemma ParseInt_FormatInt:
  assumes "0 < bits" "- (2 ^ (bits - 1)) \<le> i" "i < 2 ^ (bits - 1)"
  shows "ParseInt 10 bits (FormatInt i) = Some i"
proof -
  have pow: "(2::int) ^ bits = 2 * 2 ^ (bits - 1)"
    using assms(1) by (cases bits) auto
  have hd_digit: "\<exists>c cs. fmt_nat 10 n = c # cs \<and> c \<noteq> CHR ''-'' \<and> c \<noteq> CHR ''+''" for n
  proof -
    obtain c cs where eq: "fmt_nat 10 n = c # cs" by (cases "fmt_nat 10 n") auto
    have "CHR ''-'' \<notin> set (fmt_nat 10 n)" "CHR ''+'' \<notin> set (fmt_nat 10 n)"
      by (rule fmt_nat_no_sep; simp)+
    with eq show ?thesis by auto
  qed
  show ?thesis
  proof (cases "i < 0")
    case True
    then have "nat (- i) \<le> 2 ^ (bits - 1)"
      using assms(2) by (simp add: nat_le_iff)
    moreover have "(2::nat) ^ (bits - 1) < 2 ^ bits"
      using assms(1) by simp
    ultimately have "nat (- i) < 2 ^ bits" by (rule le_less_trans)
    then have "ParseUint 10 bits (fmt_nat 10 (nat (- i))) = Some (nat (- i))"
      by (intro ParseUint_fmt) simp_all
    with True \<open>nat (- i) \<le> 2 ^ (bits - 1)\<close> show ?thesis
      by (simp add: ParseInt_def FormatInt_def)
  next
    case False
    then have lt: "nat i < 2 ^ (bits - 1)"
      using assms(3) by (simp add: nat_less_iff)
    moreover have "(2::nat) ^ (bits - 1) < 2 ^ bits"
      using assms(1) by simp
    ultimately have "nat i < 2 ^ bits" by (rule less_trans)
    then have "ParseUint 10 bits (fmt_nat 10 (nat i)) = Some (nat i)"
      by (intro ParseUint_fmt) simp_all
    with False lt hd_digit [of "nat i"] show ?thesis
      by (auto simp: ParseInt_def FormatInt_def)
  qed
qed

lemma FormatInt_no_sep:
  assumes "s \<noteq> CHR ''-''" and "(of_char s :: nat) < 48 \<or> of_char s \<in> {58::nat..64}"
  shows "s \<notin> set (FormatInt i)"
  using assms fmt_nat_no_sep [of 10 s] by (auto simp: FormatInt_def)

end
