(* ===== verification/Partition.thy ===== *)
theory Partition
  imports Markers Go_Text "HOL-Library.Product_Lexorder"
begin

text \<open>
  \<open>internal/partition/partition.go\<close>: the order of primary-key tuples and the range that owns a key,
  with the integer conversions of \<open>core/scalar.go\<close> it uses. A cell is a Go \<open>any\<close>: the integer types
  at their widths, floats, strings, bytes, booleans, instants (nanoseconds since the epoch), \<open>nil\<close> and
  everything else. Floating point arithmetic is the processor's: its conversions and its order
  are the parameter \<open>float_ops\<close>. An order error is \<open>None\<close>.

  The locale \<open>key_order\<close> is what the routing and clipping of chunks rely on: on a class of keys the
  comparison never fails and is a linear order. The keys of one table are such a class: tuples whose
  columns each hold integers, of any width and signedness, or strings and bytes.
\<close>

section \<open>Cells\<close>

datatype 'f cell =
    CInt8 "8 word" | CInt16 "16 word" | CInt32 "32 word" | CInt64 "64 word" | CInt "64 word"
  | CUint8 "8 word" | CUint16 "16 word" | CUint32 "32 word" | CUint64 "64 word" | CUint "64 word"
  | CFloat32 'f | CFloat64 'f
  | CString string | CBytes string
  | CBool bool
  | CTime int
  | CNil
  | COther

record 'f float_ops =
  f_of_int :: "int \<Rightarrow> 'f"
  f_compare :: "'f \<Rightarrow> 'f \<Rightarrow> int"
  f_int64 :: "'f \<Rightarrow> 64 word"
  f_finite :: "'f \<Rightarrow> bool"

text \<open>A concrete instance, for evaluation: floats that hold whole numbers only.\<close>

definition whole_floats :: "int float_ops" where
  "whole_floats = \<lparr>f_of_int = (\<lambda>n. n), f_compare = (\<lambda>x y. sgn (x - y)), f_int64 = word_of_int,
     f_finite = (\<lambda>x. True)\<rparr>"

record integer =
  int_neg :: bool
  int_mag :: u64

definition cmp_Compare :: "'a::linorder \<Rightarrow> 'a \<Rightarrow> int" where
  "cmp_Compare x y = (if x < y then - 1 else if x > y then 1 else 0)"

definition integer_compare :: "integer \<Rightarrow> integer \<Rightarrow> int" where
  "integer_compare x y =
     (if int_neg x \<and> \<not> int_neg y then - 1
      else if \<not> int_neg x \<and> int_neg y then 1
      else if int_neg x then cmp_Compare (int_mag y) (int_mag x)
      else cmp_Compare (int_mag x) (int_mag y))"

definition signed_integer :: "64 word \<Rightarrow> integer" where
  "signed_integer v =
     (if v <s 0 then \<lparr>int_neg = True, int_mag = - (v + 1) + 1\<rparr> else \<lparr>int_neg = False, int_mag = v\<rparr>)"

fun asInteger :: "'f cell \<Rightarrow> integer option" where
  "asInteger (CInt64 t) = Some (signed_integer t)"
| "asInteger (CInt32 t) = Some (signed_integer (scast t))"
| "asInteger (CInt16 t) = Some (signed_integer (scast t))"
| "asInteger (CInt8 t) = Some (signed_integer (scast t))"
| "asInteger (CInt t) = Some (signed_integer t)"
| "asInteger (CUint64 t) = Some \<lparr>int_neg = False, int_mag = t\<rparr>"
| "asInteger (CUint32 t) = Some \<lparr>int_neg = False, int_mag = ucast t\<rparr>"
| "asInteger (CUint16 t) = Some \<lparr>int_neg = False, int_mag = ucast t\<rparr>"
| "asInteger (CUint8 t) = Some \<lparr>int_neg = False, int_mag = ucast t\<rparr>"
| "asInteger (CUint t) = Some \<lparr>int_neg = False, int_mag = t\<rparr>"
| "asInteger _ = None"

fun asBytes :: "'f cell \<Rightarrow> string option" where
  "asBytes (CString t) = Some t"
| "asBytes (CBytes t) = Some t"
| "asBytes _ = None"

fun asUnsigned :: "'f cell \<Rightarrow> u64 option" where
  "asUnsigned (CUint64 t) = Some t"
| "asUnsigned (CUint32 t) = Some (ucast t)"
| "asUnsigned (CUint16 t) = Some (ucast t)"
| "asUnsigned (CUint8 t) = Some (ucast t)"
| "asUnsigned (CUint t) = Some t"
| "asUnsigned _ = None"

text \<open>\<open>AsInt64\<close> and \<open>AsUint64\<close>: a value with no exact form in the target type is rejected.\<close>

definition AsInt64 :: "'f cell \<Rightarrow> 64 word option" where
  "AsInt64 v =
     (case v of
        CInt64 t \<Rightarrow> Some t
      | CInt32 t \<Rightarrow> Some (scast t)
      | CInt16 t \<Rightarrow> Some (scast t)
      | CInt8 t \<Rightarrow> Some (scast t)
      | CInt t \<Rightarrow> Some t
      | _ \<Rightarrow> (case asUnsigned v of
                Some u \<Rightarrow> if u \<le> 9223372036854775807 then Some u else None
              | None \<Rightarrow> None))"

definition AsUint64 :: "'f cell \<Rightarrow> u64 option" where
  "AsUint64 v =
     (case asUnsigned v of
        Some u \<Rightarrow> Some u
      | None \<Rightarrow> (case AsInt64 v of Some i \<Rightarrow> if 0 <=s i then Some i else None | None \<Rightarrow> None))"

definition AsFloat64 :: "'f float_ops \<Rightarrow> 'f cell \<Rightarrow> 'f option" where
  "AsFloat64 F v =
     (case v of
        CFloat64 t \<Rightarrow> Some t
      | CFloat32 t \<Rightarrow> Some t
      | _ \<Rightarrow> (case asUnsigned v of
                Some u \<Rightarrow> Some (f_of_int F (uint u))
              | None \<Rightarrow> map_option (\<lambda>i. f_of_int F (sint i)) (AsInt64 v)))"

definition compareScalar :: "'f float_ops \<Rightarrow> 'f cell \<Rightarrow> 'f cell \<Rightarrow> int option" where
  "compareScalar F a b =
     (case (asInteger a, asInteger b) of
        (Some ai, Some bi) \<Rightarrow> Some (integer_compare ai bi)
      | _ \<Rightarrow>
          (case (AsFloat64 F a, AsFloat64 F b) of
             (Some af, Some bf) \<Rightarrow> Some (f_compare F af bf)
           | _ \<Rightarrow>
               (case (asBytes a, asBytes b) of
                  (Some as, Some bs) \<Rightarrow> Some (cmp_Compare as bs)
                | _ \<Rightarrow> None)))"

type_synonym 'f pkey = "'f cell list"

fun ComparePK :: "'f float_ops \<Rightarrow> 'f pkey \<Rightarrow> 'f pkey \<Rightarrow> int option" where
  "ComparePK F (x # xs) (y # ys) =
     (case compareScalar F x y of
        None \<Rightarrow> None
      | Some c \<Rightarrow> if c \<noteq> 0 then Some c else ComparePK F xs ys)"
| "ComparePK F xs ys = Some (int (length xs) - int (length ys))"

section \<open>Ranges\<close>

record 'f chunk =
  ck_Low :: "'f pkey option"
  ck_High :: "'f pkey option"

fun owner_from :: "'f float_ops \<Rightarrow> nat \<Rightarrow> 'f chunk list \<Rightarrow> 'f pkey \<Rightarrow> int option" where
  "owner_from F i [] k = Some (- 1)"
| "owner_from F i (r # rs) k =
     (let below = (case ck_Low r of
                     None \<Rightarrow> Some False
                   | Some lo \<Rightarrow> map_option (\<lambda>c. c < 0) (ComparePK F k lo))
      in case below of
           None \<Rightarrow> None
         | Some True \<Rightarrow> owner_from F (Suc i) rs k
         | Some False \<Rightarrow>
             (let above = (case ck_High r of
                             None \<Rightarrow> Some False
                           | Some hi \<Rightarrow> map_option (\<lambda>c. c \<ge> 0) (ComparePK F k hi))
              in case above of
                   None \<Rightarrow> None
                 | Some True \<Rightarrow> owner_from F (Suc i) rs k
                 | Some False \<Rightarrow> Some (int i)))"

definition Owner :: "'f float_ops \<Rightarrow> 'f chunk list \<Rightarrow> 'f pkey \<Rightarrow> int option" where
  "Owner F ranges k = (if length ranges = 1 then Some 0 else owner_from F 0 ranges k)"

section \<open>Integer keys compare exactly\<close>

definition integer_val :: "integer \<Rightarrow> int" where
  "integer_val x = (if int_neg x then - uint (int_mag x) else uint (int_mag x))"

definition integer_ok :: "integer \<Rightarrow> bool" where
  "integer_ok x \<longleftrightarrow> (int_neg x \<longrightarrow> int_mag x \<noteq> 0)"

lemma cmp_Compare_sign:
  "cmp_Compare x y < 0 \<longleftrightarrow> x < y" "cmp_Compare x y > 0 \<longleftrightarrow> y < x" "cmp_Compare x y = 0 \<longleftrightarrow> x = y"
  by (auto simp: cmp_Compare_def)

lemma uint_pos: "w \<noteq> 0 \<Longrightarrow> 0 < uint (w :: u64)"
  using unsigned_greater_eq [of w] by (simp add: order_less_le uint_0_iff)

lemma integer_compare_sign:
  assumes "integer_ok x" "integer_ok y"
  shows "integer_compare x y < 0 \<longleftrightarrow> integer_val x < integer_val y"
    and "integer_compare x y > 0 \<longleftrightarrow> integer_val y < integer_val x"
proof -
  have pos: "0 \<le> uint (int_mag z)" for z by simp
  have neg: "0 < uint (int_mag z)" if "integer_ok z" "int_neg z" for z
    using that by (auto simp: integer_ok_def intro: uint_pos)
  show "integer_compare x y < 0 \<longleftrightarrow> integer_val x < integer_val y"
    "integer_compare x y > 0 \<longleftrightarrow> integer_val y < integer_val x"
    using neg [OF assms(1)] neg [OF assms(2)] pos [of x] pos [of y]
    by (auto simp: integer_compare_def integer_val_def cmp_Compare_sign word_less_def)
      (use pos [of x] pos [of y] in linarith)+
qed

lemma sint_bounds64: "- 9223372036854775808 \<le> sint (v :: 64 word)" "sint v < 9223372036854775808"
  using sint_ge [of v] sint_lt [of v] by simp_all

lemma uint_of_sint64:
  "0 \<le> sint (v :: 64 word) \<Longrightarrow> uint v = sint v"
  "sint (v :: 64 word) < 0 \<Longrightarrow> uint (- v) = - sint v"
proof -
  show "uint v = sint v" if "0 \<le> sint (v :: 64 word)" for v
    using that sint_bounds64 [of v] by (simp add: uint_sint take_bit_eq_mod)
  show "uint (- v) = - sint v" if "sint (v :: 64 word) < 0" for v
  proof -
    have "- v = word_of_int (- sint v)" by simp
    then have "uint (- v) = uint (word_of_int (- sint v) :: 64 word)" by (rule arg_cong)
    then have "uint (- v) = (- sint v) mod 18446744073709551616"
      by (simp only: uint_word_of_int) simp
    then show ?thesis using that sint_bounds64 [of v] by simp
  qed
qed

lemma signed_integer_val [simp]: "integer_val (signed_integer v) = sint v"
  using uint_of_sint64 [of v] by (simp add: integer_val_def signed_integer_def word_sless_alt)

lemma signed_integer_ok [simp]: "integer_ok (signed_integer v)"
  by (auto simp: integer_ok_def signed_integer_def word_sless_alt)

lemma sint_scast_up:
  "sint (scast (a :: 8 word) :: 64 word) = sint a"
  "sint (scast (b :: 16 word) :: 64 word) = sint b"
  "sint (scast (c :: 32 word) :: 64 word) = sint c"
  by (simp_all add: sint_up_scast is_up)

lemma uint_ucast_up:
  "uint (ucast (a :: 8 word) :: 64 word) = uint a"
  "uint (ucast (b :: 16 word) :: 64 word) = uint b"
  "uint (ucast (c :: 32 word) :: 64 word) = uint c"
  by (simp_all add: uint_up_ucast is_up)

text \<open>The number an integer cell holds, whatever its width and signedness.\<close>

fun cell_int :: "'f cell \<Rightarrow> int option" where
  "cell_int (CInt8 t) = Some (sint t)"
| "cell_int (CInt16 t) = Some (sint t)"
| "cell_int (CInt32 t) = Some (sint t)"
| "cell_int (CInt64 t) = Some (sint t)"
| "cell_int (CInt t) = Some (sint t)"
| "cell_int (CUint8 t) = Some (uint t)"
| "cell_int (CUint16 t) = Some (uint t)"
| "cell_int (CUint32 t) = Some (uint t)"
| "cell_int (CUint64 t) = Some (uint t)"
| "cell_int (CUint t) = Some (uint t)"
| "cell_int _ = None"

lemma asInteger_cell_int: "map_option integer_val (asInteger v) = cell_int v"
  by (cases v) (simp_all add: sint_scast_up, simp_all add: integer_val_def uint_ucast_up)

lemma asInteger_ok: "asInteger v = Some x \<Longrightarrow> integer_ok x"
  by (cases v) (auto, auto simp: integer_ok_def)

lemma compareScalar_int:
  assumes a: "cell_int a = Some x" and b: "cell_int b = Some y"
  shows "\<exists>c. compareScalar F a b = Some c \<and> (c < 0 \<longleftrightarrow> x < y) \<and> (c > 0 \<longleftrightarrow> y < x)"
proof -
  obtain ai where ai: "asInteger a = Some ai" "integer_val ai = x"
    using a asInteger_cell_int [of a] by (cases "asInteger a") auto
  obtain bi where bi: "asInteger b = Some bi" "integer_val bi = y"
    using b asInteger_cell_int [of b] by (cases "asInteger b") auto
  show ?thesis
    using integer_compare_sign [OF asInteger_ok [OF ai(1)] asInteger_ok [OF bi(1)]] ai bi
    by (simp add: compareScalar_def)
qed

lemma compareScalar_bytes:
  assumes a: "asBytes a = Some x" and b: "asBytes b = Some y"
  shows "compareScalar F a b = Some (cmp_Compare x y)"
  using assms by (cases a; cases b) (simp_all add: compareScalar_def AsFloat64_def AsInt64_def)

section \<open>The order of a class of keys\<close>

definition key_lt :: "'f float_ops \<Rightarrow> 'f pkey \<Rightarrow> 'f pkey \<Rightarrow> bool" where
  "key_lt F a b \<longleftrightarrow> (case ComparePK F a b of Some c \<Rightarrow> c < 0 | None \<Rightarrow> False)"

definition key_ge :: "'f float_ops \<Rightarrow> 'f pkey \<Rightarrow> 'f pkey \<Rightarrow> bool" where
  "key_ge F a b \<longleftrightarrow> (case ComparePK F a b of Some c \<Rightarrow> c \<ge> 0 | None \<Rightarrow> False)"

text \<open>The rows of a chunk, \<open>[Low, High)\<close> with \<open>nil\<close> for an open end.\<close>

definition in_chunk :: "'f float_ops \<Rightarrow> 'f pkey \<Rightarrow> 'f chunk \<Rightarrow> bool" where
  "in_chunk F k r \<longleftrightarrow>
     (case ck_Low r of
        None \<Rightarrow> True
      | Some lo \<Rightarrow> key_ge F k lo) \<and>
     (case ck_High r of
        None \<Rightarrow> True
      | Some hi \<Rightarrow> key_lt F k hi)"

definition chunk_has :: "('f pkey \<Rightarrow> bool) \<Rightarrow> 'f chunk \<Rightarrow> bool" where
  "chunk_has K r \<longleftrightarrow> pred_option K (ck_Low r) \<and> pred_option K (ck_High r)"

fun first_at :: "('a \<Rightarrow> bool) \<Rightarrow> 'a list \<Rightarrow> nat option" where
  "first_at P [] = None"
| "first_at P (x # xs) = (if P x then Some 0 else map_option Suc (first_at P xs))"

lemma first_at_Some: "first_at P xs = Some j \<Longrightarrow> j < length xs \<and> P (xs ! j) \<and> (\<forall>i<j. \<not> P (xs ! i))"
proof (induction xs arbitrary: j)
  case (Cons x xs)
  then show ?case by (cases j) (auto simp: nth_Cons less_Suc_eq_0_disj split: if_splits)
qed simp

lemma first_at_None: "first_at P xs = None \<longleftrightarrow> (\<forall>x \<in> set xs. \<not> P x)"
  by (induction xs) auto

text \<open>Consecutive ranges: from \<open>lo\<close> up to each of the bounds in turn, the last one open.\<close>

fun tiles :: "'f pkey option \<Rightarrow> 'f pkey list \<Rightarrow> 'f chunk list" where
  "tiles lo [] = [\<lparr>ck_Low = lo, ck_High = None\<rparr>]"
| "tiles lo (b # bs) = \<lparr>ck_Low = lo, ck_High = Some b\<rparr> # tiles (Some b) bs"

lemma length_tiles [simp]: "length (tiles lo bs) = Suc (length bs)"
  by (induction bs arbitrary: lo) simp_all

lemma tiles_low:
  "r \<in> set (tiles (Some b) bs) \<Longrightarrow>
     \<exists>l \<in> set (b # bs). ck_Low r = Some l \<and> (ck_High r = None \<or> (\<exists>h \<in> set bs. ck_High r = Some h))"
proof (induction bs arbitrary: b)
  case (Cons c cs)
  then show ?case by (cases "r \<in> set (tiles (Some c) cs)") force+
qed simp

lemma tiles_has: "pred_option K lo \<Longrightarrow> \<forall>b \<in> set bs. K b \<Longrightarrow> \<forall>r \<in> set (tiles lo bs). chunk_has K r"
proof (induction bs arbitrary: lo)
  case (Cons b bs)
  then show ?case using Cons.IH [of "Some b"] by (simp add: chunk_has_def)
qed (simp add: chunk_has_def)

locale key_order =
  fixes F :: "'f float_ops"
    and K :: "'f pkey \<Rightarrow> bool"
    and val :: "'f pkey \<Rightarrow> 'v::linorder"
  assumes compare_total: "K a \<Longrightarrow> K b \<Longrightarrow>
    \<exists>c. ComparePK F a b = Some c \<and> (c < 0 \<longleftrightarrow> val a < val b) \<and> (c > 0 \<longleftrightarrow> val b < val a)"
begin

lemma compare_lt: "K a \<Longrightarrow> K b \<Longrightarrow> map_option (\<lambda>c. c < 0) (ComparePK F a b) = Some (val a < val b)"
  using compare_total [of a b] by auto

lemma compare_ge: "K a \<Longrightarrow> K b \<Longrightarrow> map_option (\<lambda>c. c \<ge> 0) (ComparePK F a b) = Some (val b \<le> val a)"
  using compare_total [of a b] by (auto simp: not_less [symmetric])

lemma compare_gt: "K a \<Longrightarrow> K b \<Longrightarrow> map_option (\<lambda>c. c > 0) (ComparePK F a b) = Some (val b < val a)"
  using compare_total [of a b] by auto

lemma compare_le: "K a \<Longrightarrow> K b \<Longrightarrow> map_option (\<lambda>c. c \<le> 0) (ComparePK F a b) = Some (val a \<le> val b)"
  using compare_total [of a b] by (auto simp: not_less [symmetric])

lemma key_lt_val: "K a \<Longrightarrow> K b \<Longrightarrow> key_lt F a b \<longleftrightarrow> val a < val b"
  using compare_total [of a b] by (auto simp: key_lt_def)

lemma key_ge_val: "K a \<Longrightarrow> K b \<Longrightarrow> key_ge F a b \<longleftrightarrow> val b \<le> val a"
  using compare_total [of a b] by (auto simp: key_ge_def not_less [symmetric])

lemma in_chunk_val:
  assumes "K k" "chunk_has K r"
  shows "in_chunk F k r \<longleftrightarrow>
    (case ck_Low r of None \<Rightarrow> True | Some lo \<Rightarrow> val lo \<le> val k) \<and>
    (case ck_High r of None \<Rightarrow> True | Some hi \<Rightarrow> val k < val hi)"
  using assms
  by (auto simp: in_chunk_def chunk_has_def key_lt_val key_ge_val split: option.splits)

lemma owner_from_first:
  assumes "K k" "\<forall>r \<in> set rs. chunk_has K r"
  shows "owner_from F i rs k = Some (case first_at (in_chunk F k) rs of None \<Rightarrow> - 1 | Some j \<Rightarrow> int (i + j))"
  using assms(2)
proof (induction rs arbitrary: i)
  case (Cons r rs)
  then have r: "chunk_has K r" and IH: "owner_from F (Suc i) rs k
      = Some (case first_at (in_chunk F k) rs of None \<Rightarrow> - 1 | Some j \<Rightarrow> int (Suc i + j))"
    by simp_all
  have lo: "ck_Low r = Some lo \<Longrightarrow> map_option (\<lambda>c. c < 0) (ComparePK F k lo) = Some (val k < val lo)" for lo
    using r assms(1) by (simp add: chunk_has_def compare_lt)
  have hi: "ck_High r = Some hi \<Longrightarrow> map_option (\<lambda>c. c \<ge> 0) (ComparePK F k hi) = Some (val hi \<le> val k)" for hi
    using r assms(1) by (simp add: chunk_has_def compare_ge)
  show ?case
    unfolding owner_from.simps first_at.simps in_chunk_val [OF assms(1) r] IH Let_def
    by (auto simp: lo hi not_less not_le split: option.splits bool.splits)
qed simp

lemma tiles_hit:
  assumes "K k" "pred_option K lo" "\<forall>b \<in> set bs. K b"
    and "case lo of None \<Rightarrow> True | Some l \<Rightarrow> val l \<le> val k"
    and "sorted (map val bs)" "case lo of None \<Rightarrow> True | Some l \<Rightarrow> \<forall>b \<in> set bs. val l \<le> val b"
  shows "length (filter (in_chunk F k) (tiles lo bs)) = 1"
  using assms(2-)
proof (induction bs arbitrary: lo)
  case Nil
  then have "in_chunk F k \<lparr>ck_Low = lo, ck_High = None\<rparr>"
    using assms(1) by (subst in_chunk_val) (auto simp: chunk_has_def)
  then show ?case by simp
next
  case (Cons b bs)
  have r: "chunk_has K \<lparr>ck_Low = lo, ck_High = Some b\<rparr>" using Cons.prems by (simp add: chunk_has_def)
  have in_r: "in_chunk F k \<lparr>ck_Low = lo, ck_High = Some b\<rparr> \<longleftrightarrow> val k < val b"
    using Cons.prems by (simp add: in_chunk_val [OF assms(1) r])
  show ?case
  proof (cases "val k < val b")
    case True
    have "\<not> in_chunk F k r" if "r \<in> set (tiles (Some b) bs)" for r
    proof -
      have "chunk_has K r \<and> (\<exists>l. ck_Low r = Some l \<and> val b \<le> val l)"
        using that Cons.prems tiles_low [of r b bs] by (auto simp: chunk_has_def pred_option_def)
      with True show ?thesis by (auto simp: in_chunk_val [OF assms(1)])
    qed
    with True in_r show ?thesis by (simp add: filter_empty_conv)
  next
    case False
    then show ?thesis using Cons.IH [of "Some b"] Cons.prems in_r by (simp add: not_less)
  qed
qed

lemma Owner_from_tiles:
  assumes "K k" "\<forall>b \<in> set bs. K b" "sorted (map val bs)"
  shows "\<exists>i. Owner F (tiles None bs) k = Some (int i) \<and> i < length (tiles None bs) \<and> in_chunk F k (tiles None bs ! i)"
proof -
  let ?rs = "tiles None bs"
  have has: "\<forall>r \<in> set ?rs. chunk_has K r"
    by (rule tiles_has) (use assms(2) in simp_all)
  have "length (filter (in_chunk F k) ?rs) = 1" by (rule tiles_hit) (use assms in simp_all)
  then have "filter (in_chunk F k) ?rs \<noteq> []" by (metis list.size(3) zero_neq_one)
  then have "first_at (in_chunk F k) ?rs \<noteq> None"
    by (simp add: first_at_None filter_empty_conv)
  then obtain i where i: "first_at (in_chunk F k) ?rs = Some i" by blast
  note at = first_at_Some [OF i]
  show ?thesis
  proof (cases "length ?rs = 1")
    case True
    with at have "i = 0" by simp
    with at True show ?thesis by (auto simp: Owner_def intro: exI [of _ 0])
  next
    case False
    then show ?thesis using at owner_from_first [OF assms(1) has, of 0] i by (auto simp: Owner_def)
  qed
qed

end

section \<open>The keys of a table\<close>

text \<open>
  A key has a table's shape when it has the table's key columns and each column holds a value of the
  column's kind. Its value is what the order sees: an integer column its number, a text column its
  bytes.
\<close>

datatype col_kind = IntCol | TextCol

fun of_col :: "col_kind \<Rightarrow> 'f cell \<Rightarrow> bool" where
  "of_col IntCol c \<longleftrightarrow> cell_int c \<noteq> None"
| "of_col TextCol c \<longleftrightarrow> asBytes c \<noteq> None"

definition has_shape :: "col_kind list \<Rightarrow> 'f pkey \<Rightarrow> bool" where
  "has_shape sh k \<longleftrightarrow> list_all2 of_col sh k"

definition cell_val :: "'f cell \<Rightarrow> int \<times> string" where
  "cell_val c =
     (case cell_int c of
        Some n \<Rightarrow> (n, [])
      | None \<Rightarrow> (0, case asBytes c of Some t \<Rightarrow> t | None \<Rightarrow> []))"

definition key_val :: "'f pkey \<Rightarrow> (int \<times> string) list" where
  "key_val k = map cell_val k"

lemma asBytes_no_int: "asBytes c = Some t \<Longrightarrow> cell_int c = None"
  by (cases c) simp_all

lemma compareScalar_col:
  assumes "of_col t a" "of_col t b"
  shows "\<exists>c. compareScalar F a b = Some c \<and> (c < 0 \<longleftrightarrow> cell_val a < cell_val b) \<and> (c > 0 \<longleftrightarrow> cell_val b < cell_val a)"
proof (cases t)
  case IntCol
  with assms obtain x y where "cell_int a = Some x" "cell_int b = Some y" by auto
  with compareScalar_int [OF this] show ?thesis by (auto simp: cell_val_def)
next
  case TextCol
  with assms obtain x y where xy: "asBytes a = Some x" "asBytes b = Some y" by auto
  then show ?thesis
    by (simp add: compareScalar_bytes cell_val_def asBytes_no_int cmp_Compare_sign)
qed

lemma ComparePK_shape:
  assumes "list_all2 of_col sh a" "list_all2 of_col sh b"
  shows "\<exists>c. ComparePK F a b = Some c \<and> (c < 0 \<longleftrightarrow> key_val a < key_val b) \<and> (c > 0 \<longleftrightarrow> key_val b < key_val a)"
  using assms
proof (induction sh arbitrary: a b)
  case (Cons t sh)
  then obtain x xs y ys where ab: "a = x # xs" "b = y # ys" "of_col t x" "of_col t y"
    "list_all2 of_col sh xs" "list_all2 of_col sh ys"
    by (auto simp: list_all2_Cons1)
  obtain c where c: "compareScalar F x y = Some c" "c < 0 \<longleftrightarrow> cell_val x < cell_val y"
    "c > 0 \<longleftrightarrow> cell_val y < cell_val x"
    using compareScalar_col [OF ab(3,4)] by blast
  show ?case
  proof (cases "c = 0")
    case True
    then have "cell_val x = cell_val y" using c by auto
    then show ?thesis using Cons.IH [OF ab(5,6)] c True by (simp add: ab key_val_def)
  next
    case False
    then have "cell_val x \<noteq> cell_val y" using c by auto
    then show ?thesis using c False by (auto simp: ab key_val_def)
  qed
qed (simp add: key_val_def)

interpretation shaped: key_order F "has_shape sh" key_val for F sh
  by unfold_locales (simp add: has_shape_def ComparePK_shape)

section \<open>Properties\<close>

text \<open>
  Comparing two keys of one table never fails and orders them column by column, integers by
  their number whatever width and signedness the source driver delivered them in, text by its bytes.
\<close>

theorem ComparePK_exact:
  assumes "has_shape sh a" "has_shape sh b"
  shows "\<exists>c. ComparePK F a b = Some c \<and> (c < 0 \<longleftrightarrow> key_val a < key_val b)
    \<and> (c > 0 \<longleftrightarrow> key_val b < key_val a) \<and> (c = 0 \<longleftrightarrow> key_val a = key_val b)"
  using shaped.compare_total [OF assms, of F] by (metis less_irrefl linorder_neqE)

theorem ComparePK_exact_witness:
  "\<exists>c. ComparePK whole_floats [CString ''eu'', CInt32 (- 1)] [CBytes ''eu'', CUint64 18446744073709551615] = Some c \<and> c < 0"
proof -
  have "key_val [CString ''eu'', CInt32 (- 1)] < key_val [CBytes ''eu'', CUint64 18446744073709551615]"
    by (simp add: key_val_def cell_val_def)
  then show ?thesis
    using ComparePK_exact [of "[TextCol, IntCol]" "[CString ''eu'', CInt32 (- 1)]"
        "[CBytes ''eu'', CUint64 18446744073709551615]" whole_floats]
    by (auto simp: has_shape_def)
qed

end
