(* ===== verification/Chunk_Ranges.thy ===== *)
theory Chunk_Ranges
  imports Partition
begin

text \<open>
  The ranges a snapshot reads: the chunks between the source's bounds
  (\<open>internal/snapshot/dblog.go\<close>), the key ranges of a partitioned table
  (\<open>internal/source/postgres/chunk/partition.go\<close>) and the clipping of the first to the second
  (\<open>internal/snapshot/clip.go\<close>). Integers are Go's \<open>int64\<close>: their arithmetic wraps, and division
  truncates towards zero.
\<close>

section \<open>Chunks between bounds\<close>

fun chunks_between :: "'f pkey list \<Rightarrow> 'f chunk list" where
  "chunks_between (a # b # bs) = \<lparr>ck_Low = Some a, ck_High = Some b\<rparr> # chunks_between (b # bs)"
| "chunks_between _ = []"

definition Chunks :: "'f pkey list \<Rightarrow> 'f chunk list" where
  "Chunks bounds =
     (if bounds = [] then []
      else chunks_between bounds @ [\<lparr>ck_Low = Some (last bounds), ck_High = None\<rparr>])"

lemma Chunks_tiles: "Chunks (b # bs) = tiles (Some b) bs"
proof -
  have "chunks_between (b # bs) @ [\<lparr>ck_Low = Some (last (b # bs)), ck_High = None\<rparr>] = tiles (Some b) bs"
    by (induction bs arbitrary: b) simp_all
  then show ?thesis by (simp add: Chunks_def)
qed

section \<open>Partition ranges\<close>

definition partTuple :: "'f cell option \<Rightarrow> 'f pkey option" where
  "partTuple v = map_option (\<lambda>x. [x]) v"

lemma partTuple_simps [simp]: "partTuple None = None" "partTuple (Some x) = Some [x]"
  by (simp_all add: partTuple_def)

fun ranges_from :: "'f cell option \<Rightarrow> 'f cell list \<Rightarrow> 'f chunk list" where
  "ranges_from lowVal (v # vs) =
     \<lparr>ck_Low = partTuple lowVal, ck_High = partTuple (Some v)\<rparr> # ranges_from (Some v) vs"
| "ranges_from lowVal [] = [\<lparr>ck_Low = partTuple lowVal, ck_High = None\<rparr>]"

definition rangesFromBoundaries :: "'f cell list \<Rightarrow> 'f chunk list" where
  "rangesFromBoundaries boundaries = ranges_from None boundaries"

lemma ranges_from_tiles: "ranges_from lo vs = tiles (partTuple lo) (map (\<lambda>v. [v]) vs)"
  by (induction vs arbitrary: lo) (simp_all add: partTuple_def)

lemma rangesFromBoundaries_tiles: "rangesFromBoundaries vs = tiles None (map (\<lambda>v. [v]) vs)"
  by (simp add: rangesFromBoundaries_def ranges_from_tiles partTuple_def)

definition domainRanges :: "nat \<Rightarrow> (nat \<Rightarrow> 'f cell) \<Rightarrow> 'f chunk list" where
  "domainRanges n boundary =
     map (\<lambda>i. \<lparr>ck_Low = partTuple (if i = 0 then None else Some (boundary i)),
              ck_High = partTuple (if i = n - 1 then None else Some (boundary (i + 1)))\<rparr>) [0..<n]"

definition i64 :: "int \<Rightarrow> int" where
  "i64 x = (x + 9223372036854775808) mod 18446744073709551616 - 9223372036854775808"

definition go_div :: "int \<Rightarrow> int \<Rightarrow> int" where
  "go_div a b = i64 (sgn a * sgn b * (\<bar>a\<bar> div \<bar>b\<bar>))"

definition MinInt64 :: int where "MinInt64 = - 9223372036854775808"

definition MaxInt64 :: int where "MaxInt64 = 9223372036854775807"

definition int_cell :: "int \<Rightarrow> 'f cell" where
  "int_cell x = CInt64 (word_of_int x)"

definition isStringType :: "string \<Rightarrow> bool" where
  "isStringType t \<longleftrightarrow> t \<in> {''character varying'', ''character'', ''text'', ''citext''}"

definition typeDomainRanges :: "string \<Rightarrow> nat \<Rightarrow> 'f chunk list" where
  "typeDomainRanges dataType n =
     (if isStringType dataType
      then domainRanges n (\<lambda>i. CString [char_of (32 + (126 - 32) * i div n)])
      else let step = (MaxInt64 - MinInt64) div int n
           in rangesFromBoundaries (map (\<lambda>i. int_cell (MinInt64 + int i * step)) [1..<n]))"

text \<open>\<open>partitionNumeric\<close>'s loop: \<open>first\<close> is \<open>i = 0\<close>, the count is the iterations left.\<close>

fun numeric_from :: "bool \<Rightarrow> nat \<Rightarrow> int \<Rightarrow> int \<Rightarrow> int \<Rightarrow> 'f chunk list" where
  "numeric_from first 0 low step maxI = []"
| "numeric_from first (Suc m) low step maxI =
     (let lowVal = (if first then None else Some (int_cell low))
      in if m = 0 then [\<lparr>ck_Low = partTuple lowVal, ck_High = None\<rparr>]
         else if low \<ge> maxI \<or> step > i64 (maxI - low)
         then \<lparr>ck_Low = partTuple (Some (int_cell maxI)), ck_High = partTuple (Some (int_cell maxI))\<rparr>
              # numeric_from False m low step maxI
         else \<lparr>ck_Low = partTuple lowVal, ck_High = partTuple (Some (int_cell (i64 (low + step))))\<rparr>
              # numeric_from False m (i64 (low + step)) step maxI)"

definition numeric_bound :: "'f float_ops \<Rightarrow> 'f cell \<Rightarrow> int option" where
  "numeric_bound F v =
     (case AsInt64 v of
        Some i \<Rightarrow> Some (sint i)
      | None \<Rightarrow> map_option (\<lambda>f. sint (f_int64 F f)) (AsFloat64 F v))"

definition numeric_step :: "int \<Rightarrow> int \<Rightarrow> nat \<Rightarrow> int" where
  "numeric_step minI maxI n =
     (let span0 = i64 (i64 (maxI - minI) + 1);
          span = (if span0 < 1
                  then let s = i64 (go_div maxI (int n) - go_div minI (int n)) in if s < 1 then 1 else s
                  else span0);
          step = go_div span (int n)
      in if step < 1 then 1 else step)"

definition partitionNumeric ::
  "'f float_ops \<Rightarrow> 'f cell \<Rightarrow> 'f cell \<Rightarrow> nat \<Rightarrow> 'f chunk list option" where
  "partitionNumeric F minVal maxVal n =
     (case (numeric_bound F minVal, numeric_bound F maxVal) of
        (Some minI, Some maxI) \<Rightarrow>
          if maxI < minI then None
          else Some (numeric_from True n minI (numeric_step minI maxI n) maxI)
      | _ \<Rightarrow> None)"

section \<open>Clipping chunks to a range\<close>

text \<open>One iteration of \<open>ClipChunksToRange\<close>: an error, a skipped chunk or the clamped chunk.\<close>

datatype 'a clip = ClipErr | ClipSkip | ClipKeep 'a

definition clip_low :: "'f float_ops \<Rightarrow> 'f chunk \<Rightarrow> 'f chunk \<Rightarrow> 'f pkey option option" where
  "clip_low F r ch =
     (case ck_Low r of
        None \<Rightarrow> Some (ck_Low ch)
      | Some rl \<Rightarrow>
          (case (case ck_Low ch of None \<Rightarrow> Some (- 1) | Some l \<Rightarrow> ComparePK F l rl) of
             None \<Rightarrow> None
           | Some c \<Rightarrow> Some (if c < 0 then Some rl else ck_Low ch)))"

definition clip_high :: "'f float_ops \<Rightarrow> 'f chunk \<Rightarrow> 'f chunk \<Rightarrow> 'f pkey option option" where
  "clip_high F r ch =
     (case ck_High r of
        None \<Rightarrow> Some (ck_High ch)
      | Some rh \<Rightarrow>
          (case (case ck_High ch of None \<Rightarrow> Some 1 | Some h \<Rightarrow> ComparePK F h rh) of
             None \<Rightarrow> None
           | Some c \<Rightarrow> Some (if c > 0 then Some rh else ck_High ch)))"

definition clip_one :: "'f float_ops \<Rightarrow> 'f chunk \<Rightarrow> 'f chunk \<Rightarrow> 'f chunk clip" where
  "clip_one F r ch =
     (case (case (ck_High r, ck_Low ch) of (Some rh, Some l) \<Rightarrow> ComparePK F l rh | _ \<Rightarrow> Some (- 1)) of
        None \<Rightarrow> ClipErr
      | Some c \<Rightarrow>
          if c \<ge> 0 then ClipSkip
          else
            (case (case (ck_Low r, ck_High ch) of (Some rl, Some h) \<Rightarrow> ComparePK F h rl | _ \<Rightarrow> Some 1) of
               None \<Rightarrow> ClipErr
             | Some d \<Rightarrow>
                 if d \<le> 0 then ClipSkip
                 else
                   (case clip_low F r ch of
                      None \<Rightarrow> ClipErr
                    | Some lo \<Rightarrow>
                        (case clip_high F r ch of
                           None \<Rightarrow> ClipErr
                         | Some hi \<Rightarrow> ClipKeep \<lparr>ck_Low = lo, ck_High = hi\<rparr>))))"

fun clip_all :: "'f float_ops \<Rightarrow> 'f chunk \<Rightarrow> 'f chunk list \<Rightarrow> 'f chunk list option" where
  "clip_all F r [] = Some []"
| "clip_all F r (ch # chs) =
     (case clip_one F r ch of
        ClipErr \<Rightarrow> None
      | ClipSkip \<Rightarrow> clip_all F r chs
      | ClipKeep c \<Rightarrow> map_option (\<lambda>cs. c # cs) (clip_all F r chs))"

definition ClipChunksToRange :: "'f float_ops \<Rightarrow> 'f chunk list \<Rightarrow> 'f chunk \<Rightarrow> 'f chunk list option" where
  "ClipChunksToRange F chunks r =
     (if ck_Low r = None \<and> ck_High r = None then Some chunks else clip_all F r chunks)"

section \<open>Clipping is exact\<close>

context key_order
begin

lemma clip_low_val:
  assumes "chunk_has K r" "chunk_has K ch"
  shows "\<exists>lo. clip_low F r ch = Some lo \<and> pred_option K lo \<and>
    (\<forall>v. (case lo of None \<Rightarrow> True | Some l \<Rightarrow> val l \<le> v) \<longleftrightarrow>
         (case ck_Low ch of None \<Rightarrow> True | Some l \<Rightarrow> val l \<le> v) \<and>
         (case ck_Low r of None \<Rightarrow> True | Some l \<Rightarrow> val l \<le> v))"
proof (cases "ck_Low r")
  case (Some rl)
  show ?thesis
  proof (cases "ck_Low ch")
    case (Some l)
    with \<open>ck_Low r = Some rl\<close> assms have "K l" "K rl" by (auto simp: chunk_has_def)
    then obtain c where "ComparePK F l rl = Some c" "c < 0 \<longleftrightarrow> val l < val rl"
      using compare_total by blast
    with Some \<open>ck_Low r = Some rl\<close> \<open>K l\<close> \<open>K rl\<close> show ?thesis by (auto simp: clip_low_def)
  qed (use Some assms in \<open>auto simp: clip_low_def chunk_has_def\<close>)
qed (use assms in \<open>auto simp: clip_low_def chunk_has_def\<close>)

lemma clip_high_val:
  assumes "chunk_has K r" "chunk_has K ch"
  shows "\<exists>hi. clip_high F r ch = Some hi \<and> pred_option K hi \<and>
    (\<forall>v. (case hi of None \<Rightarrow> True | Some h \<Rightarrow> v < val h) \<longleftrightarrow>
         (case ck_High ch of None \<Rightarrow> True | Some h \<Rightarrow> v < val h) \<and>
         (case ck_High r of None \<Rightarrow> True | Some h \<Rightarrow> v < val h))"
proof (cases "ck_High r")
  case (Some rh)
  show ?thesis
  proof (cases "ck_High ch")
    case (Some h)
    with \<open>ck_High r = Some rh\<close> assms have "K h" "K rh" by (auto simp: chunk_has_def)
    then obtain c where "ComparePK F h rh = Some c" "c > 0 \<longleftrightarrow> val rh < val h"
      using compare_total by blast
    with Some \<open>ck_High r = Some rh\<close> \<open>K h\<close> \<open>K rh\<close> show ?thesis by (auto simp: clip_high_def)
  qed (use Some assms in \<open>auto simp: clip_high_def chunk_has_def\<close>)
qed (use assms in \<open>auto simp: clip_high_def chunk_has_def\<close>)

lemma skip_right:
  assumes "chunk_has K r" "chunk_has K ch" "K k"
  shows "\<exists>c. (case (ck_High r, ck_Low ch) of (Some rh, Some l) \<Rightarrow> ComparePK F l rh | _ \<Rightarrow> Some (- 1)) = Some c
    \<and> (c \<ge> 0 \<longrightarrow> \<not> (in_chunk F k ch \<and> in_chunk F k r))"
proof (cases "ck_High r"; cases "ck_Low ch")
  fix rh l assume s: "ck_High r = Some rh" "ck_Low ch = Some l"
  with assms have "K rh" "K l" by (auto simp: chunk_has_def)
  then obtain c where c: "ComparePK F l rh = Some c" "c < 0 \<longleftrightarrow> val l < val rh"
    using compare_total by blast
  then show ?thesis
    unfolding in_chunk_val [OF assms(3,2)] in_chunk_val [OF assms(3,1)] using s by auto
qed auto

lemma skip_left:
  assumes "chunk_has K r" "chunk_has K ch" "K k"
  shows "\<exists>c. (case (ck_Low r, ck_High ch) of (Some rl, Some h) \<Rightarrow> ComparePK F h rl | _ \<Rightarrow> Some 1) = Some c
    \<and> (c \<le> 0 \<longrightarrow> \<not> (in_chunk F k ch \<and> in_chunk F k r))"
proof (cases "ck_Low r"; cases "ck_High ch")
  fix rl h assume s: "ck_Low r = Some rl" "ck_High ch = Some h"
  with assms have "K rl" "K h" by (auto simp: chunk_has_def)
  then obtain c where c: "ComparePK F h rl = Some c" "c > 0 \<longleftrightarrow> val rl < val h"
    using compare_total by blast
  then show ?thesis
    unfolding in_chunk_val [OF assms(3,2)] in_chunk_val [OF assms(3,1)] using s by auto
qed auto

lemma clip_one_keep:
  assumes "chunk_has K r" "chunk_has K ch" "K k"
  shows "(\<exists>c. clip_one F r ch = ClipKeep c \<and> chunk_has K c
            \<and> (in_chunk F k c \<longleftrightarrow> in_chunk F k ch \<and> in_chunk F k r))
       \<or> (clip_one F r ch = ClipSkip \<and> \<not> (in_chunk F k ch \<and> in_chunk F k r))"
proof -
  obtain lo where lo: "clip_low F r ch = Some lo" "pred_option K lo"
    "\<And>v. (case lo of None \<Rightarrow> True | Some l \<Rightarrow> val l \<le> v) \<longleftrightarrow>
         (case ck_Low ch of None \<Rightarrow> True | Some l \<Rightarrow> val l \<le> v) \<and>
         (case ck_Low r of None \<Rightarrow> True | Some l \<Rightarrow> val l \<le> v)"
    using clip_low_val [OF assms(1,2)] by blast
  obtain hi where hi: "clip_high F r ch = Some hi" "pred_option K hi"
    "\<And>v. (case hi of None \<Rightarrow> True | Some h \<Rightarrow> v < val h) \<longleftrightarrow>
         (case ck_High ch of None \<Rightarrow> True | Some h \<Rightarrow> v < val h) \<and>
         (case ck_High r of None \<Rightarrow> True | Some h \<Rightarrow> v < val h)"
    using clip_high_val [OF assms(1,2)] by blast
  have has: "chunk_has K \<lparr>ck_Low = lo, ck_High = hi\<rparr>" using lo hi by (simp add: chunk_has_def)
  have inside: "in_chunk F k \<lparr>ck_Low = lo, ck_High = hi\<rparr> \<longleftrightarrow> in_chunk F k ch \<and> in_chunk F k r"
    unfolding in_chunk_val [OF assms(3) has] in_chunk_val [OF assms(3,2)] in_chunk_val [OF assms(3,1)]
    using lo(3) [of "val k"] hi(3) [of "val k"] by auto
  obtain c where c: "(case (ck_High r, ck_Low ch) of (Some rh, Some l) \<Rightarrow> ComparePK F l rh | _ \<Rightarrow> Some (- 1)) = Some c"
    and c_out: "c \<ge> 0 \<Longrightarrow> \<not> (in_chunk F k ch \<and> in_chunk F k r)"
    using skip_right [OF assms] by blast
  obtain d where d: "(case (ck_Low r, ck_High ch) of (Some rl, Some h) \<Rightarrow> ComparePK F h rl | _ \<Rightarrow> Some 1) = Some d"
    and d_out: "d \<le> 0 \<Longrightarrow> \<not> (in_chunk F k ch \<and> in_chunk F k r)"
    using skip_left [OF assms] by blast
  have "clip_one F r ch = (if c \<ge> 0 then ClipSkip else if d \<le> 0 then ClipSkip
      else ClipKeep \<lparr>ck_Low = lo, ck_High = hi\<rparr>)"
    unfolding clip_one_def c d lo(1) hi(1) by simp
  then show ?thesis using c_out d_out has inside by auto
qed

lemma clip_all_hits:
  assumes "chunk_has K r" "\<forall>ch \<in> set chs. chunk_has K ch" "K k"
  shows "\<exists>cs. clip_all F r chs = Some cs \<and> length (filter (in_chunk F k) cs)
    = (if in_chunk F k r then length (filter (in_chunk F k) chs) else 0)"
  using assms(2)
proof (induction chs)
  case (Cons ch chs)
  then have ch: "chunk_has K ch" by simp
  obtain cs where cs: "clip_all F r chs = Some cs" "length (filter (in_chunk F k) cs)
    = (if in_chunk F k r then length (filter (in_chunk F k) chs) else 0)"
    using Cons by auto
  show ?case
    using clip_one_keep [OF assms(1) ch assms(3)] cs by auto
qed simp

lemma Clip_hits:
  assumes "chunk_has K r" "\<forall>ch \<in> set chs. chunk_has K ch" "K k"
  shows "\<exists>cs. ClipChunksToRange F chs r = Some cs \<and> length (filter (in_chunk F k) cs)
    = (if in_chunk F k r then length (filter (in_chunk F k) chs) else 0)"
proof (cases "ck_Low r = None \<and> ck_High r = None")
  case True
  then have "in_chunk F k r" by (simp add: in_chunk_def)
  with True show ?thesis by (simp add: ClipChunksToRange_def)
next
  case False
  then have "ClipChunksToRange F chs r = clip_all F r chs" by (auto simp: ClipChunksToRange_def)
  with clip_all_hits [OF assms] show ?thesis by (simp only:)
qed

lemma clips_hits:
  assumes "\<forall>r \<in> set rs. chunk_has K r" "\<forall>ch \<in> set chs. chunk_has K ch" "K k"
  shows "\<exists>css. map (ClipChunksToRange F chs) rs = map Some css \<and>
    length (filter (in_chunk F k) (concat css))
      = length (filter (in_chunk F k) rs) * length (filter (in_chunk F k) chs)"
  using assms(1)
proof (induction rs)
  case (Cons r rs)
  then obtain css where css: "map (ClipChunksToRange F chs) rs = map Some css"
    "length (filter (in_chunk F k) (concat css))
      = length (filter (in_chunk F k) rs) * length (filter (in_chunk F k) chs)" by auto
  obtain cs where "ClipChunksToRange F chs r = Some cs" "length (filter (in_chunk F k) cs)
    = (if in_chunk F k r then length (filter (in_chunk F k) chs) else 0)"
    using Clip_hits [OF _ assms(2,3), of r] Cons.prems by auto
  with css show ?case by (intro exI [of _ "cs # css"]) simp
qed simp

end

section \<open>The numeric split covers the key space\<close>

definition in_i64 :: "int \<Rightarrow> bool" where
  "in_i64 x \<longleftrightarrow> MinInt64 \<le> x \<and> x \<le> MaxInt64"

lemma i64_id: "in_i64 x \<Longrightarrow> i64 x = x"
  by (simp add: in_i64_def i64_def MinInt64_def MaxInt64_def)

lemma cell_int_int_cell: "in_i64 x \<Longrightarrow> cell_int (int_cell x) = Some x"
  by (simp add: int_cell_def in_i64_def MinInt64_def MaxInt64_def sint_sbintrunc' signed_take_bit_int_eq_self)

lemma int_key_shape: "in_i64 x \<Longrightarrow> has_shape [IntCol] [int_cell x]"
  by (simp add: has_shape_def cell_int_int_cell)

lemma int_key_val: "in_i64 x \<Longrightarrow> key_val [int_cell x] = [(x, [])]"
  by (simp add: key_val_def cell_val_def cell_int_int_cell)

lemma in_int_chunk:
  assumes "in_i64 k" "pred_option in_i64 lo" "pred_option in_i64 hi"
  shows "in_chunk F [int_cell k] \<lparr>ck_Low = partTuple (map_option int_cell lo), ck_High = partTuple (map_option int_cell hi)\<rparr>
    \<longleftrightarrow> (case lo of None \<Rightarrow> True | Some l \<Rightarrow> l \<le> k) \<and> (case hi of None \<Rightarrow> True | Some h \<Rightarrow> k < h)"
proof -
  let ?r = "\<lparr>ck_Low = partTuple (map_option int_cell lo), ck_High = partTuple (map_option int_cell hi)\<rparr>"
  have "chunk_has (has_shape [IntCol]) ?r"
    using assms by (cases lo; cases hi) (simp_all add: chunk_has_def partTuple_def int_key_shape)
  from shaped.in_chunk_val [OF int_key_shape [OF assms(1)] this, of F] show ?thesis
    using assms by (cases lo; cases hi) (auto simp: partTuple_def int_key_val)
qed

lemmas in_int_chunk' =
  in_int_chunk [of k None None for k, simplified]
  in_int_chunk [of k "Some l" None for k l, simplified]
  in_int_chunk [of k None "Some h" for k h, simplified]
  in_int_chunk [of k "Some l" "Some h" for k l h, simplified]

lemma numeric_bound_int: "in_i64 x \<Longrightarrow> numeric_bound F (int_cell x) = Some x"
  using cell_int_int_cell [of x] by (simp add: numeric_bound_def int_cell_def AsInt64_def)

definition hits :: "'f float_ops \<Rightarrow> int \<Rightarrow> 'f chunk list \<Rightarrow> nat" where
  "hits F k rs = length (filter (in_chunk F [int_cell k]) rs)"

lemma numeric_from_hits:
  assumes "in_i64 k" "in_i64 maxI" "0 < step"
    and "in_i64 low" "maxI - low \<le> MaxInt64" "0 < m"
  shows "hits F k (numeric_from False m low step maxI) = (if low \<le> k then 1 else 0)"
  using assms(4-6)
proof (induction m arbitrary: low)
  case (Suc m)
  show ?case
  proof (cases "m = 0")
    case True
    with assms(1) Suc.prems show ?thesis
      by (simp add: hits_def in_int_chunk' partTuple_def)
  next
    case False
    have diff: "low < maxI \<Longrightarrow> i64 (maxI - low) = maxI - low"
      using Suc.prems by (intro i64_id) (simp add: in_i64_def MinInt64_def)
    show ?thesis
    proof (cases "low \<ge> maxI \<or> step > i64 (maxI - low)")
      case True
      then show ?thesis
        using False Suc.IH [of low] Suc.prems assms(1,2) by (auto simp: hits_def in_int_chunk')
    next
      case no: False
      then have le: "low + step \<le> maxI" using diff by auto
      then have in64: "in_i64 (low + step)" using assms Suc.prems by (simp add: in_i64_def)
      note low' = i64_id [OF in64]
      have "hits F k (numeric_from False m (low + step) step maxI) = (if low + step \<le> k then 1 else 0)"
        by (rule Suc.IH [OF in64]) (use False Suc.prems assms(3) in simp_all)
      then show ?thesis
        using no False assms(1,3) Suc.prems in64 by (auto simp: hits_def in_int_chunk' low')
    qed
  qed
qed simp

lemma numeric_step_small:
  assumes "in_i64 minI" "in_i64 maxI" "minI < maxI" "maxI - minI < MaxInt64" "2 \<le> n"
  shows "0 < numeric_step minI maxI n" "numeric_step minI maxI n \<le> maxI - minI"
proof -
  define span where "span = maxI - minI + 1"
  have span: "2 \<le> span" "in_i64 span" "in_i64 (maxI - minI)"
    using assms by (simp_all add: span_def in_i64_def MinInt64_def)
  have "span div int n \<le> span div 2"
    using span(1) assms(5) by (intro zdiv_mono2) simp_all
  then have half: "span div int n \<le> span - 1" using span(1) by linarith
  have nonneg: "0 \<le> span div int n" using span(1) assms(5) by (simp add: pos_imp_zdiv_nonneg_iff)
  have "in_i64 (span div int n)"
    using half nonneg span by (simp add: in_i64_def MinInt64_def)
  then have div: "go_div span (int n) = span div int n"
    using span(1) assms(5) by (simp add: go_div_def i64_id)
  have "numeric_step minI maxI n = (if span div int n < 1 then 1 else span div int n)"
    using span by (simp add: numeric_step_def Let_def i64_id span_def [symmetric] div)
  then show "0 < numeric_step minI maxI n" "numeric_step minI maxI n \<le> maxI - minI"
    using half nonneg assms(3) by (auto simp: span_def)
qed

lemma length_numeric_from [simp]: "length (numeric_from first m low step maxI) = m"
  by (induction m arbitrary: first low) (simp_all add: Let_def)

lemma numeric_from_first_hits:
  assumes "in_i64 k" "in_i64 minI" "in_i64 maxI" "minI < maxI" "maxI - minI < MaxInt64" "2 \<le> n"
  shows "hits F k (numeric_from True n minI (numeric_step minI maxI n) maxI) = 1"
proof -
  let ?step = "numeric_step minI maxI n"
  note step = numeric_step_small [OF assms(2-6)]
  obtain m where n: "n = Suc m" "0 < m" using assms(6) by (cases n) auto
  have d: "i64 (maxI - minI) = maxI - minI"
    using assms by (intro i64_id) (simp add: in_i64_def MinInt64_def)
  have in64: "in_i64 (minI + ?step)" using step assms by (simp add: in_i64_def)
  have "hits F k (numeric_from False m (minI + ?step) ?step maxI) = (if minI + ?step \<le> k then 1 else 0)"
    by (rule numeric_from_hits) (use assms step n in64 in simp_all)
  then show ?thesis
    using step assms(1,4) n in64 by (simp add: hits_def d i64_id in_int_chunk')
qed

lemma sorted_single: "sorted (map cell_val vs) \<Longrightarrow> sorted (map key_val (map (\<lambda>v. [v]) vs))"
  by (induction vs) (auto simp: key_val_def order_le_less)

section \<open>Properties\<close>

text \<open>
  C12: Over a table with a key of one column, clipping the chunks between ascending bounds to the
  partition ranges that \<open>rangesFromBoundaries\<close> makes of ascending boundaries never fails, and every
  key of the column's type at or above the first bound lies in exactly one chunk of exactly one
  partition, when bounds, boundaries and key hold values of that one column type.
\<close>

theorem snapshot_reads_each_key_once:
  assumes "has_shape [t] k" "list_all (has_shape [t]) (b # bs)" "list_all (of_col t) vs"
    and "sorted (map key_val (b # bs))" "sorted (map cell_val vs)" "key_val b \<le> key_val k"
  shows "\<exists>css. map (ClipChunksToRange F (Chunks (b # bs))) (rangesFromBoundaries vs) = map Some css
    \<and> length (filter (in_chunk F k) (concat css)) = 1"
proof -
  let ?ranges = "rangesFromBoundaries vs" and ?chunks = "Chunks (b # bs)"
  have vs: "\<forall>v \<in> set (map (\<lambda>v. [v]) vs). has_shape [t] v"
    using assms(3) by (auto simp: list_all_iff has_shape_def)
  have vals: "sorted (map key_val (map (\<lambda>v. [v]) vs))"
    using assms(5) by (rule sorted_single)
  have bs: "has_shape [t] b" "\<forall>b' \<in> set bs. has_shape [t] b'" using assms(2) by (simp_all add: list_all_iff)
  have "length (filter (in_chunk F k) ?ranges) = 1"
    unfolding rangesFromBoundaries_tiles
    by (rule shaped.tiles_hit) (use assms(1) vs vals in simp_all)
  moreover have "length (filter (in_chunk F k) ?chunks) = 1"
    unfolding Chunks_tiles
    by (rule shaped.tiles_hit) (use assms bs in simp_all)
  moreover have "\<forall>r \<in> set ?ranges. chunk_has (has_shape [t]) r"
    unfolding rangesFromBoundaries_tiles by (rule tiles_has) (use vs in simp_all)
  moreover have "\<forall>r \<in> set ?chunks. chunk_has (has_shape [t]) r"
    unfolding Chunks_tiles by (rule tiles_has) (use bs in simp_all)
  ultimately show ?thesis
    using shaped.clips_hits [of ?ranges "[t]" ?chunks k F] assms(1) by simp
qed

theorem snapshot_reads_each_key_once_witness:
  "\<exists>css. map (ClipChunksToRange whole_floats (Chunks [[CInt64 0], [CInt64 10], [CInt64 20]]))
      (rangesFromBoundaries [CInt64 5, CUint8 15]) = map Some css
    \<and> length (filter (in_chunk whole_floats [CInt32 12]) (concat css)) = 1"
  by (rule snapshot_reads_each_key_once [of IntCol])
     (simp_all add: has_shape_def key_val_def cell_val_def)

text \<open>
  \<open>Owner\<close> routes every key to the range that holds it: over ranges between ascending boundaries it
  never fails and never answers \<open>-1\<close>.
\<close>

theorem Owner_in_range:
  assumes "has_shape [t] k" "list_all (of_col t) vs" "sorted (map cell_val vs)"
  shows "\<exists>i. Owner F (rangesFromBoundaries vs) k = Some (int i) \<and> i < length (rangesFromBoundaries vs)
    \<and> in_chunk F k (rangesFromBoundaries vs ! i)"
  unfolding rangesFromBoundaries_tiles
proof (rule shaped.Owner_from_tiles)
  show "has_shape [t] k" by (rule assms(1))
  show "\<forall>b \<in> set (map (\<lambda>v. [v]) vs). has_shape [t] b"
    using assms(2) by (auto simp: list_all_iff has_shape_def)
  show "sorted (map key_val (map (\<lambda>v. [v]) vs))"
    using assms(3) by (rule sorted_single)
qed

theorem Owner_in_range_witness:
  "\<exists>i. Owner whole_floats (rangesFromBoundaries [CString ''g'', CString ''q'']) [CBytes ''kiwi''] = Some (int i)
    \<and> in_chunk whole_floats [CBytes ''kiwi''] (rangesFromBoundaries [CString ''g'', CString ''q''] ! i)"
  using Owner_in_range [of TextCol "[CBytes ''kiwi'']" "[CString ''g'', CString ''q'']" whole_floats]
  by (auto simp: has_shape_def cell_val_def)

text \<open>
  C29: When the sampled \<open>int64\<close> minimum lies strictly below the maximum, their distance stays below
  \<open>MaxInt64\<close> and \<open>n\<close> is at least two, \<open>partitionNumeric\<close> returns exactly \<open>n\<close> ranges, and every \<open>int64\<close>
  key, those outside the sampled minimum and maximum included, lies in exactly one of them.
\<close>

theorem partitionNumeric_covers:
  assumes "in_i64 minI" "in_i64 maxI" "minI < maxI" "maxI - minI < MaxInt64" "2 \<le> n" "in_i64 k"
  shows "\<exists>rs. partitionNumeric F (int_cell minI) (int_cell maxI) n = Some rs \<and> length rs = n
    \<and> length (filter (in_chunk F [int_cell k]) rs) = 1"
  using numeric_from_first_hits [OF assms(6,1-5), of F] assms
  by (simp add: partitionNumeric_def numeric_bound_int hits_def)

theorem partitionNumeric_covers_witness:
  "\<exists>rs. partitionNumeric whole_floats (int_cell 1) (int_cell 100) 7 = Some rs \<and> length rs = 7
    \<and> length (filter (in_chunk whole_floats [int_cell (- 3)]) rs) = 1"
  by (rule partitionNumeric_covers) (simp_all add: in_i64_def MinInt64_def MaxInt64_def)

text \<open>
  C32: Over a table whose keys are all one value \<open>m\<close>, \<open>partitionNumeric\<close> gives every partition but the
  last the empty range \<open>[m, m)\<close> and the last one \<open>[m, nil)\<close>: a key below \<open>m\<close> lies in no range.
\<close>

theorem partitionNumeric_single_value_gap:
  assumes "in_i64 m" "2 \<le> n" "in_i64 k" "k < m"
  shows "\<exists>rs. partitionNumeric F (int_cell m) (int_cell m) n = Some rs
    \<and> length (filter (in_chunk F [int_cell k]) rs) = 0"
proof -
  obtain n' where n: "n = Suc n'" "0 < n'" using assms(2) by (cases n) auto
  have "hits F k (numeric_from False j m s m) = 0" if "0 < j" for j s
    using that
  proof (induction j)
    case (Suc j)
    then show ?case
      using assms by (cases "j = 0") (simp_all add: hits_def in_int_chunk')
  qed simp
  then have "hits F k (numeric_from True n m s m) = 0" for s
    using n assms by (simp add: hits_def in_int_chunk')
  then show ?thesis using assms by (simp add: partitionNumeric_def numeric_bound_int hits_def)
qed

theorem partitionNumeric_single_value_gap_witness:
  "\<exists>rs. partitionNumeric whole_floats (int_cell 5) (int_cell 5) 2 = Some rs
    \<and> length (filter (in_chunk whole_floats [int_cell 3]) rs) = 0"
  by (rule partitionNumeric_single_value_gap) (simp_all add: in_i64_def MinInt64_def MaxInt64_def)

text \<open>A split whose room \<open>maxI-low\<close> has wrapped negative never advances.\<close>

lemma numeric_from_stuck:
  assumes "i64 (maxI - low) < s" "0 < m \<or> \<not> first"
  shows "(numeric_from first (Suc m) low s maxI :: 'f chunk list)
    = replicate m \<lparr>ck_Low = Some [int_cell maxI], ck_High = Some [int_cell maxI]\<rparr>
      @ [\<lparr>ck_Low = Some [int_cell low], ck_High = None\<rparr>]"
  using assms(2)
proof (induction m arbitrary: first)
  case (Suc m)
  from Suc.IH [of False] assms(1) show ?case
    by (subst numeric_from.simps(2)) (simp del: numeric_from.simps)
qed simp

lemma i64_wide:
  assumes "in_i64 minI" "in_i64 maxI" "MaxInt64 < maxI - minI"
  shows "i64 (maxI - minI) < 0"
proof -
  let ?x = "maxI - minI - 9223372036854775808"
  have x: "0 \<le> ?x" "?x < 9223372036854775808"
    using assms by (simp_all add: in_i64_def MinInt64_def MaxInt64_def)
  have "(maxI - minI + 9223372036854775808) mod 18446744073709551616 = (?x + 18446744073709551616) mod 18446744073709551616"
    by (simp add: algebra_simps)
  also have "\<dots> = ?x" using x by (simp only: mod_add_self2 mod_pos_pos_trivial)
  finally show ?thesis using x by (simp add: i64_def)
qed

text \<open>
  C33: When the sampled minimum and maximum lie further apart than \<open>MaxInt64\<close>, the split does not
  advance, for any number of partitions from two on: the remaining room \<open>maxI-low\<close> wraps to a
  negative number, so every partition but the last is the empty range at the maximum and the last
  one takes every key from the minimum on.
\<close>

theorem partitionNumeric_wide_domain_collapses:
  assumes "in_i64 minI" "in_i64 maxI" "MaxInt64 < maxI - minI" "2 \<le> n"
  shows "partitionNumeric F (int_cell minI) (int_cell maxI) n
     = Some (replicate (n - 1) \<lparr>ck_Low = Some [int_cell maxI], ck_High = Some [int_cell maxI]\<rparr>
             @ [\<lparr>ck_Low = Some [int_cell minI], ck_High = None\<rparr>])"
proof -
  obtain m where n: "n = Suc m" "0 < m" using assms(4) by (cases n) auto
  have "0 < numeric_step minI maxI n" by (simp add: numeric_step_def Let_def)
  with i64_wide [OF assms(1-3)] have "i64 (maxI - minI) < numeric_step minI maxI n" by linarith
  moreover have "\<not> maxI < minI" using assms(3) by (simp add: MaxInt64_def)
  ultimately show ?thesis
    using n by (simp add: partitionNumeric_def numeric_bound_int assms numeric_from_stuck del: numeric_from.simps)
qed

theorem partitionNumeric_wide_domain_collapses_witness:
  "partitionNumeric whole_floats (int_cell (- 1)) (int_cell MaxInt64) 3
     = Some [\<lparr>ck_Low = Some [int_cell MaxInt64], ck_High = Some [int_cell MaxInt64]\<rparr>,
             \<lparr>ck_Low = Some [int_cell MaxInt64], ck_High = Some [int_cell MaxInt64]\<rparr>,
             \<lparr>ck_Low = Some [int_cell (- 1)], ck_High = None\<rparr>]"
  using partitionNumeric_wide_domain_collapses [of "- 1" MaxInt64 3 whole_floats]
  by (simp add: in_i64_def MinInt64_def MaxInt64_def numeral_2_eq_2)

end
