(* ===== verification/Go_Json.thy ===== *)
theory Go_Json
  imports Go_Text
begin

text \<open>
  What the code uses of \<open>encoding/json\<close>: a document is held as the value a decoder reads back from
  the encoder's text. Encoding keeps everything but two things: a byte of a string that is not part
  of a valid UTF-8 sequence becomes U+FFFD, and a number that is not finite has no encoding.
\<close>

section \<open>UTF-8\<close>

definition byte_in :: "nat \<Rightarrow> nat \<Rightarrow> char \<Rightarrow> bool" where
  "byte_in lo hi c \<longleftrightarrow> lo \<le> of_char c \<and> of_char c \<le> hi"

text \<open>The length of the rune at the head of a string, 0 when its bytes are not valid UTF-8.\<close>

fun rune_len :: "string \<Rightarrow> nat" where
  "rune_len [] = 0"
| "rune_len (c # s) =
     (if byte_in 0 127 c then 1
      else if byte_in 194 223 c
        then (case s of d # _ \<Rightarrow> if byte_in 128 191 d then 2 else 0 | _ \<Rightarrow> 0)
      else if byte_in 224 239 c
        then (case s of d # e # _ \<Rightarrow>
                if byte_in (if of_char c = (224 :: nat) then 160 else 128)
                     (if of_char c = (237 :: nat) then 159 else 191) d
                   \<and> byte_in 128 191 e then 3 else 0
              | _ \<Rightarrow> 0)
      else if byte_in 240 244 c
        then (case s of d # e # f # _ \<Rightarrow>
                if byte_in (if of_char c = (240 :: nat) then 144 else 128)
                     (if of_char c = (244 :: nat) then 143 else 191) d
                   \<and> byte_in 128 191 e \<and> byte_in 128 191 f then 4 else 0
              | _ \<Rightarrow> 0)
      else 0)"

definition replacement :: string where
  "replacement = map char_of [239, 191, 189 :: nat]"

function json_text :: "string \<Rightarrow> string" where
  "json_text [] = []"
| "json_text (c # s) =
     (let n = rune_len (c # s)
      in if n = 0 then replacement @ json_text s
         else take n (c # s) @ json_text (drop n (c # s)))"
  by pat_completeness auto
termination by (relation "measure length") (auto simp del: rune_len.simps)

function valid_utf8 :: "string \<Rightarrow> bool" where
  "valid_utf8 [] = True"
| "valid_utf8 (c # s) \<longleftrightarrow> (let n = rune_len (c # s) in if n = 0 then False else valid_utf8 (drop n (c # s)))"
  by pat_completeness auto
termination by (relation "measure length") (auto simp del: rune_len.simps)

declare json_text.simps(2) [simp del] valid_utf8.simps(2) [simp del]

lemma json_text_valid: "valid_utf8 s \<Longrightarrow> json_text s = s"
proof (induction s rule: valid_utf8.induct)
  case (2 c s)
  then show ?case
    unfolding json_text.simps(2) valid_utf8.simps(2) Let_def by (simp del: rune_len.simps split: if_splits)
qed simp

definition ascii :: "string \<Rightarrow> bool" where
  "ascii s \<longleftrightarrow> list_all (byte_in 0 127) s"

lemma valid_utf8_ascii: "ascii s \<Longrightarrow> valid_utf8 s"
  by (induction s) (simp_all add: ascii_def valid_utf8.simps(2))

lemma ascii_fmt_nat: "2 \<le> base \<Longrightarrow> base \<le> 36 \<Longrightarrow> ascii (fmt_nat base n)"
proof -
  assume base: "2 \<le> base" "base \<le> 36"
  have "byte_in 0 127 c" if "c \<in> set (fmt_nat base n)" for c
  proof -
    from set_fmt_nat [OF base that] obtain d where "d < base" "c = digit_chr d" by blast
    with base of_char_digit_chr [of d] show ?thesis by (simp add: byte_in_def)
  qed
  then show ?thesis by (simp add: ascii_def list_all_iff)
qed

lemma json_text_FormatUint [simp]: "json_text (FormatUint n) = FormatUint n"
  by (intro json_text_valid valid_utf8_ascii) (simp add: FormatUint_def ascii_fmt_nat)

lemma json_text_FormatInt [simp]: "json_text (FormatInt i) = FormatInt i"
proof -
  have "ascii (fmt_nat 10 n)" for n by (simp add: ascii_fmt_nat)
  then show ?thesis
    by (intro json_text_valid valid_utf8_ascii) (auto simp: FormatInt_def ascii_def byte_in_def)
qed

section \<open>Documents\<close>

datatype 'f jval =
    JNull
  | JBool bool
  | JInt int
  | JNum 'f
  | JStr string
  | JArr "'f jval list"
  | JObj "(string \<times> 'f jval) list"

text \<open>\<open>json.Marshal\<close>, as the value of the document it writes; \<open>fin\<close> says which floats are finite.\<close>

fun marshal :: "('f \<Rightarrow> bool) \<Rightarrow> 'f jval \<Rightarrow> 'f jval option" where
  "marshal fin JNull = Some JNull"
| "marshal fin (JBool b) = Some (JBool b)"
| "marshal fin (JInt i) = Some (JInt i)"
| "marshal fin (JNum x) = (if fin x then Some (JNum x) else None)"
| "marshal fin (JStr s) = Some (JStr (json_text s))"
| "marshal fin (JArr vs) = map_option JArr (those (map (marshal fin) vs))"
| "marshal fin (JObj kvs) =
     map_option JObj (those (map (\<lambda>(k, v). map_option (Pair (json_text k)) (marshal fin v)) kvs))"

text \<open>A table property: plain text, or a JSON document. Plain text is not a JSON document.\<close>

datatype 'f pval = PText string | PDoc "'f jval"

type_synonym 'f props = "(string, 'f pval) gomap"

lemma those_map_Some: "those (map (\<lambda>x. Some (f x)) xs) = Some (map f xs)"
  by (induction xs) simp_all

lemma those_map_eq_Some:
  "(\<And>x. x \<in> set xs \<Longrightarrow> f x = Some (g x)) \<Longrightarrow> those (map f xs) = Some (map g xs)"
  by (induction xs) simp_all

lemma those_eq_Some_length: "those xs = Some ys \<Longrightarrow> length ys = length xs"
  by (induction xs arbitrary: ys) (auto split: option.splits)

end
