(* ===== verification/Snapshot_State.thy ===== *)
theory Snapshot_State
  imports Chunk_Ranges Go_Json
begin

text \<open>
  \<open>internal/snapshot/state.go\<close> and the prelude of \<open>driver.go\<close>: the snapshot progress kept in a
  table's properties. The text form of an instant is a parameter, \<open>time_ops\<close>. The lemmas show that
  progress survives the round trip through the properties, with every bound in the canonical type of
  its kind, as long as its strings are valid UTF-8; a byte key that is not changes on the way.
\<close>

section \<open>Progress\<close>

record time_ops =
  t_format :: "int \<Rightarrow> string"
  t_parse :: "string \<Rightarrow> int option"

definition StateNotStarted :: string where "StateNotStarted = ''not_started''"

definition StateInProgress :: string where "StateInProgress = ''in_progress''"

definition StateComplete :: string where "StateComplete = ''complete''"

definition PropSnapshotState :: string where "PropSnapshotState = ''cdc.snapshot.state''"

definition PropSnapshotBounds :: string where "PropSnapshotBounds = ''cdc.snapshot.bounds''"

definition PropSnapshotPending :: string where "PropSnapshotPending = ''cdc.snapshot.pending''"

definition PropSnapshotStarted :: string where "PropSnapshotStarted = ''cdc.snapshot.started''"

lemmas snapshot_names =
  StateNotStarted_def StateInProgress_def StateComplete_def
  PropSnapshotState_def PropSnapshotBounds_def PropSnapshotPending_def PropSnapshotStarted_def

record 'f progress =
  sp_State :: string
  sp_Bounds :: "'f pkey list"
  sp_Pending :: "u32 list"
  sp_Started :: string

datatype snap_err =
    UnknownState
  | ParseBounds
  | BoundUnsupported nat nat
  | ParsePending
  | NoWireEncoding
  | EncodeBounds

definition prop_at :: "'f props \<Rightarrow> string \<Rightarrow> 'f pval" where
  "prop_at props k = gm_at (PText []) props k"

definition Unfinished :: "'f props \<Rightarrow> bool" where
  "Unfinished props \<longleftrightarrow>
     (let s = prop_at props PropSnapshotState
      in s = PText StateNotStarted \<or> s = PText StateInProgress)"

section \<open>Bound cells\<close>

fun encodeBoundCell :: "time_ops \<Rightarrow> 'f cell \<Rightarrow> 'f jval option" where
  "encodeBoundCell T CNil = Some JNull"
| "encodeBoundCell T (CInt t) = Some (JObj [(''i'', JStr (FormatInt (sint t)))])"
| "encodeBoundCell T (CInt32 t) = Some (JObj [(''i'', JStr (FormatInt (sint t)))])"
| "encodeBoundCell T (CInt64 t) = Some (JObj [(''i'', JStr (FormatInt (sint t)))])"
| "encodeBoundCell T (CUint64 t) = Some (JObj [(''u'', JStr (FormatUint (unat t)))])"
| "encodeBoundCell T (CFloat64 t) = Some (JObj [(''f'', JNum t)])"
| "encodeBoundCell T (CString t) = Some (JObj [(''s'', JStr t)])"
| "encodeBoundCell T (CBytes t) = Some (JObj [(''s'', JStr t)])"
| "encodeBoundCell T (CBool t) = Some (JObj [(''b'', JBool t)])"
| "encodeBoundCell T (CTime t) = Some (JObj [(''t'', JStr (t_format T t))])"
| "encodeBoundCell T _ = None"

fun tag_str :: "'f jval option \<Rightarrow> string option" where
  "tag_str (Some (JStr s)) = Some s"
| "tag_str _ = None"

fun tag_num :: "'f jval option \<Rightarrow> 'f option" where
  "tag_num (Some (JNum f)) = Some f"
| "tag_num _ = None"

fun tag_bool :: "'f jval option \<Rightarrow> bool option" where
  "tag_bool (Some (JBool b)) = Some b"
| "tag_bool _ = None"

definition decode_tags :: "time_ops \<Rightarrow> (string \<rightharpoonup> 'f jval) \<Rightarrow> 'f cell option" where
  "decode_tags T m =
     (case tag_str (m ''i'') of
        Some s \<Rightarrow> map_option (\<lambda>n. CInt64 (word_of_int n)) (ParseInt 10 64 s)
      | None \<Rightarrow>
     (case tag_str (m ''u'') of
        Some s \<Rightarrow> map_option (\<lambda>n. CUint64 (word_of_nat n)) (ParseUint 10 64 s)
      | None \<Rightarrow>
     (case tag_num (m ''f'') of
        Some f \<Rightarrow> Some (CFloat64 f)
      | None \<Rightarrow>
     (case tag_str (m ''s'') of
        Some s \<Rightarrow> Some (CString s)
      | None \<Rightarrow>
     (case tag_bool (m ''b'') of
        Some b \<Rightarrow> Some (CBool b)
      | None \<Rightarrow>
     (case tag_str (m ''t'') of
        Some s \<Rightarrow> map_option CTime (t_parse T s)
      | None \<Rightarrow> None))))))"

fun decodeBoundCell :: "time_ops \<Rightarrow> 'f jval \<Rightarrow> 'f cell option" where
  "decodeBoundCell T JNull = Some CNil"
| "decodeBoundCell T (JObj m) = decode_tags T (map_of m)"
| "decodeBoundCell T _ = None"

section \<open>Reading\<close>

text \<open>\<open>json.Unmarshal\<close> into \<open>[][]any\<close> and into \<open>[]uint32\<close>; a null is the zero value.\<close>

fun as_row :: "'f jval \<Rightarrow> 'f jval list option" where
  "as_row (JArr cs) = Some cs"
| "as_row JNull = Some []"
| "as_row _ = None"

fun as_rows :: "'f jval \<Rightarrow> 'f jval list list option" where
  "as_rows (JArr rows) = those (map as_row rows)"
| "as_rows JNull = Some []"
| "as_rows _ = None"

fun as_u32 :: "'f jval \<Rightarrow> u32 option" where
  "as_u32 (JInt i) = (if 0 \<le> i \<and> i < 4294967296 then Some (word_of_int i) else None)"
| "as_u32 JNull = Some 0"
| "as_u32 _ = None"

fun as_u32s :: "'f jval \<Rightarrow> u32 list option" where
  "as_u32s (JArr vs) = those (map as_u32 vs)"
| "as_u32s JNull = Some []"
| "as_u32s _ = None"

fun decode_row :: "time_ops \<Rightarrow> nat \<Rightarrow> nat \<Rightarrow> 'f jval list \<Rightarrow> (snap_err, 'f cell list) res" where
  "decode_row T i j [] = Ok []"
| "decode_row T i j (c # cs) =
     (case decodeBoundCell T c of
        None \<Rightarrow> Err (BoundUnsupported i j)
      | Some v \<Rightarrow> res_bind (decode_row T i (Suc j) cs) (\<lambda>vs. Ok (v # vs)))"

fun decode_rows :: "time_ops \<Rightarrow> nat \<Rightarrow> 'f jval list list \<Rightarrow> (snap_err, 'f cell list list) res" where
  "decode_rows T i [] = Ok []"
| "decode_rows T i (b # bs) =
     res_bind (decode_row T i 0 b) (\<lambda>row. res_bind (decode_rows T (Suc i) bs) (\<lambda>rows. Ok (row # rows)))"

definition read_bounds :: "time_ops \<Rightarrow> 'f props \<Rightarrow> (snap_err, 'f pkey list) res" where
  "read_bounds T props =
     (case prop_at props PropSnapshotBounds of
        PText s \<Rightarrow> if s = [] then Ok [] else Err ParseBounds
      | PDoc d \<Rightarrow> (case as_rows d of None \<Rightarrow> Err ParseBounds | Some raw \<Rightarrow> decode_rows T 0 raw))"

definition read_pending :: "'f props \<Rightarrow> (snap_err, u32 list) res" where
  "read_pending props =
     (case prop_at props PropSnapshotPending of
        PText s \<Rightarrow> if s = [] then Ok [] else Err ParsePending
      | PDoc d \<Rightarrow> (case as_u32s d of None \<Rightarrow> Err ParsePending | Some pending \<Rightarrow> Ok pending))"

fun prop_text :: "'f pval \<Rightarrow> string" where
  "prop_text (PText s) = s"
| "prop_text (PDoc d) = ''{}''"

definition ReadSnapshotProgress :: "time_ops \<Rightarrow> 'f props \<Rightarrow> (snap_err, 'f progress) res" where
  "ReadSnapshotProgress T props =
     (let state = prop_text (prop_at props PropSnapshotState);
          sp = \<lparr>sp_State = StateComplete, sp_Bounds = [], sp_Pending = [], sp_Started = []\<rparr>
      in if state = [] \<or> state = StateComplete then Ok sp
         else if state \<noteq> StateNotStarted \<and> state \<noteq> StateInProgress then Err UnknownState
         else if state = StateNotStarted then Ok (sp\<lparr>sp_State := state\<rparr>)
         else res_bind (read_bounds T props) (\<lambda>bounds.
              res_bind (read_pending props) (\<lambda>pending.
                Ok \<lparr>sp_State = state, sp_Bounds = bounds, sp_Pending = pending,
                    sp_Started = prop_text (prop_at props PropSnapshotStarted)\<rparr>)))"

section \<open>Writing\<close>

definition encode_bounds :: "'f float_ops \<Rightarrow> time_ops \<Rightarrow> 'f pkey list \<Rightarrow> (snap_err, 'f jval) res" where
  "encode_bounds F T bounds =
     (case those (map (\<lambda>b. those (map (encodeBoundCell T) b)) bounds) of
        None \<Rightarrow> Err NoWireEncoding
      | Some tagged \<Rightarrow>
          (case marshal (f_finite F) (JArr (map JArr tagged)) of
             None \<Rightarrow> Err EncodeBounds
           | Some d \<Rightarrow> Ok d))"

definition pending_doc :: "u32 list \<Rightarrow> 'f jval" where
  "pending_doc pending = JArr (map (\<lambda>p. JInt (uint p)) pending)"

definition EncodeSnapshotProgress :: "'f float_ops \<Rightarrow> time_ops \<Rightarrow> 'f progress \<Rightarrow> (snap_err, 'f props) res" where
  "EncodeSnapshotProgress F T sp =
     (let props0 = gm_put PropSnapshotState (PText (sp_State sp)) []
      in if sp_State sp = StateComplete \<or> sp_State sp = StateNotStarted then Ok props0
         else res_bind
           (if sp_Bounds sp \<noteq> []
            then res_bind (encode_bounds F T (sp_Bounds sp)) (\<lambda>d. Ok (gm_put PropSnapshotBounds (PDoc d) props0))
            else Ok props0)
           (\<lambda>props1.
              let props2 = (if sp_Pending sp \<noteq> []
                            then gm_put PropSnapshotPending (PDoc (pending_doc (sp_Pending sp))) props1
                            else props1)
              in Ok (if sp_Started sp \<noteq> [] then gm_put PropSnapshotStarted (PText (sp_Started sp)) props2
                     else props2)))"

definition EncodePending :: "u32 list \<Rightarrow> 'f pval" where
  "EncodePending pending = (if pending = [] then PDoc (JArr []) else PDoc (pending_doc pending))"

definition RemoveFromPending :: "u32 list \<Rightarrow> u32 \<Rightarrow> u32 list" where
  "RemoveFromPending pending chunkID = sort (filter (\<lambda>i. i \<noteq> chunkID) pending)"

definition PendingIDs :: "u32 list \<Rightarrow> string" where
  "PendingIDs pending = ''['' @ join_with CHR '','' (map (\<lambda>i. FormatUint (unat i)) pending) @ '']''"

definition Resumable :: "'f progress option \<Rightarrow> bool" where
  "Resumable sp =
     (case sp of None \<Rightarrow> False | Some p \<Rightarrow> sp_State p = StateInProgress \<and> sp_Bounds p \<noteq> [])"

section \<open>The round trip\<close>

text \<open>The value a bound cell has after the round trip: the canonical type of its kind.\<close>

fun canon_cell :: "'f cell \<Rightarrow> 'f cell" where
  "canon_cell (CInt t) = CInt64 t"
| "canon_cell (CInt32 t) = CInt64 (scast t)"
| "canon_cell (CBytes t) = CString t"
| "canon_cell c = c"

text \<open>The cells with a faithful wire encoding.\<close>

fun wire_cell :: "'f float_ops \<Rightarrow> time_ops \<Rightarrow> 'f cell \<Rightarrow> bool" where
  "wire_cell F T (CString s) \<longleftrightarrow> valid_utf8 s"
| "wire_cell F T (CBytes s) \<longleftrightarrow> valid_utf8 s"
| "wire_cell F T (CFloat64 f) \<longleftrightarrow> f_finite F f"
| "wire_cell F T (CTime t) \<longleftrightarrow> valid_utf8 (t_format T t) \<and> t_parse T (t_format T t) = Some t"
| "wire_cell F T CNil = True"
| "wire_cell F T (CBool b) = True"
| "wire_cell F T (CInt t) = True"
| "wire_cell F T (CInt32 t) = True"
| "wire_cell F T (CInt64 t) = True"
| "wire_cell F T (CUint64 t) = True"
| "wire_cell F T _ = False"

lemma ParseInt_sint [simp]: "ParseInt 10 64 (FormatInt (sint (t :: 64 word))) = Some (sint t)"
  using sint_bounds64 [of t] by (intro ParseInt_FormatInt) simp_all

lemma ParseInt_sint32 [simp]: "ParseInt 10 64 (FormatInt (sint (t :: 32 word))) = Some (sint t)"
  using sint_ge [of t] sint_lt [of t] by (intro ParseInt_FormatInt) simp_all

lemma ParseUint_unat [simp]: "ParseUint 10 64 (FormatUint (unat (t :: u64))) = Some (unat t)"
  unfolding FormatUint_def by (rule ParseUint_fmt) (use unsigned_less [of t] in simp_all)

lemma scast_sint32: "word_of_int (sint (t :: 32 word)) = (scast t :: 64 word)"
  by (rule scast_eq [symmetric])

lemma json_text_tag: "byte_in 0 127 x \<Longrightarrow> json_text [x] = [x]"
  by (intro json_text_valid valid_utf8_ascii) (simp add: ascii_def)

lemma marshal_tag:
  "byte_in 0 127 x \<Longrightarrow> marshal fin (JObj [([x], v)]) = map_option (\<lambda>v'. JObj [([x], v')]) (marshal fin v)"
  by (cases "marshal fin v") (simp_all add: json_text_tag)

lemma decode_tag:
  "decodeBoundCell T (JObj [(''i'', JStr s)]) = map_option (\<lambda>n. CInt64 (word_of_int n)) (ParseInt 10 64 s)"
  "decodeBoundCell T (JObj [(''u'', JStr s)]) = map_option (\<lambda>n. CUint64 (word_of_nat n)) (ParseUint 10 64 s)"
  "decodeBoundCell T (JObj [(''f'', JNum f)]) = Some (CFloat64 f)"
  "decodeBoundCell T (JObj [(''s'', JStr s)]) = Some (CString s)"
  "decodeBoundCell T (JObj [(''b'', JBool b)]) = Some (CBool b)"
  "decodeBoundCell T (JObj [(''t'', JStr s)]) = map_option CTime (t_parse T s)"
  by (simp_all add: decode_tags_def)

definition wire_trip :: "'f float_ops \<Rightarrow> time_ops \<Rightarrow> 'f cell \<Rightarrow> 'f cell option" where
  "wire_trip F T c =
     (case encodeBoundCell T c of
        None \<Rightarrow> None
      | Some j \<Rightarrow> (case marshal (f_finite F) j of None \<Rightarrow> None | Some j' \<Rightarrow> decodeBoundCell T j'))"

lemma wire_trip_canon: "wire_cell F T c \<Longrightarrow> wire_trip F T c = Some (canon_cell c)"
  unfolding wire_trip_def
  by (cases c)
     (simp_all add: marshal_tag byte_in_def decode_tag json_text_valid scast_sint32
        del: marshal.simps(7) decodeBoundCell.simps(2))

lemma wire_trip_parts:
  assumes "wire_cell F T c"
  obtains j j' where "encodeBoundCell T c = Some j" "marshal (f_finite F) j = Some j'"
    "decodeBoundCell T j' = Some (canon_cell c)"
  using wire_trip_canon [OF assms] by (auto simp: wire_trip_def split: option.splits)

lemma row_trip:
  assumes "list_all (wire_cell F T) b"
  shows "\<exists>js js'. those (map (encodeBoundCell T) b) = Some js
    \<and> marshal (f_finite F) (JArr js) = Some (JArr js') \<and> (\<forall>i j. decode_row T i j js' = Ok (map canon_cell b))"
  using assms
proof (induction b)
  case (Cons c b)
  then obtain js js' where IH: "those (map (encodeBoundCell T) b) = Some js"
    "marshal (f_finite F) (JArr js) = Some (JArr js')" "\<And>i j. decode_row T i j js' = Ok (map canon_cell b)"
    by auto
  from Cons.prems have "wire_cell F T c" by simp
  then obtain j j' where "encodeBoundCell T c = Some j" "marshal (f_finite F) j = Some j'"
    "decodeBoundCell T j' = Some (canon_cell c)"
    by (rule wire_trip_parts)
  with IH show ?case by (intro exI [of _ "j # js"] exI [of _ "j' # js'"]) auto
qed simp

lemma rows_trip:
  assumes "list_all (list_all (wire_cell F T)) bounds"
  shows "\<exists>tagged rows. those (map (\<lambda>b. those (map (encodeBoundCell T) b)) bounds) = Some tagged
    \<and> marshal (f_finite F) (JArr (map JArr tagged)) = Some (JArr (map JArr rows))
    \<and> (\<forall>i. decode_rows T i rows = Ok (map (map canon_cell) bounds))"
  using assms
proof (induction bounds)
  case (Cons b bounds)
  then obtain tagged rows where IH:
    "those (map (\<lambda>b. those (map (encodeBoundCell T) b)) bounds) = Some tagged"
    "marshal (f_finite F) (JArr (map JArr tagged)) = Some (JArr (map JArr rows))"
    "\<And>i. decode_rows T i rows = Ok (map (map canon_cell) bounds)" by auto
  from Cons.prems have "list_all (wire_cell F T) b" by simp
  from row_trip [OF this] obtain js js' where
    "those (map (encodeBoundCell T) b) = Some js" "marshal (f_finite F) (JArr js) = Some (JArr js')"
    "\<And>i j. decode_row T i j js' = Ok (map canon_cell b)" by blast
  with IH show ?case by (intro exI [of _ "js # tagged"] exI [of _ "js' # rows"]) auto
qed simp

lemma as_rows_JArr: "as_rows (JArr (map JArr rows)) = Some rows"
  by (simp add: comp_def those_map_Some [where f = "\<lambda>x. x", simplified])

lemma as_u32s_pending: "as_u32s (pending_doc pending) = Some pending"
proof -
  have "as_u32 (JInt (uint p)) = Some p" for p
    using unsigned_less [of p, where ?'a = int] by simp
  then show ?thesis
    by (simp add: pending_doc_def comp_def those_map_Some [where f = "\<lambda>x. x", simplified])
qed

lemma prop_at_put: "prop_at (gm_put k v m) k' = (if k' = k then v else prop_at m k')"
  by (simp add: prop_at_def)

lemma prop_names_distinct:
  "PropSnapshotBounds \<noteq> PropSnapshotState" "PropSnapshotPending \<noteq> PropSnapshotState"
  "PropSnapshotStarted \<noteq> PropSnapshotState" "PropSnapshotPending \<noteq> PropSnapshotBounds"
  "PropSnapshotStarted \<noteq> PropSnapshotBounds" "PropSnapshotStarted \<noteq> PropSnapshotPending"
  by (simp_all add: snapshot_names)

lemma states_distinct:
  "StateInProgress \<noteq> []" "StateInProgress \<noteq> StateComplete" "StateInProgress \<noteq> StateNotStarted"
  "StateNotStarted \<noteq> []" "StateNotStarted \<noteq> StateComplete"
  by (simp_all add: snapshot_names)

lemma progress_trip:
  assumes st: "sp_State sp = StateInProgress" and wire: "list_all (list_all (wire_cell F T)) (sp_Bounds sp)"
  shows "\<exists>props. EncodeSnapshotProgress F T sp = Ok props
    \<and> ReadSnapshotProgress T props = Ok (sp\<lparr>sp_Bounds := map (map canon_cell) (sp_Bounds sp)\<rparr>)"
proof -
  obtain tagged rows where rows:
    "those (map (\<lambda>b. those (map (encodeBoundCell T) b)) (sp_Bounds sp)) = Some tagged"
    "marshal (f_finite F) (JArr (map JArr tagged)) = Some (JArr (map JArr rows))"
    "\<And>i. decode_rows T i rows = Ok (map (map canon_cell) (sp_Bounds sp))"
    using rows_trip [OF wire] by blast
  define bdoc where "bdoc = (JArr (map JArr rows) :: 'a jval)"
  have enc: "encode_bounds F T (sp_Bounds sp) = Ok bdoc"
    unfolding encode_bounds_def rows(1) option.case rows(2) bdoc_def ..
  have as_rows: "as_rows bdoc = Some rows" unfolding bdoc_def by (rule as_rows_JArr)
  define props where "props = (let
      p0 = gm_put PropSnapshotState (PText StateInProgress) [];
      p1 = (if sp_Bounds sp \<noteq> [] then gm_put PropSnapshotBounds (PDoc bdoc) p0 else p0);
      p2 = (if sp_Pending sp \<noteq> [] then gm_put PropSnapshotPending (PDoc (pending_doc (sp_Pending sp))) p1 else p1)
    in if sp_Started sp \<noteq> [] then gm_put PropSnapshotStarted (PText (sp_Started sp)) p2 else p2)"
  note ne = prop_names_distinct prop_names_distinct [symmetric] states_distinct
  have "EncodeSnapshotProgress F T sp = Ok props"
    by (simp add: EncodeSnapshotProgress_def st ne enc props_def Let_def)
  moreover have "prop_at props PropSnapshotState = PText StateInProgress"
    "prop_at props PropSnapshotBounds = (if sp_Bounds sp \<noteq> [] then PDoc bdoc else PText [])"
    "prop_at props PropSnapshotPending = (if sp_Pending sp \<noteq> [] then PDoc (pending_doc (sp_Pending sp)) else PText [])"
    "prop_at props PropSnapshotStarted = PText (sp_Started sp)"
    by (simp_all add: props_def Let_def prop_at_put ne) (simp_all add: prop_at_def)
  ultimately show ?thesis
    using st by (cases sp)
      (simp add: ReadSnapshotProgress_def ne read_bounds_def read_pending_def as_rows rows(3) as_u32s_pending)
qed

section \<open>Properties\<close>

text \<open>A concrete text form of instants, for evaluation.\<close>

definition nano_times :: time_ops where
  "nano_times = \<lparr>t_format = FormatInt, t_parse = ParseInt 10 64\<rparr>"

text \<open>
  C22: An in-progress snapshot's progress survives the round trip through the table properties: the
  pending chunks and the start time come back as they were, and every bound with the same value in
  the canonical type of its kind, when its strings are valid UTF-8, its floats finite and its
  instants printable.
\<close>

theorem snapshot_progress_roundtrip:
  assumes "sp_State sp = StateInProgress" "list_all (list_all (wire_cell F T)) (sp_Bounds sp)"
  shows "\<exists>props. EncodeSnapshotProgress F T sp = Ok props
    \<and> ReadSnapshotProgress T props = Ok (sp\<lparr>sp_Bounds := map (map canon_cell) (sp_Bounds sp)\<rparr>)"
  using assms by (rule progress_trip)

theorem snapshot_progress_roundtrip_witness:
  "\<exists>props. EncodeSnapshotProgress whole_floats nano_times
       \<lparr>sp_State = StateInProgress, sp_Bounds = [[CInt 7, CString ''eu''], [CUint64 9, CNil]],
        sp_Pending = [3, 4], sp_Started = ''2026''\<rparr> = Ok props
    \<and> ReadSnapshotProgress nano_times props
       = Ok \<lparr>sp_State = StateInProgress, sp_Bounds = [[CInt64 7, CString ''eu''], [CUint64 9, CNil]],
             sp_Pending = [3, 4], sp_Started = ''2026''\<rparr>"
  using snapshot_progress_roundtrip [where F = whole_floats and T = nano_times and
      sp = "\<lparr>sp_State = StateInProgress, sp_Bounds = [[CInt 7, CString ''eu''], [CUint64 9, CNil]],
             sp_Pending = [3, 4], sp_Started = ''2026''\<rparr>"]
  by (simp add: valid_utf8.simps(2) byte_in_def)

text \<open>
  C34: A byte-string bound that is not valid UTF-8 comes back as another key: the byte 255 is stored as
  U+FFFD, and the resumed snapshot reads a chunk from that bound.
\<close>

theorem binary_bound_replaced:
  fixes F :: "'f float_ops"
  shows "\<exists>props. EncodeSnapshotProgress F T
       \<lparr>sp_State = StateInProgress, sp_Bounds = [[CBytes [char_of (255 :: nat)]]], sp_Pending = [0], sp_Started = []\<rparr>
       = Ok props
    \<and> ReadSnapshotProgress T props
       = Ok \<lparr>sp_State = StateInProgress, sp_Bounds = [[CString replacement]], sp_Pending = [0], sp_Started = []\<rparr>"
proof -
  let ?b = "[char_of (255 :: nat)] :: string"
  have "json_text ?b = replacement" by (simp add: json_text.simps(2) byte_in_def)
  then have m: "marshal (f_finite F) (JArr [JArr [JObj [(''s'', JStr ?b)]]])
      = Some (JArr [JArr [JObj [(''s'', JStr replacement)]]])"
    by (simp add: marshal_tag byte_in_def del: marshal.simps(7))
  have enc: "encode_bounds F T [[CBytes ?b]] = Ok (JArr [JArr [JObj [(''s'', JStr replacement)]]])"
    by (simp add: encode_bounds_def m del: marshal.simps)
  have dec: "decode_rows T 0 [[JObj [(''s'', JStr replacement)]]] = Ok [[CString replacement :: 'f cell]]"
    by (simp add: decode_tag del: decodeBoundCell.simps(2))
  note ne = prop_names_distinct prop_names_distinct [symmetric] states_distinct
  show ?thesis
    using dec by (simp add: EncodeSnapshotProgress_def ne enc Let_def ReadSnapshotProgress_def prop_at_put
        read_bounds_def read_pending_def as_u32s_pending)
       (simp add: prop_at_def)
qed

end
