(* ===== verification/Snapshot_Plan.thy ===== *)
theory Snapshot_Plan
  imports Snapshot_State
begin

text \<open>
  \<open>internal/snapshot/chunkref.go\<close>, \<open>plan.go\<close>, \<open>fanout.go\<close> and \<open>running.go\<close>: the ids of a snapshot's
  chunks, the plan a snapshot follows, the passes of a fan-out and the snapshots in progress. The
  property store and the source's bounds are functions over a host state. The lemmas show that the
  chunk ids name every chunk, that the pending list written with a window holds exactly the later
  chunks, that an interrupted plan resumes where it was, and that a fan-out pass reads again exactly
  the chunks it dropped.
\<close>

section \<open>Chunk ids\<close>

datatype plan_err =
    PlanClip nat
  | PlanTooMany nat
  | PlanProperties
  | PlanBounds
  | PlanRecord

fun all_refs_from :: "'f float_ops \<Rightarrow> 'f chunk list \<Rightarrow> nat \<Rightarrow> 'f chunk list \<Rightarrow> (u32, bool) gomap \<Rightarrow>
                      (plan_err, (u32, bool) gomap) res" where
  "all_refs_from F all p [] todo = Ok todo"
| "all_refs_from F all p (r # rs) todo =
     (case ClipChunksToRange F all r of
        None \<Rightarrow> Err (PlanClip p)
      | Some clipped \<Rightarrow>
          if length clipped > 1048576 then Err (PlanTooMany p)
          else all_refs_from F all (Suc p) rs
                 (foldl (\<lambda>m i. gm_put (ChunkRef p i) True m) todo [0..<length clipped]))"

definition AllChunkRefs :: "'f float_ops \<Rightarrow> 'f chunk list \<Rightarrow> 'f chunk list \<Rightarrow> (plan_err, (u32, bool) gomap) res" where
  "AllChunkRefs F all ranges = all_refs_from F all 0 ranges []"

definition SortedRefs :: "(u32, bool) gomap \<Rightarrow> u32 list" where
  "SortedRefs todo = sort (map fst todo)"

definition PendingAfter :: "(u32, bool) gomap \<Rightarrow> nat \<Rightarrow> nat \<Rightarrow> u32 list" where
  "PendingAfter todo part idx =
     filter (\<lambda>i. let p = unat (drop_bit 20 i); j = unat (i AND mask 20)
                 in p > part \<or> (p = part \<and> j > idx)) (SortedRefs todo)"

section \<open>Layouts\<close>

text \<open>The verb \<open>%v\<close> on the ranges; \<open>sv\<close> prints floats, instants and values of other types.\<close>

definition bracket :: "string list \<Rightarrow> string" where
  "bracket xs = ''['' @ join_with CHR '' '' xs @ '']''"

fun fmt_cell :: "('f cell \<Rightarrow> string) \<Rightarrow> 'f cell \<Rightarrow> string" where
  "fmt_cell sv (CString s) = s"
| "fmt_cell sv (CBytes s) = bracket (map (\<lambda>c. FormatUint (of_char c)) s)"
| "fmt_cell sv (CBool b) = (if b then ''true'' else ''false'')"
| "fmt_cell sv CNil = ''<nil>''"
| "fmt_cell sv c = (case cell_int c of Some n \<Rightarrow> FormatInt n | None \<Rightarrow> sv c)"

definition fmt_key :: "('f cell \<Rightarrow> string) \<Rightarrow> 'f pkey option \<Rightarrow> string" where
  "fmt_key sv k = bracket (case k of None \<Rightarrow> [] | Some cs \<Rightarrow> map (fmt_cell sv) cs)"

definition PartitionLayout :: "('f cell \<Rightarrow> string) \<Rightarrow> 'f chunk list \<Rightarrow> string" where
  "PartitionLayout sv ranges =
     FormatUint (length ranges) @ '':'' @
     bracket (map (\<lambda>r. ''{'' @ fmt_key sv (ck_Low r) @ '' '' @ fmt_key sv (ck_High r) @ ''}'') ranges)"

definition PropSnapshotPartitions :: string where
  "PropSnapshotPartitions = ''cdc.snapshot.partitions''"

section \<open>Plans\<close>

record ('h, 'f) progress_store =
  ps_Properties :: "'h \<Rightarrow> 'h \<times> 'f props option"
  ps_SetProperties :: "'h \<Rightarrow> 'f props \<Rightarrow> 'h \<times> bool"

record 'f range_plan =
  rp_Chunks :: "'f chunk list"
  rp_Todo :: "(u32, bool) gomap"
  rp_Resumed :: bool

definition resumed_plan :: "'f float_ops \<Rightarrow> 'f progress \<Rightarrow> 'f chunk list \<Rightarrow> (plan_err, 'f range_plan) res" where
  "resumed_plan F sp ranges =
     (let all = Chunks (sp_Bounds sp);
          todo = foldl (\<lambda>m i. gm_put i True m) [] (sp_Pending sp)
      in if todo = []
         then res_bind (AllChunkRefs F all ranges) (\<lambda>t. Ok \<lparr>rp_Chunks = all, rp_Todo = t, rp_Resumed = True\<rparr>)
         else Ok \<lparr>rp_Chunks = all, rp_Todo = todo, rp_Resumed = True\<rparr>)"

definition record_plan ::
  "'f float_ops \<Rightarrow> time_ops \<Rightarrow> ('h, 'f) progress_store \<Rightarrow> string \<Rightarrow> 'f pkey list \<Rightarrow> (u32, bool) gomap \<Rightarrow>
   string \<Rightarrow> 'h \<Rightarrow> 'h \<times> bool" where
  "record_plan F T store layout bounds todo started h =
     (case EncodeSnapshotProgress F T \<lparr>sp_State = StateInProgress, sp_Bounds = bounds,
             sp_Pending = SortedRefs todo, sp_Started = started\<rparr> of
        Ok props \<Rightarrow> ps_SetProperties store h (gm_put PropSnapshotPartitions (PText layout) props)
      | _ \<Rightarrow> (h, False))"

definition fresh_plan ::
  "'f float_ops \<Rightarrow> time_ops \<Rightarrow> ('h, 'f) progress_store option \<Rightarrow> ('h \<Rightarrow> 'h \<times> 'f pkey list option) \<Rightarrow>
   'f chunk list \<Rightarrow> string \<Rightarrow> string \<Rightarrow> 'h \<Rightarrow> 'h \<times> (plan_err, 'f range_plan) res" where
  "fresh_plan F T store chunker ranges layout started h =
     (case chunker h of
        (h1, None) \<Rightarrow> (h1, Err PlanBounds)
      | (h1, Some bounds) \<Rightarrow>
          (case AllChunkRefs F (Chunks bounds) ranges of
             Err e \<Rightarrow> (h1, Err e)
           | Panic \<Rightarrow> (h1, Panic)
           | Ok todo \<Rightarrow>
               (let plan = \<lparr>rp_Chunks = Chunks bounds, rp_Todo = todo, rp_Resumed = False\<rparr>
                in case store of
                     None \<Rightarrow> (h1, Ok plan)
                   | Some st \<Rightarrow>
                       (case record_plan F T st layout bounds todo started h1 of
                          (h2, False) \<Rightarrow> (h2, Err PlanRecord)
                        | (h2, True) \<Rightarrow> (h2, Ok plan)))))"

definition PlanRange ::
  "'f float_ops \<Rightarrow> time_ops \<Rightarrow> ('f cell \<Rightarrow> string) \<Rightarrow> ('h, 'f) progress_store option \<Rightarrow>
   ('h \<Rightarrow> 'h \<times> 'f pkey list option) \<Rightarrow> 'f chunk list \<Rightarrow> string \<Rightarrow> 'h \<Rightarrow> 'h \<times> (plan_err, 'f range_plan) res" where
  "PlanRange F T sv store chunker ranges started h =
     (let layout = PartitionLayout sv ranges
      in case store of
           None \<Rightarrow> fresh_plan F T store chunker ranges layout started h
         | Some st \<Rightarrow>
             (case ps_Properties st h of
                (h1, None) \<Rightarrow> (h1, Err PlanProperties)
              | (h1, Some props) \<Rightarrow>
                  (case ReadSnapshotProgress T props of
                     Ok sp \<Rightarrow>
                       if Resumable (Some sp) \<and> prop_at props PropSnapshotPartitions = PText layout
                       then (h1, resumed_plan F sp ranges)
                       else fresh_plan F T store chunker ranges layout started h1
                   | _ \<Rightarrow> fresh_plan F T store chunker ranges layout started h1)))"

definition FanoutProgress :: "time_ops \<Rightarrow> 'f props \<Rightarrow> 'f progress option" where
  "FanoutProgress T props =
     (if prop_at props PropSnapshotPartitions \<noteq> PText [] then None
      else case ReadSnapshotProgress T props of
             Ok sp \<Rightarrow> if Resumable (Some sp) then Some sp else None
           | _ \<Rightarrow> None)"

section \<open>Fan-out passes\<close>

record fanout_pass =
  fp_chunks :: "(u64, u32) gomap"
  fp_lost :: bool
  fp_from :: u32

type_synonym fanout_passes = "(string, fanout_pass) gomap"

definition fp_Begin :: "fanout_passes \<Rightarrow> string \<Rightarrow> fanout_passes" where
  "fp_Begin f target = gm_put target \<lparr>fp_chunks = [], fp_lost = False, fp_from = 0\<rparr> f"

definition fp_End :: "fanout_passes \<Rightarrow> string \<Rightarrow> fanout_passes" where
  "fp_End f target = gm_del target f"

definition fp_Note :: "fanout_passes \<Rightarrow> string \<Rightarrow> u64 \<Rightarrow> u32 \<Rightarrow> fanout_passes" where
  "fp_Note f target sq chunk =
     (case map_of f target of
        None \<Rightarrow> f
      | Some p \<Rightarrow> gm_put target (p\<lparr>fp_chunks := gm_put sq chunk (fp_chunks p)\<rparr>) f)"

definition fp_Resolve :: "fanout_passes \<Rightarrow> string \<Rightarrow> u64 \<Rightarrow> bool \<Rightarrow> fanout_passes \<times> bool" where
  "fp_Resolve f target sq lost =
     (case map_of f target of
        None \<Rightarrow> (f, False)
      | Some p \<Rightarrow>
          (case map_of (fp_chunks p) sq of
             None \<Rightarrow> (f, False)
           | Some chunk \<Rightarrow>
               (let p1 = p\<lparr>fp_chunks := gm_del sq (fp_chunks p)\<rparr>;
                    p2 = (if lost \<and> \<not> fp_lost p1 then p1\<lparr>fp_lost := True, fp_from := chunk\<rparr> else p1)
                in (gm_put target p2 f, fp_lost p2))))"

definition fp_Drained :: "fanout_passes \<Rightarrow> string \<Rightarrow> fanout_passes \<times> bool \<times> u32 \<times> bool" where
  "fp_Drained f target =
     (case map_of f target of
        None \<Rightarrow> (f, True, 0, False)
      | Some p \<Rightarrow>
          if length (fp_chunks p) > 0 then (f, False, 0, False)
          else (gm_put target (p\<lparr>fp_from := 0, fp_lost := False\<rparr>) f, True, fp_from p, fp_lost p))"

fun PendingFrom :: "u32 list \<Rightarrow> u32 \<Rightarrow> u32 list" where
  "PendingFrom [] chunk = []"
| "PendingFrom (i # plan) chunk = (if i = chunk then i # plan else PendingFrom plan chunk)"

section \<open>Snapshots in progress\<close>

record running =
  rn_tables :: "(string, bool) gomap"
  rn_todo :: "(string, (u32, bool) gomap) gomap"

definition rn_Begin :: "running \<Rightarrow> string \<Rightarrow> running" where
  "rn_Begin r target = r\<lparr>rn_tables := gm_put target True (rn_tables r)\<rparr>"

definition rn_End :: "running \<Rightarrow> string \<Rightarrow> running" where
  "rn_End r target = r\<lparr>rn_tables := gm_del target (rn_tables r)\<rparr>"

definition rn_Is :: "running \<Rightarrow> string \<Rightarrow> bool" where
  "rn_Is r target = gm_at False (rn_tables r) target"

definition SetTodo :: "running \<Rightarrow> string \<Rightarrow> (u32, bool) gomap option \<Rightarrow> running" where
  "SetTodo r target todo =
     (case todo of
        None \<Rightarrow> r\<lparr>rn_todo := gm_del target (rn_todo r)\<rparr>
      | Some t \<Rightarrow> r\<lparr>rn_todo := gm_put target t (rn_todo r)\<rparr>)"

definition Todo :: "running \<Rightarrow> string \<Rightarrow> (u32, bool) gomap option" where
  "Todo r target = map_of (rn_todo r) target"

section \<open>Chunk ids name every chunk\<close>

lemma foldl_put_True:
  "map_of (foldl (\<lambda>m i. gm_put (f i) True m) m xs) = (\<lambda>k. if k \<in> f ` set xs then Some True else map_of m k)"
  by (induction xs arbitrary: m) (auto simp: fun_eq_iff)

lemma gm_wf_foldl_put: "gm_wf m \<Longrightarrow> gm_wf (foldl (\<lambda>m i. gm_put (f i) True m) m xs)"
  by (induction xs arbitrary: m) auto

lemma all_refs_keys:
  assumes "all_refs_from F all p rs m = Ok todo"
  shows "dom (map_of todo) = dom (map_of m) \<union>
    {ChunkRef (p + q) i |q i cs. q < length rs \<and> ClipChunksToRange F all (rs ! q) = Some cs \<and> i < length cs}"
  using assms
proof (induction rs arbitrary: p m)
  case (Cons r rs)
  from Cons.prems obtain cs where cs: "ClipChunksToRange F all r = Some cs"
    and rec: "all_refs_from F all (Suc p) rs (foldl (\<lambda>m i. gm_put (ChunkRef p i) True m) m [0..<length cs]) = Ok todo"
    by (auto split: option.splits if_splits)
  have head: "dom (map_of (foldl (\<lambda>m i. gm_put (ChunkRef p i) True m) m [0..<length cs]))
      = dom (map_of m) \<union> {ChunkRef p i |i. i < length cs}"
    unfolding foldl_put_True by (auto split: if_splits) blast
  have split: "{ChunkRef (p + q) i |q i cs. q < length (r # rs)
        \<and> ClipChunksToRange F all ((r # rs) ! q) = Some cs \<and> i < length cs}
      = {ChunkRef p i |i. i < length cs}
        \<union> {ChunkRef (Suc p + q) i |q i cs. q < length rs
        \<and> ClipChunksToRange F all (rs ! q) = Some cs \<and> i < length cs}" (is "?A = ?B \<union> ?C")
  proof
    show "?A \<subseteq> ?B \<union> ?C"
    proof
      fix x assume "x \<in> ?A"
      then obtain q i cs' where x: "x = ChunkRef (p + q) i" "q < length (r # rs)"
        "ClipChunksToRange F all ((r # rs) ! q) = Some cs'" "i < length cs'" by blast
      show "x \<in> ?B \<union> ?C" using x cs by (cases q) auto
    qed
    show "?B \<union> ?C \<subseteq> ?A"
    proof
      fix x assume "x \<in> ?B \<union> ?C"
      then show "x \<in> ?A"
      proof
        assume "x \<in> ?B"
        then obtain i where "x = ChunkRef (p + 0) i" "i < length cs" by auto
        then show ?thesis using cs by (intro CollectI exI [of _ 0] exI [of _ i] exI [of _ cs]) simp
      next
        assume "x \<in> ?C"
        then obtain q i cs' where "x = ChunkRef (Suc p + q) i" "q < length rs"
          "ClipChunksToRange F all (rs ! q) = Some cs'" "i < length cs'" by blast
        then show ?thesis by (intro CollectI exI [of _ "Suc q"] exI [of _ i] exI [of _ cs']) simp
      qed
    qed
  qed
  show ?case unfolding split Cons.IH [OF rec] head by blast
qed auto

lemma all_refs_wf: "all_refs_from F all p rs m = Ok todo \<Longrightarrow> gm_wf m \<Longrightarrow> gm_wf todo"
  by (induction rs arbitrary: p m) (auto split: option.splits if_splits intro: gm_wf_foldl_put)

lemma all_refs_small:
  assumes "all_refs_from F all p rs m = Ok todo" "q < length rs" "ClipChunksToRange F all (rs ! q) = Some cs"
  shows "length cs \<le> 1048576"
  using assms
proof (induction rs arbitrary: p m q)
  case (Cons r rs)
  then show ?case by (cases q) (auto split: option.splits if_splits)
qed simp

section \<open>What is still pending\<close>

lemma word_split20: "unat (i :: u32) = unat (drop_bit 20 i) * 2 ^ 20 + unat (i AND mask 20)"
proof -
  have "unat (i AND mask 20) = unat i mod 2 ^ 20"
    unfolding take_bit_eq_mask [symmetric] unsigned_take_bit_eq take_bit_nat_def ..
  moreover have "unat (drop_bit 20 i) = unat i div 2 ^ 20"
    unfolding unat_drop_bit_eq drop_bit_nat_def ..
  ultimately show ?thesis by (simp only: div_mult_mod_eq)
qed

lemma later_ref:
  assumes "part < 2 ^ 12" "idx < 2 ^ 20"
  shows "unat (drop_bit 20 i) > part \<or> (unat (drop_bit 20 i) = part \<and> unat (i AND mask 20) > idx)
     \<longleftrightarrow> ChunkRef part idx < i"
proof -
  have low: "unat (i AND mask 20) < 2 ^ 20"
    unfolding take_bit_eq_mask [symmetric] unsigned_take_bit_eq by (rule take_bit_nat_less_exp)
  show ?thesis
    unfolding word_less_nat_alt unat_ChunkRef [OF assms(2,1)] word_split20 [of i]
    using assms low by (cases "unat (drop_bit 20 i)" part rule: linorder_cases) auto
qed

lemma PendingAfter_greater:
  assumes "part < 2 ^ 12" "idx < 2 ^ 20"
  shows "PendingAfter todo part idx = filter (\<lambda>i. ChunkRef part idx < i) (SortedRefs todo)"
  unfolding PendingAfter_def Let_def later_ref [OF assms] ..

section \<open>Resuming a plan\<close>

lemma foldl_put_id_keys: "dom (map_of (foldl (\<lambda>m i. gm_put i True m) [] xs)) = set xs"
  using foldl_put_True [of "\<lambda>x. x" "[]" xs] by (auto split: if_splits)

lemma PropSnapshotPartitions_new:
  "PropSnapshotPartitions \<noteq> PropSnapshotState" "PropSnapshotPartitions \<noteq> PropSnapshotBounds"
  "PropSnapshotPartitions \<noteq> PropSnapshotPending" "PropSnapshotPartitions \<noteq> PropSnapshotStarted"
  by (simp_all add: PropSnapshotPartitions_def snapshot_names)

lemma Read_put_layout:
  "ReadSnapshotProgress T (gm_put PropSnapshotPartitions v props) = ReadSnapshotProgress T props"
  by (simp add: ReadSnapshotProgress_def read_bounds_def read_pending_def prop_at_put
      PropSnapshotPartitions_new [symmetric] Let_def)

section \<open>Fan-out passes\<close>

text \<open>
  A pass over \<open>plan\<close>: its windows are queued in the plan's order under the cycle numbers \<open>seqs\<close>, and
  complete in the order they were queued, each lost by an owner or not. \<open>n\<close> windows are queued, \<open>r\<close>
  resolved, \<open>ds\<close> is what the resolved ones were told.
\<close>

type_synonym pass_state = "nat \<times> nat \<times> fanout_passes \<times> bool list"

inductive pass_step :: "string \<Rightarrow> u32 list \<Rightarrow> u64 list \<Rightarrow> bool list \<Rightarrow> pass_state \<Rightarrow> pass_state \<Rightarrow> bool"
  for target plan seqs losts where
  queue: "n < length plan \<Longrightarrow>
     pass_step target plan seqs losts (n, r, f, ds) (Suc n, r, fp_Note f target (seqs ! n) (plan ! n), ds)"
| resolve: "r < n \<Longrightarrow> fp_Resolve f target (seqs ! r) (losts ! r) = (f', d) \<Longrightarrow>
     pass_step target plan seqs losts (n, r, f, ds) (n, Suc r, f', ds @ [d])"

definition pass_inv :: "string \<Rightarrow> u32 list \<Rightarrow> u64 list \<Rightarrow> bool list \<Rightarrow> pass_state \<Rightarrow> bool" where
  "pass_inv target plan seqs losts s =
     (case s of (n, r, f, ds) \<Rightarrow> r \<le> n \<and> n \<le> length plan \<and>
        ds = map (\<lambda>i. \<exists>j\<le>i. losts ! j) [0..<r] \<and>
        (\<exists>p. map_of f target = Some p \<and> gm_wf (fp_chunks p) \<and>
           (\<forall>i. r \<le> i \<longrightarrow> i < n \<longrightarrow> map_of (fp_chunks p) (seqs ! i) = Some (plan ! i)) \<and>
           dom (map_of (fp_chunks p)) \<subseteq> {seqs ! i |i. r \<le> i \<and> i < n} \<and>
           (case first_at (\<lambda>b. b) (take r losts) of
              None \<Rightarrow> \<not> fp_lost p
            | Some i \<Rightarrow> fp_lost p \<and> fp_from p = plan ! i)))"

lemma first_at_append:
  "first_at P (xs @ ys) = (case first_at P xs of Some i \<Rightarrow> Some i | None \<Rightarrow> map_option (\<lambda>i. length xs + i) (first_at P ys))"
proof (induction xs)
  case (Cons x xs)
  then show ?case by (cases "first_at P xs"; cases "first_at P ys") simp_all
qed (cases "first_at P ys"; simp)

lemma first_at_take_Suc:
  "r < length xs \<Longrightarrow> first_at P (take (Suc r) xs) =
     (case first_at P (take r xs) of Some i \<Rightarrow> Some i | None \<Rightarrow> if P (xs ! r) then Some r else None)"
  by (simp add: take_Suc_conv_app_nth first_at_append split: option.split)

lemma first_at_take_lost: "r \<le> length xs \<Longrightarrow> (\<exists>j<r. xs ! j) \<longleftrightarrow> first_at (\<lambda>b. b) (take r xs) \<noteq> None"
  by (simp add: first_at_None in_set_conv_nth Bex_def) (metis min.absorb2 nth_take)

lemma pass_inv_queue:
  assumes "pass_inv target plan seqs losts (n, r, f, ds)" "n < length plan" "distinct seqs" "length seqs = length plan"
  shows "pass_inv target plan seqs losts (Suc n, r, fp_Note f target (seqs ! n) (plan ! n), ds)"
proof -
  obtain p where p: "map_of f target = Some p" "gm_wf (fp_chunks p)"
    "\<And>i. r \<le> i \<Longrightarrow> i < n \<Longrightarrow> map_of (fp_chunks p) (seqs ! i) = Some (plan ! i)"
    "dom (map_of (fp_chunks p)) \<subseteq> {seqs ! i |i. r \<le> i \<and> i < n}"
    "case first_at (\<lambda>b. b) (take r losts) of None \<Rightarrow> \<not> fp_lost p | Some i \<Rightarrow> fp_lost p \<and> fp_from p = plan ! i"
    and le: "r \<le> n" "ds = map (\<lambda>i. \<exists>j\<le>i. losts ! j) [0..<r]"
    using assms(1) by (auto simp: pass_inv_def)
  let ?p = "p\<lparr>fp_chunks := gm_put (seqs ! n) (plan ! n) (fp_chunks p)\<rparr>"
  have "map_of (fp_chunks ?p) (seqs ! i) = Some (plan ! i)" if "r \<le> i" "i < Suc n" for i
    using that p(3) [of i] assms(2-4) by (auto simp: less_Suc_eq nth_eq_iff_index_eq)
  moreover have "dom (map_of (fp_chunks ?p)) \<subseteq> {seqs ! i |i. r \<le> i \<and> i < Suc n}"
    using p(4) le(1) by (auto simp: less_Suc_eq)
  ultimately show ?thesis
    using p(1,2,5) le assms(2) by (simp add: pass_inv_def fp_Note_def split: option.splits)
qed

lemma pass_inv_resolve:
  assumes inv: "pass_inv target plan seqs losts (n, r, f, ds)" and rn: "r < n"
    and res: "fp_Resolve f target (seqs ! r) (losts ! r) = (f', d)"
    and seqs: "distinct seqs" "length seqs = length plan" "length losts = length plan"
  shows "pass_inv target plan seqs losts (n, Suc r, f', ds @ [d])"
proof -
  obtain p where p: "map_of f target = Some p" "gm_wf (fp_chunks p)"
    "\<And>i. r \<le> i \<Longrightarrow> i < n \<Longrightarrow> map_of (fp_chunks p) (seqs ! i) = Some (plan ! i)"
    "dom (map_of (fp_chunks p)) \<subseteq> {seqs ! i |i. r \<le> i \<and> i < n}"
    "case first_at (\<lambda>b. b) (take r losts) of None \<Rightarrow> \<not> fp_lost p | Some i \<Rightarrow> fp_lost p \<and> fp_from p = plan ! i"
    and le: "n \<le> length plan" "ds = map (\<lambda>i. \<exists>j\<le>i. losts ! j) [0..<r]"
    using inv by (auto simp: pass_inv_def)
  define p1 where "p1 = p\<lparr>fp_chunks := gm_del (seqs ! r) (fp_chunks p)\<rparr>"
  define p2 where "p2 = (if losts ! r \<and> \<not> fp_lost p then p1\<lparr>fp_lost := True, fp_from := plan ! r\<rparr> else p1)"
  have f': "f' = gm_put target p2 f" "d = fp_lost p2"
    using res p(1) p(3) [of r] rn by (auto simp: fp_Resolve_def Let_def p2_def p1_def split: if_splits)
  have chunks: "fp_chunks p2 = gm_del (seqs ! r) (fp_chunks p)" by (simp add: p2_def p1_def)
  have r: "r < length losts" using rn le seqs by simp
  have lost: "fp_lost p2 \<longleftrightarrow> (\<exists>j\<le>r. losts ! j)"
    using p(5) first_at_take_lost [of r losts] r
    by (auto simp: p2_def p1_def le_less split: option.splits)
  have "map_of (fp_chunks p2) (seqs ! i) = Some (plan ! i)" if "Suc r \<le> i" "i < n" for i
    using that p(3) [of i] seqs le by (simp add: chunks nth_eq_iff_index_eq)
  moreover have "dom (map_of (fp_chunks p2)) \<subseteq> {seqs ! i |i. Suc r \<le> i \<and> i < n}"
  proof
    fix sq assume "sq \<in> dom (map_of (fp_chunks p2))"
    then have "sq \<in> dom (map_of (fp_chunks p))" "sq \<noteq> seqs ! r" by (auto simp: chunks split: if_splits)
    with p(4) obtain i where "sq = seqs ! i" "r \<le> i" "i < n" by blast
    with \<open>sq \<noteq> seqs ! r\<close> have "sq = seqs ! i \<and> Suc r \<le> i \<and> i < n" by (cases "i = r") auto
    then show "sq \<in> {seqs ! i |i. Suc r \<le> i \<and> i < n}" by blast
  qed
  moreover have "case first_at (\<lambda>b. b) (take (Suc r) losts) of None \<Rightarrow> \<not> fp_lost p2
      | Some i \<Rightarrow> fp_lost p2 \<and> fp_from p2 = plan ! i"
    using p(5) r by (auto simp: first_at_take_Suc p2_def p1_def split: option.splits)
  ultimately show ?thesis
    using p(2) le rn lost by (simp add: pass_inv_def f' chunks)
qed

lemma pass_inv_steps:
  assumes "rtranclp (pass_step target plan seqs losts) s s'" "pass_inv target plan seqs losts s"
    and "distinct seqs" "length seqs = length plan" "length losts = length plan"
  shows "pass_inv target plan seqs losts s'"
  using assms(1,2)
proof induction
  case (step s1 s2)
  from step.hyps(2) show ?case
    by cases (use step pass_inv_queue pass_inv_resolve assms(3-5) in blast)+
qed

lemma pass_inv_start: "pass_inv target plan seqs losts (0, 0, fp_Begin f target, [])"
  by (simp add: pass_inv_def fp_Begin_def)

lemma PendingFrom_drop: "distinct plan \<Longrightarrow> i < length plan \<Longrightarrow> PendingFrom plan (plan ! i) = drop i plan"
proof (induction plan arbitrary: i)
  case (Cons x plan)
  then show ?case by (cases i) auto
qed simp

lemma pass_can_queue:
  "n \<le> length plan \<Longrightarrow> \<exists>f'. rtranclp (pass_step target plan seqs losts) (0, 0, f, []) (n, 0, f', [])"
proof (induction n)
  case (Suc n)
  then obtain f' where "rtranclp (pass_step target plan seqs losts) (0, 0, f, []) (n, 0, f', [])" by auto
  then show ?case using pass_step.queue [of n plan target seqs losts 0 f' "[]"] Suc.prems
    by (meson Suc_le_lessD rtranclp.rtrancl_into_rtrancl)
qed blast

lemma pass_can_resolve:
  "r \<le> n \<Longrightarrow> \<exists>f' ds. rtranclp (pass_step target plan seqs losts) (n, 0, f, []) (n, r, f', ds)"
proof (induction r)
  case (Suc r)
  then obtain f' ds where "rtranclp (pass_step target plan seqs losts) (n, 0, f, []) (n, r, f', ds)" by auto
  moreover obtain f'' d where "fp_Resolve f' target (seqs ! r) (losts ! r) = (f'', d)" by fastforce
  ultimately show ?case using pass_step.resolve [of r n f' target seqs losts f'' d plan ds] Suc.prems
    by (meson Suc_le_lessD rtranclp.rtrancl_into_rtrancl)
qed blast

lemma pass_can_finish:
  "\<exists>f' ds. rtranclp (pass_step target plan seqs losts) (0, 0, f, []) (length plan, length plan, f', ds)"
  using pass_can_queue [of "length plan" plan target seqs losts f] pass_can_resolve [of "length plan" "length plan" target plan seqs losts]
  by (meson order_refl rtranclp_trans)

lemma filter_zip_from: "map fst (filter snd (zip xs (map (\<lambda>k. i \<le> k) [0..<length xs]))) = drop i xs"
  by (induction xs rule: rev_induct) auto

section \<open>Properties\<close>

text \<open>
  A successful \<open>AllChunkRefs\<close> lists an id for exactly the chunks of the partitions, and with at
  most 4096 partitions no two chunks share one.
\<close>

theorem AllChunkRefs_names_every_chunk:
  assumes "AllChunkRefs F all ranges = Ok todo" "length ranges \<le> 4096"
  shows "set (SortedRefs todo) = {ChunkRef p i |p i cs. p < length ranges
      \<and> ClipChunksToRange F all (ranges ! p) = Some cs \<and> i < length cs}
    \<and> (\<forall>p i cs q j cs'. p < length ranges \<longrightarrow> q < length ranges
      \<longrightarrow> ClipChunksToRange F all (ranges ! p) = Some cs \<longrightarrow> i < length cs
      \<longrightarrow> ClipChunksToRange F all (ranges ! q) = Some cs' \<longrightarrow> j < length cs'
      \<longrightarrow> ChunkRef p i = ChunkRef q j \<longrightarrow> p = q \<and> i = j)"
proof (intro conjI allI impI)
  have "set (SortedRefs todo) = dom (map_of todo)"
    by (simp add: SortedRefs_def dom_map_of_conv_image_fst)
  then show "set (SortedRefs todo) = {ChunkRef p i |p i cs. p < length ranges
      \<and> ClipChunksToRange F all (ranges ! p) = Some cs \<and> i < length cs}"
    using all_refs_keys [OF assms(1) [unfolded AllChunkRefs_def]] by simp
next
  fix p i cs q j cs'
  assume pq: "p < length ranges" "q < length ranges" and cs: "ClipChunksToRange F all (ranges ! p) = Some cs" "i < length cs"
    and cs': "ClipChunksToRange F all (ranges ! q) = Some cs'" "j < length cs'" and eq: "ChunkRef p i = ChunkRef q j"
  note small = all_refs_small [OF assms(1) [unfolded AllChunkRefs_def]]
  have i: "i < 2 ^ 20" "p < 2 ^ 12" using small [OF pq(1) cs(1)] cs(2) pq(1) assms(2) by simp_all
  have j: "j < 2 ^ 20" "q < 2 ^ 12" using small [OF pq(2) cs'(1)] cs'(2) pq(2) assms(2) by simp_all
  show "p = q" using ChunkRef_split(1) [OF i] ChunkRef_split(1) [OF j] eq by simp
  show "i = j" using ChunkRef_split(2) [OF i] ChunkRef_split(2) [OF j] eq by simp
qed

theorem AllChunkRefs_names_every_chunk_witness:
  "set (SortedRefs [(ChunkRef 0 0, True), (ChunkRef 0 1, True)])
     = {ChunkRef p i |p i cs. p < length [\<lparr>ck_Low = None :: int pkey option, ck_High = None\<rparr>]
         \<and> ClipChunksToRange whole_floats (Chunks [[CInt64 0], [CInt64 10]])
              ([\<lparr>ck_Low = None, ck_High = None\<rparr>] ! p) = Some cs \<and> i < length cs}"
  by (rule conjunct1 [OF AllChunkRefs_names_every_chunk])
     (simp_all add: AllChunkRefs_def ClipChunksToRange_def Chunks_def ChunkRef_def gm_put_def)

text \<open>
  The pending list written with the window of a partition's chunk holds exactly the chunks of
  the plan whose ids come after it, in ascending order.
\<close>

theorem PendingAfter_is_the_rest:
  assumes "gm_wf todo" "part < 4096" "idx < 1048576"
  shows "set (PendingAfter todo part idx) = {i. gm_has todo i \<and> ChunkRef part idx < i}
    \<and> sorted_wrt (<) (PendingAfter todo part idx)"
proof -
  have eq: "PendingAfter todo part idx = filter (\<lambda>i. ChunkRef part idx < i) (SortedRefs todo)"
    by (rule PendingAfter_greater) (use assms in simp_all)
  have "set (SortedRefs todo) = {i. gm_has todo i}"
    by (auto simp: SortedRefs_def gm_has_def map_of_eq_None_iff)
  moreover have "sorted_wrt (<) (SortedRefs todo)"
    using assms(1) by (simp add: SortedRefs_def gm_wf_def strict_sorted_iff)
  ultimately show ?thesis by (simp add: eq sorted_wrt_filter)
qed

theorem PendingAfter_is_the_rest_witness:
  "set (PendingAfter [(5, True), (3, True), (1048576, True)] 0 3)
     = {i. gm_has [(5, True), (3, True), (1048576, True)] i \<and> ChunkRef 0 3 < i}"
  by (rule conjunct1 [OF PendingAfter_is_the_rest]) simp_all

text \<open>
  A plan recorded in the properties is the plan a restart resumes: over any store that returns the
  properties last set, planning again under the same ranges, whatever bounds the source now gives,
  reuses the recorded chunks and takes as work to do the pending chunks recorded with them.
\<close>

theorem PlanRange_resumes_recorded_plan:
  assumes store: "\<And>h props h'. ps_SetProperties st h props = (h', True) \<Longrightarrow> ps_Properties st h' = (h', Some props)"
    and fresh: "fresh_plan F T (Some st) chunker ranges (PartitionLayout sv ranges) started h = (h', Ok plan)"
    and bounds: "chunker h = (h1, Some bs)" "bs \<noteq> []" "list_all (list_all (wire_cell F T)) bs" "map (map canon_cell) bs = bs"
    and todo: "rp_Todo plan \<noteq> []"
  shows "\<exists>plan'. PlanRange F T sv (Some st) chunker' ranges started' h' = (h', Ok plan')
    \<and> rp_Resumed plan' \<and> rp_Chunks plan' = rp_Chunks plan
    \<and> {i. gm_has (rp_Todo plan') i} = {i. gm_has (rp_Todo plan) i}"
proof -
  let ?layout = "PartitionLayout sv ranges"
  from fresh bounds(1) obtain td where td: "AllChunkRefs F (Chunks bs) ranges = Ok td"
    and plan: "plan = \<lparr>rp_Chunks = Chunks bs, rp_Todo = td, rp_Resumed = False\<rparr>"
    and rec: "record_plan F T st ?layout bs td started h1 = (h', True)"
    by (cases "AllChunkRefs F (Chunks bs) ranges"; cases "record_plan F T st ?layout bs (case AllChunkRefs F (Chunks bs) ranges of Ok t \<Rightarrow> t) started h1")
      (simp_all add: fresh_plan_def Let_def split: bool.splits)
  let ?sp = "\<lparr>sp_State = StateInProgress, sp_Bounds = bs, sp_Pending = SortedRefs td, sp_Started = started\<rparr>"
  obtain props where props: "EncodeSnapshotProgress F T ?sp = Ok props" "ReadSnapshotProgress T props = Ok ?sp"
    using progress_trip [of ?sp F T] bounds(3,4) by auto
  let ?props = "gm_put PropSnapshotPartitions (PText ?layout) props"
  have "ps_SetProperties st h1 ?props = (h', True)" using rec props(1) by (simp add: record_plan_def)
  then have get: "ps_Properties st h' = (h', Some ?props)" by (rule store)
  have read: "ReadSnapshotProgress T ?props = Ok ?sp" using props(2) by (simp add: Read_put_layout)
  have keys: "set (SortedRefs td) = {i. gm_has td i}"
    by (auto simp: SortedRefs_def gm_has_def map_of_eq_None_iff)
  define td' where "td' = foldl (\<lambda>m i. gm_put i True m) [] (SortedRefs td)"
  have td': "dom (map_of td') = {i. gm_has td i}"
    unfolding td'_def foldl_put_id_keys keys ..
  have "length (SortedRefs td) = length td" by (simp add: SortedRefs_def)
  then have "set (SortedRefs td) \<noteq> {}" using todo plan by auto
  then have "td' \<noteq> []" using td' keys by auto
  then have "resumed_plan F ?sp ranges = Ok \<lparr>rp_Chunks = Chunks bs, rp_Todo = td', rp_Resumed = True\<rparr>"
    by (simp add: resumed_plan_def td'_def [symmetric])
  then have "PlanRange F T sv (Some st) chunker' ranges started' h'
      = (h', Ok \<lparr>rp_Chunks = Chunks bs, rp_Todo = td', rp_Resumed = True\<rparr>)"
    using bounds(2) by (simp add: PlanRange_def get read Resumable_def prop_at_put)
  moreover have "{i. gm_has td' i} = {i. gm_has td i}" using td' by (simp add: gm_has_def dom_def)
  ultimately show ?thesis using plan by (intro exI) (rule conjI, assumption, simp)
qed

text \<open>A store that keeps the properties last set, and a fresh plan recorded in it.\<close>

definition plain_store :: "('f props, 'f) progress_store" where
  "plain_store = \<lparr>ps_Properties = (\<lambda>h. (h, Some h)), ps_SetProperties = (\<lambda>h p. (p, True))\<rparr>"

theorem PlanRange_resumes_recorded_plan_witness:
  "\<exists>h' plan plan'. fresh_plan whole_floats nano_times (Some plain_store) (\<lambda>h. (h, Some [[CInt64 0]]))
       [\<lparr>ck_Low = None, ck_High = None\<rparr>]
       (PartitionLayout (\<lambda>c. []) [\<lparr>ck_Low = None :: int pkey option, ck_High = None\<rparr>]) ''2026'' [] = (h', Ok plan)
    \<and> PlanRange whole_floats nano_times (\<lambda>c. []) (Some plain_store) (\<lambda>h. (h, None))
       [\<lparr>ck_Low = None, ck_High = None\<rparr>] ''2027'' h' = (h', Ok plan')
    \<and> rp_Resumed plan' \<and> rp_Chunks plan' = rp_Chunks plan"
proof -
  let ?sp = "\<lparr>sp_State = StateInProgress, sp_Bounds = [[CInt64 0 :: int cell]], sp_Pending = [ChunkRef 0 0], sp_Started = ''2026''\<rparr>"
  let ?ranges = "[\<lparr>ck_Low = None :: int pkey option, ck_High = None\<rparr>]"
  let ?layout = "PartitionLayout (\<lambda>c. []) ?ranges"
  obtain props where enc: "EncodeSnapshotProgress whole_floats nano_times ?sp = Ok props"
    using progress_trip [of ?sp whole_floats nano_times] by auto
  let ?plan = "\<lparr>rp_Chunks = Chunks [[CInt64 0 :: int cell]], rp_Todo = [(ChunkRef 0 0, True)], rp_Resumed = False\<rparr>"
  have refs: "AllChunkRefs whole_floats (Chunks [[CInt64 0]]) ?ranges = Ok [(ChunkRef 0 0, True)]"
    by (simp add: AllChunkRefs_def ClipChunksToRange_def Chunks_def gm_put_def)
  have fresh: "fresh_plan whole_floats nano_times (Some plain_store) (\<lambda>h. (h, Some [[CInt64 0]])) ?ranges ?layout ''2026'' []
      = (gm_put PropSnapshotPartitions (PText ?layout) props, Ok ?plan)"
    by (simp add: fresh_plan_def refs record_plan_def SortedRefs_def enc plain_store_def Let_def)
  obtain plan' where "PlanRange whole_floats nano_times (\<lambda>c. []) (Some plain_store) (\<lambda>h. (h, None)) ?ranges ''2027''
       (gm_put PropSnapshotPartitions (PText ?layout) props)
      = (gm_put PropSnapshotPartitions (PText ?layout) props, Ok plan')" "rp_Resumed plan'" "rp_Chunks plan' = rp_Chunks ?plan"
    using PlanRange_resumes_recorded_plan [OF _ fresh, where bs = "[[CInt64 0]]" and started' = "''2027''" and chunker' = "\<lambda>h. (h, None)"]
    by (auto simp: plain_store_def)
  with fresh show ?thesis by blast
qed

text \<open>
  C17: When a fan-out pass has drained, the chunks it was told to drop are exactly the ones its plan
  still lists from the chunk it reports: nothing dropped is forgotten and nothing committed is read
  again. A pass that lost no window drops nothing.
\<close>

theorem fanout_redo_is_what_was_dropped:
  assumes run: "rtranclp (pass_step target plan seqs losts) (0, 0, fp_Begin f target, []) (length plan, length plan, f', ds)"
    and "distinct plan" "distinct seqs" "length seqs = length plan" "length losts = length plan"
  shows "\<exists>f'' fst_lost lost. fp_Drained f' target = (f'', True, fst_lost, lost)
    \<and> map fst (filter snd (zip plan ds)) = (if lost then PendingFrom plan fst_lost else [])
    \<and> lost = list_ex (\<lambda>l. l) losts"
proof -
  let ?n = "length plan"
  have "pass_inv target plan seqs losts (?n, ?n, f', ds)"
    using pass_inv_steps [OF run pass_inv_start] assms(3-5) by simp
  then obtain p where p: "map_of f' target = Some p" "dom (map_of (fp_chunks p)) \<subseteq> {seqs ! i |i. ?n \<le> i \<and> i < ?n}"
    and lost: "case first_at (\<lambda>b. b) (take ?n losts) of None \<Rightarrow> \<not> fp_lost p | Some i \<Rightarrow> fp_lost p \<and> fp_from p = plan ! i"
    and ds: "ds = map (\<lambda>i. \<exists>j\<le>i. losts ! j) [0..<?n]"
    by (auto simp: pass_inv_def)
  have "fp_chunks p = []" using p(2) by (cases "fp_chunks p") auto
  then have drained: "fp_Drained f' target
      = (gm_put target (p\<lparr>fp_from := 0, fp_lost := False\<rparr>) f', True, fp_from p, fp_lost p)"
    using p(1) by (simp add: fp_Drained_def)
  have "map fst (filter snd (zip plan ds)) = (if fp_lost p then PendingFrom plan (fp_from p) else [])
      \<and> fp_lost p = list_ex (\<lambda>l. l) losts"
  proof (cases "first_at (\<lambda>b. b) losts")
    case None
    then have "\<not> losts ! j" if "j < ?n" for j
      using that assms(5) by (auto simp: first_at_None in_set_conv_nth)
    then have "ds = map (\<lambda>i. False) [0..<?n]" unfolding ds by auto
    then have "filter snd (zip plan ds) = []" by (auto simp: filter_empty_conv dest!: set_zip_rightD)
    then show ?thesis
      using lost None assms(5) by (auto simp: first_at_None list_ex_iff)
  next
    case (Some i)
    note at = first_at_Some [OF Some]
    have "(\<exists>j\<le>k. losts ! j) \<longleftrightarrow> i \<le> k" for k
    proof
      assume "\<exists>j\<le>k. losts ! j"
      then obtain j where "j \<le> k" "losts ! j" by blast
      moreover have "\<not> j < i" using at \<open>losts ! j\<close> by blast
      ultimately show "i \<le> k" by simp
    qed (use at in blast)
    then have "ds = map (\<lambda>k. i \<le> k) [0..<?n]" unfolding ds by simp
    then have "map fst (filter snd (zip plan ds)) = drop i plan" by (simp only: filter_zip_from)
    moreover have "PendingFrom plan (plan ! i) = drop i plan"
      by (rule PendingFrom_drop) (use assms(2,5) at in simp_all)
    moreover have "fp_lost p" "fp_from p = plan ! i" using lost Some assms(5) by simp_all
    moreover have mem: "losts ! i \<in> set losts" by (rule nth_mem) (use at in blast)
    have "list_ex (\<lambda>l. l) losts" unfolding list_ex_iff by (rule bexI [OF _ mem]) (use at in blast)
    ultimately show ?thesis by simp
  qed
  with drained show ?thesis by blast
qed

theorem fanout_redo_is_what_was_dropped_witness:
  "\<exists>f' ds f'' fst_lost. rtranclp (pass_step ''t'' [10, 11, 12] [1, 2, 3] [False, True, False])
       (0, 0, fp_Begin [] ''t'', []) (3, 3, f', ds)
    \<and> fp_Drained f' ''t'' = (f'', True, fst_lost, True)
    \<and> map fst (filter snd (zip [10, 11, 12] ds)) = PendingFrom [10, 11, 12] fst_lost"
proof -
  obtain f' ds where run: "rtranclp (pass_step ''t'' [10, 11, 12] [1, 2, 3] [False, True, False])
       (0, 0, fp_Begin [] ''t'', []) (length [10, 11, 12 :: u32], length [10, 11, 12 :: u32], f', ds)"
    using pass_can_finish [of "''t''" "[10, 11, 12]" "[1, 2, 3]" "[False, True, False]" "fp_Begin [] ''t''"] by blast
  obtain f'' fst_lost lost where "fp_Drained f' ''t'' = (f'', True, fst_lost, lost)"
    "map fst (filter snd (zip [10, 11, 12] ds)) = (if lost then PendingFrom [10, 11, 12] fst_lost else [])"
    "lost = list_ex (\<lambda>l. l) [False, True, False]"
    using fanout_redo_is_what_was_dropped [OF run] by auto
  moreover have "list_ex (\<lambda>l. l) [False, True, False]" by simp
  moreover have "length [10, 11, 12 :: u32] = 3" by simp
  ultimately show ?thesis using run by metis
qed

end
