(* ===== verification/Position_GTID.thy ===== *)
theory Position_GTID
  imports Position_LSN
begin

text \<open>
  \<open>position/gtid.go\<close>: MySQL GTID sets. A set maps a server uuid (or \<open>uuid:tag\<close>) to half-open
  transaction intervals over \<open>uint64\<close>, kept sorted and merged. The definitions follow the file
  from the interval parser to \<open>Add\<close>. The lemmas relate them to the set of transactions they
  denote: \<open>normalize\<close> keeps the transactions and establishes the normal form,
  \<open>containsIntervals\<close> on normal forms is inclusion, \<open>Contains\<close> is inclusion of transaction sets,
  \<open>Add\<close> is union, and the text form parses back for the sets whose text form is unambiguous.
\<close>

section \<open>Intervals\<close>

record interval =
  iv_start :: u64
  iv_stop :: u64

definition mk_interval :: "u64 \<Rightarrow> u64 \<Rightarrow> interval" where
  "mk_interval a b = \<lparr>iv_start = a, iv_stop = b\<rparr>"

definition interval_String :: "interval \<Rightarrow> string" where
  "interval_String iv =
     (if iv_stop iv = iv_start iv + 1 then FormatUint (unat (iv_start iv))
      else FormatUint (unat (iv_start iv)) @ CHR ''-'' # FormatUint (unat (iv_stop iv - 1)))"

definition parseInterval :: "string \<Rightarrow> (pos_err, interval) res" where
  "parseInterval s =
     (let bounds =
        (case split_on CHR ''-'' s of
           [a] \<Rightarrow> (case ParseUint 10 64 a of
                    None \<Rightarrow> None
                  | Some n \<Rightarrow> Some (word_of_nat n, word_of_nat n + 1))
         | [a, b] \<Rightarrow> (case ParseUint 10 64 a of
                       None \<Rightarrow> None
                     | Some n \<Rightarrow> (case ParseUint 10 64 b of
                                   None \<Rightarrow> None
                                 | Some m \<Rightarrow> Some (word_of_nat n, word_of_nat m + 1)))
         | _ \<Rightarrow> None) :: (u64 \<times> u64) option
      in case bounds of
           None \<Rightarrow> Err ErrInterval
         | Some (start, stop) \<Rightarrow>
             if stop \<le> start then Err ErrInterval
             else Ok (mk_interval start stop))"

text \<open>
  \<open>normalize\<close>: sort by start, then stop, and merge overlapping or adjacent intervals. The loop of
  the code keeps the last output interval in place; \<open>merge_from last\<close> carries it.
\<close>

fun merge_from :: "interval \<Rightarrow> interval list \<Rightarrow> interval list" where
  "merge_from l [] = [l]"
| "merge_from l (iv # ivs) =
     (if iv_start iv > iv_stop l then l # merge_from iv ivs
      else if iv_stop iv > iv_stop l then merge_from (l\<lparr>iv_stop := iv_stop iv\<rparr>) ivs
      else merge_from l ivs)"

definition iv_key :: "interval \<Rightarrow> u64 \<times> u64" where
  "iv_key iv = (iv_start iv, iv_stop iv)"

definition normalize_ivs :: "interval list \<Rightarrow> interval list" where
  "normalize_ivs ivs =
     (if length ivs < 2 then ivs
      else case sort_key iv_key ivs of [] \<Rightarrow> [] | iv # rest \<Rightarrow> merge_from iv rest)"

definition containsIntervals :: "interval list \<Rightarrow> interval list \<Rightarrow> bool" where
  "containsIntervals s sub =
     (\<forall>iv\<in>set sub. \<exists>c\<in>set s. iv_start iv \<ge> iv_start c \<and> iv_stop iv \<le> iv_stop c)"

section \<open>UUIDs and GTID sets\<close>

definition isHex :: "char \<Rightarrow> bool" where
  "isHex c \<longleftrightarrow>
     (let n = of_char c :: nat in
      (48 \<le> n \<and> n \<le> 57) \<or> (97 \<le> n \<and> n \<le> 102) \<or> (65 \<le> n \<and> n \<le> 70))"

definition validUUID :: "string \<Rightarrow> bool" where
  "validUUID s \<longleftrightarrow>
     length s = 36 \<and>
     (\<forall>i<36. if i \<in> {8, 13, 18, 23} then s ! i = CHR ''-'' else isHex (s ! i))"

type_synonym gtid = "(string, interval list) gomap"

fun parseIntervals :: "string list \<Rightarrow> (pos_err, interval list) res" where
  "parseIntervals [] = Ok []"
| "parseIntervals (s # ss) =
     res_bind (parseInterval s) (\<lambda>iv. res_bind (parseIntervals ss) (\<lambda>ivs. Ok (iv # ivs)))"

text \<open>
  One comma-separated part: the uuid, the optional tag and the intervals. As in the code, the
  second segment is taken for a tag whenever there are three segments or more.
\<close>

definition parse_part :: "string \<Rightarrow> (pos_err, string \<times> interval list) res" where
  "parse_part part =
     (let segs = split_on CHR '':'' (TrimSpace part) in
      if length segs < 2 then Err ErrPart
      else let uuid = segs ! 0 in
        if \<not> validUUID uuid then Err ErrUUID
        else let (k, ivSegs) =
               (if 3 \<le> length segs then (uuid @ CHR '':'' # segs ! 1, drop 2 segs)
                else (uuid, drop 1 segs))
             in res_bind (parseIntervals ivSegs) (\<lambda>ivs. Ok (k, ivs)))"

definition gtid_merge :: "gtid \<Rightarrow> string \<Rightarrow> interval list \<Rightarrow> gtid" where
  "gtid_merge g k ivs = gm_put k (normalize_ivs (gm_at [] g k @ ivs)) g"

fun parse_parts :: "gtid \<Rightarrow> string list \<Rightarrow> (pos_err, gtid) res" where
  "parse_parts g [] = Ok g"
| "parse_parts g (p # ps) =
     res_bind (parse_part p) (\<lambda>(k, ivs). parse_parts (gtid_merge g k ivs) ps)"

definition ParseGTID :: "string \<Rightarrow> (pos_err, gtid) res" where
  "ParseGTID s = (if s = [] then Ok [] else parse_parts [] (split_on CHR '','' s))"

definition MustGTID :: "string \<Rightarrow> (pos_err, gtid) res" where
  "MustGTID s = (case ParseGTID s of Ok g \<Rightarrow> Ok g | _ \<Rightarrow> Panic)"

definition gtid_part_String :: "string \<Rightarrow> interval list \<Rightarrow> string" where
  "gtid_part_String u ivs = u @ concat (map (\<lambda>iv. CHR '':'' # interval_String iv) ivs)"

definition GTID_String :: "gtid \<Rightarrow> string" where
  "GTID_String g =
     join_with CHR '','' (map (\<lambda>u. gtid_part_String u (gm_at [] g u)) (sort (map fst g)))"

definition GTID_Contains :: "gtid \<Rightarrow> gtid \<Rightarrow> bool" where
  "GTID_Contains g oth =
     (\<forall>(u, oivs)\<in>set oth.
        case map_of g u of None \<Rightarrow> False | Some ivs \<Rightarrow> containsIntervals ivs oivs)"

definition GTID_Compare :: "gtid \<Rightarrow> gtid \<Rightarrow> int" where
  "GTID_Compare g oth =
     (let fwd = GTID_Contains g oth; rv = GTID_Contains oth g in
      if fwd \<and> rv then 0 else if fwd then 1 else if rv then - 1 else Incomparable)"

fun GTID_Add :: "gtid \<Rightarrow> gtid \<Rightarrow> gtid" where
  "GTID_Add g [] = g"
| "GTID_Add g ((u, oivs) # rest) = GTID_Add (gtid_merge g u oivs) rest"

section \<open>The transactions a set denotes\<close>

definition iv_set :: "interval \<Rightarrow> u64 set" where
  "iv_set iv = {iv_start iv ..< iv_stop iv}"

definition ivs_set :: "interval list \<Rightarrow> u64 set" where
  "ivs_set ivs = (\<Union>iv\<in>set ivs. iv_set iv)"

definition iv_ok :: "interval \<Rightarrow> bool" where
  "iv_ok iv \<longleftrightarrow> iv_start iv < iv_stop iv"

text \<open>The normal form: proper intervals, each ending strictly before the next begins.\<close>

definition iv_normal :: "interval list \<Rightarrow> bool" where
  "iv_normal ivs \<longleftrightarrow> list_all iv_ok ivs \<and> sorted_wrt (\<lambda>a b. iv_stop a < iv_start b) ivs"

definition gtid_set :: "gtid \<Rightarrow> (string \<times> u64) set" where
  "gtid_set g = {(u, n). \<exists>ivs. map_of g u = Some ivs \<and> n \<in> ivs_set ivs}"

definition gtid_wf :: "gtid \<Rightarrow> bool" where
  "gtid_wf g \<longleftrightarrow> gm_wf g \<and> (\<forall>(u, ivs)\<in>set g. ivs \<noteq> [] \<and> iv_normal ivs)"

lemma ivs_set_Nil [simp]: "ivs_set [] = {}"
  by (simp add: ivs_set_def)

lemma ivs_set_Cons [simp]: "ivs_set (iv # ivs) = iv_set iv \<union> ivs_set ivs"
  by (simp add: ivs_set_def)

lemma ivs_set_append [simp]: "ivs_set (xs @ ys) = ivs_set xs \<union> ivs_set ys"
  by (simp add: ivs_set_def)

lemma iv_set_nonempty: "iv_ok iv \<Longrightarrow> iv_set iv \<noteq> {}"
  by (auto simp: iv_set_def iv_ok_def)

lemma iv_set_mk [simp]: "iv_set (mk_interval a b) = {a ..< b}"
  by (simp add: iv_set_def mk_interval_def)

subsection \<open>\<open>normalize\<close>\<close>

lemma merge_from_set:
  assumes "list_all iv_ok (l # ivs)" "sorted (map iv_start (l # ivs))"
  shows "ivs_set (merge_from l ivs) = iv_set l \<union> ivs_set ivs"
  using assms
proof (induction l ivs rule: merge_from.induct)
  case (2 l iv ivs)
  consider "iv_start iv > iv_stop l" | "iv_start iv \<le> iv_stop l" "iv_stop iv > iv_stop l"
    | "iv_start iv \<le> iv_stop l" "iv_stop iv \<le> iv_stop l" by fastforce
  then show ?case
  proof cases
    case 1
    with 2 show ?thesis by simp
  next
    case inner: 2
    with "2.prems" have "iv_set (l\<lparr>iv_stop := iv_stop iv\<rparr>) = iv_set l \<union> iv_set iv"
      by (auto simp: iv_set_def)
    moreover have "list_all iv_ok (l\<lparr>iv_stop := iv_stop iv\<rparr> # ivs)"
      using "2.prems" inner by (auto simp: iv_ok_def list_all_iff)
    moreover have "sorted (map iv_start (l\<lparr>iv_stop := iv_stop iv\<rparr> # ivs))"
      using "2.prems" by auto
    ultimately show ?thesis using inner 2 by auto
  next
    case 3
    with "2.prems" have "iv_set iv \<subseteq> iv_set l" by (auto simp: iv_set_def)
    with 3 2 show ?thesis by auto
  qed
qed simp

lemma merge_from_hd: "iv_start (hd (merge_from l ivs)) = iv_start l"
  by (induction l ivs rule: merge_from.induct) auto

lemma merge_from_nonempty [simp]: "merge_from l ivs \<noteq> []"
  by (induction l ivs rule: merge_from.induct) auto

lemma iv_normal_Cons:
  "iv_normal (x # xs) \<longleftrightarrow>
     iv_ok x \<and> iv_normal xs \<and> (xs \<noteq> [] \<longrightarrow> iv_stop x < iv_start (hd xs))"
proof (cases xs)
  case (Cons y ys)
  have "iv_stop x < iv_start z"
    if "iv_stop x < iv_start y" "iv_ok y" "z \<in> set ys" "\<forall>z\<in>set ys. iv_stop y < iv_start z" for z
    using that by (auto simp: iv_ok_def dest!: bspec)
  with Cons show ?thesis by (auto simp: iv_normal_def list_all_iff)
qed (simp add: iv_normal_def)

lemma merge_from_normal:
  assumes "list_all iv_ok (l # ivs)" "sorted (map iv_start (l # ivs))"
  shows "iv_normal (merge_from l ivs)"
  using assms
proof (induction l ivs rule: merge_from.induct)
  case (2 l iv ivs)
  consider "iv_start iv > iv_stop l" | "iv_start iv \<le> iv_stop l" "iv_stop iv > iv_stop l"
    | "iv_start iv \<le> iv_stop l" "iv_stop iv \<le> iv_stop l" by fastforce
  then show ?case
  proof cases
    case 1
    with 2 show ?thesis by (simp add: iv_normal_Cons merge_from_hd)
  next
    case inner: 2
    moreover have "list_all iv_ok (l\<lparr>iv_stop := iv_stop iv\<rparr> # ivs)"
      using "2.prems" inner by (auto simp: iv_ok_def list_all_iff)
    moreover have "sorted (map iv_start (l\<lparr>iv_stop := iv_stop iv\<rparr> # ivs))"
      using "2.prems" by auto
    ultimately show ?thesis using 2 by auto
  next
    case 3
    with 2 show ?thesis by auto
  qed
qed (simp add: iv_normal_def)

lemma sorted_starts_of_keys: "sorted (map iv_key ivs) \<Longrightarrow> sorted (map iv_start ivs)"
  by (induction ivs) (auto simp: iv_key_def less_eq_prod_def)

lemma sorted_starts: "sorted (map iv_start (sort_key iv_key ivs))"
  by (rule sorted_starts_of_keys) simp

lemma sort_key_eq_Nil [simp]: "sort_key k xs = [] \<longleftrightarrow> xs = []"
  using set_sort [of k xs] by (metis set_empty)

lemma iv_normal_normalize: "list_all iv_ok ivs \<Longrightarrow> iv_normal (normalize_ivs ivs)"
proof (cases "sort_key iv_key ivs")
  case (Cons iv rest)
  assume ok: "list_all iv_ok ivs"
  have "set ivs = set (sort_key iv_key ivs)" by simp
  with ok Cons have "list_all iv_ok (iv # rest)" by (auto simp: list_all_iff)
  moreover have "sorted (map iv_start (iv # rest))" using sorted_starts [of ivs] Cons by simp
  ultimately have "iv_normal (merge_from iv rest)" by (rule merge_from_normal)
  moreover have "iv_normal ivs" if "length ivs < 2"
    using that ok by (cases ivs) (auto simp: iv_normal_def)
  ultimately show ?thesis using Cons by (simp add: normalize_ivs_def)
qed (simp add: normalize_ivs_def iv_normal_def)

lemma ivs_set_normalize: "list_all iv_ok ivs \<Longrightarrow> ivs_set (normalize_ivs ivs) = ivs_set ivs"
proof (cases "sort_key iv_key ivs")
  case (Cons iv rest)
  assume ok: "list_all iv_ok ivs"
  have eq: "set ivs = set (sort_key iv_key ivs)" by simp
  with ok Cons have "list_all iv_ok (iv # rest)" by (auto simp: list_all_iff)
  moreover have "sorted (map iv_start (iv # rest))" using sorted_starts [of ivs] Cons by simp
  ultimately have "ivs_set (merge_from iv rest) = ivs_set (iv # rest)"
    by (simp add: merge_from_set)
  moreover have "ivs_set (iv # rest) = ivs_set ivs" using eq Cons by (simp add: ivs_set_def)
  ultimately show ?thesis using Cons by (simp add: normalize_ivs_def)
qed (simp add: normalize_ivs_def)

lemma merge_from_id: "iv_normal (l # ivs) \<Longrightarrow> merge_from l ivs = l # ivs"
  by (induction ivs arbitrary: l) (auto simp: iv_normal_Cons)

lemma iv_key_le: "iv_ok x \<Longrightarrow> iv_stop x < iv_start y \<Longrightarrow> iv_key x \<le> iv_key y"
  unfolding iv_key_def iv_ok_def less_eq_prod_def by (auto dest: order.strict_trans)

lemma iv_normal_sorted: "iv_normal ivs \<Longrightarrow> sorted (map iv_key ivs)"
  by (induction ivs) (auto simp: iv_normal_def intro: iv_key_le)

lemma normalize_id: "iv_normal ivs \<Longrightarrow> normalize_ivs ivs = ivs"
proof -
  assume n: "iv_normal ivs"
  then have "sort_key iv_key ivs = ivs"
    by (intro sort_key_id_if_sorted iv_normal_sorted)
  with n show ?thesis
    by (auto simp: normalize_ivs_def merge_from_id split: list.split)
qed

lemma normalize_eq_Nil [simp]: "normalize_ivs ivs = [] \<longleftrightarrow> ivs = []"
proof -
  have "set (sort_key iv_key ivs) = set ivs" by simp
  then show ?thesis
    by (cases ivs; cases "sort_key iv_key ivs") (auto simp: normalize_ivs_def)
qed

subsection \<open>Containment is inclusion\<close>

lemma iv_normal_apart:
  "iv_normal s \<Longrightarrow> c \<in> set s \<Longrightarrow> d \<in> set s \<Longrightarrow> c \<noteq> d \<Longrightarrow>
     iv_stop c < iv_start d \<or> iv_stop d < iv_start c"
  by (induction s) (auto simp: iv_normal_def)

lemma contained_in_one:
  assumes nrm: "iv_normal s" and ok: "iv_ok iv" and sub: "iv_set iv \<subseteq> ivs_set s"
  shows "\<exists>c\<in>set s. iv_start c \<le> iv_start iv \<and> iv_stop iv \<le> iv_stop c"
proof -
  from ok sub have "iv_start iv \<in> ivs_set s" by (auto simp: iv_set_def iv_ok_def)
  then obtain c where c: "c \<in> set s" "iv_start c \<le> iv_start iv" "iv_start iv < iv_stop c"
    by (auto simp: ivs_set_def iv_set_def)
  have "iv_stop iv \<le> iv_stop c"
  proof (rule ccontr)
    assume "\<not> iv_stop iv \<le> iv_stop c"
    with c have "iv_stop c \<in> iv_set iv" by (auto simp: iv_set_def)
    with sub obtain d where d: "d \<in> set s" "iv_start d \<le> iv_stop c" "iv_stop c < iv_stop d"
      by (auto simp: ivs_set_def iv_set_def)
    from d c have "c \<noteq> d" by auto
    with nrm c(1) d(1) have "iv_stop c < iv_start d \<or> iv_stop d < iv_start c"
      by (rule iv_normal_apart)
    then show False
    proof
      assume "iv_stop d < iv_start c"
      with c d show False by (meson less_le_trans less_trans less_irrefl)
    qed (use d in simp)
  qed
  with c show ?thesis by blast
qed

lemma containsIntervals_iff:
  assumes "iv_normal s" "list_all iv_ok sub"
  shows "containsIntervals s sub \<longleftrightarrow> ivs_set sub \<subseteq> ivs_set s"
proof
  assume "containsIntervals s sub"
  then have "\<exists>c\<in>set s. iv_set iv \<subseteq> iv_set c" if "iv \<in> set sub" for iv
    using that by (auto simp: containsIntervals_def iv_set_def)
  then show "ivs_set sub \<subseteq> ivs_set s"
    unfolding ivs_set_def by blast
next
  assume sub: "ivs_set sub \<subseteq> ivs_set s"
  show "containsIntervals s sub"
    unfolding containsIntervals_def
  proof
    fix iv assume "iv \<in> set sub"
    with sub assms(2) have "iv_ok iv" "iv_set iv \<subseteq> ivs_set s"
      by (auto simp: list_all_iff ivs_set_def)
    with assms(1) show "\<exists>c\<in>set s. iv_start c \<le> iv_start iv \<and> iv_stop iv \<le> iv_stop c"
      by (intro contained_in_one)
  qed
qed

section \<open>Sets of transactions\<close>

lemma gtid_wf_lookup:
  "gtid_wf g \<Longrightarrow> map_of g u = Some ivs \<Longrightarrow> ivs \<noteq> [] \<and> iv_normal ivs"
  unfolding gtid_wf_def by (auto dest!: map_of_SomeD)

lemma gtid_wfI:
  "gm_wf g \<Longrightarrow> (\<And>u ivs. map_of g u = Some ivs \<Longrightarrow> ivs \<noteq> [] \<and> iv_normal ivs) \<Longrightarrow> gtid_wf g"
  unfolding gtid_wf_def by (fastforce simp: gm_wf_lookup)

lemma iv_normal_ok: "iv_normal ivs \<Longrightarrow> list_all iv_ok ivs"
  by (simp add: iv_normal_def)

lemma ivs_set_nonempty: "ivs \<noteq> [] \<Longrightarrow> iv_normal ivs \<Longrightarrow> ivs_set ivs \<noteq> {}"
  by (cases ivs) (auto simp: iv_normal_def dest: iv_set_nonempty)

lemma GTID_Contains_map:
  assumes "gm_wf oth"
  shows "GTID_Contains g oth \<longleftrightarrow>
    (\<forall>u oivs. map_of oth u = Some oivs \<longrightarrow>
       (\<exists>ivs. map_of g u = Some ivs \<and> containsIntervals ivs oivs))"
proof -
  have "GTID_Contains g oth \<longleftrightarrow> (\<forall>u oivs. (u, oivs) \<in> set oth \<longrightarrow>
     (\<exists>ivs. map_of g u = Some ivs \<and> containsIntervals ivs oivs))"
    unfolding GTID_Contains_def by (force split: option.splits)
  with assms show ?thesis by (simp add: gm_wf_lookup)
qed

lemma GTID_Contains_iff:
  assumes g: "gtid_wf g" and oth: "gtid_wf oth"
  shows "GTID_Contains g oth \<longleftrightarrow> gtid_set oth \<subseteq> gtid_set g"
proof
  assume "GTID_Contains g oth"
  with oth have c: "\<exists>ivs. map_of g u = Some ivs \<and> containsIntervals ivs oivs"
    if "map_of oth u = Some oivs" for u oivs
    using that by (simp add: GTID_Contains_map gtid_wf_def)
  show "gtid_set oth \<subseteq> gtid_set g"
  proof (clarsimp simp: gtid_set_def)
    fix u n oivs
    assume o: "map_of oth u = Some oivs" and n: "n \<in> ivs_set oivs"
    from c [OF o] obtain ivs where g': "map_of g u = Some ivs" "containsIntervals ivs oivs" by blast
    then have "ivs_set oivs \<subseteq> ivs_set ivs"
      using gtid_wf_lookup [OF g g'(1)] gtid_wf_lookup [OF oth o]
      by (simp add: containsIntervals_iff iv_normal_ok)
    with n g' show "\<exists>ivs. map_of g u = Some ivs \<and> n \<in> ivs_set ivs" by blast
  qed
next
  assume sub: "gtid_set oth \<subseteq> gtid_set g"
  have "\<exists>ivs. map_of g u = Some ivs \<and> containsIntervals ivs oivs"
    if o: "map_of oth u = Some oivs" for u oivs
  proof -
    from gtid_wf_lookup [OF oth o] have nrm: "oivs \<noteq> []" "iv_normal oivs" by auto
    then obtain n where "n \<in> ivs_set oivs" using ivs_set_nonempty by blast
    with o sub have "(u, n) \<in> gtid_set g" by (auto simp: gtid_set_def)
    then obtain ivs where g': "map_of g u = Some ivs" by (auto simp: gtid_set_def)
    have "ivs_set oivs \<subseteq> ivs_set ivs"
    proof
      fix m assume "m \<in> ivs_set oivs"
      with o sub have "(u, m) \<in> gtid_set g" by (auto simp: gtid_set_def)
      with g' show "m \<in> ivs_set ivs" by (simp add: gtid_set_def)
    qed
    with g' gtid_wf_lookup [OF g g'] nrm show ?thesis
      by (auto simp: containsIntervals_iff iv_normal_ok)
  qed
  then show "GTID_Contains g oth"
    using oth by (simp add: GTID_Contains_map gtid_wf_def)
qed

lemma GTID_Compare_Contains:
  "GTID_Compare g oth = 0 \<longleftrightarrow> GTID_Contains g oth \<and> GTID_Contains oth g"
  "GTID_Compare g oth = Incomparable \<longleftrightarrow> \<not> GTID_Contains g oth \<and> \<not> GTID_Contains oth g"
  "GTID_Compare g oth < 0 \<longleftrightarrow> GTID_Contains oth g \<and> \<not> GTID_Contains g oth"
  by (auto simp: GTID_Compare_def Incomparable_def Let_def)

lemma gtid_set_put:
  "gtid_set (gm_put u ivs g) = {(u', n). u' \<noteq> u \<and> (u', n) \<in> gtid_set g} \<union> {u} \<times> ivs_set ivs"
  by (auto simp: gtid_set_def split: if_splits)

lemma gtid_merge_set:
  assumes "gtid_wf g" "list_all iv_ok ivs"
  shows "gtid_set (gtid_merge g u ivs) = gtid_set g \<union> {u} \<times> ivs_set ivs"
proof (cases "map_of g u")
  case None
  then have "(u, n) \<notin> gtid_set g" for n by (simp add: gtid_set_def)
  with None assms show ?thesis
    by (auto simp: gtid_merge_def gtid_set_put ivs_set_normalize gm_at_def)
next
  case (Some old)
  with assms gtid_wf_lookup have "list_all iv_ok (old @ ivs)"
    by (fastforce simp: iv_normal_ok)
  moreover from Some have "(u, n) \<in> gtid_set g \<longleftrightarrow> n \<in> ivs_set old" for n
    by (simp add: gtid_set_def)
  ultimately show ?thesis using Some
    by (auto simp: gtid_merge_def gtid_set_put ivs_set_normalize gm_at_def)
qed

lemma gtid_wf_merge:
  assumes g: "gtid_wf g" and ivs: "list_all iv_ok ivs" "ivs \<noteq> []"
  shows "gtid_wf (gtid_merge g u ivs)"
proof -
  have old: "list_all iv_ok (gm_at [] g u)"
    using gtid_wf_lookup [OF g, of u] by (auto simp: gm_at_def iv_normal_ok split: option.splits)
  with ivs have "normalize_ivs (gm_at [] g u @ ivs) \<noteq> []" "iv_normal (normalize_ivs (gm_at [] g u @ ivs))"
    by (simp_all add: iv_normal_normalize)
  moreover have wf: "gm_wf (gtid_merge g u ivs)"
    using g by (simp add: gtid_merge_def gtid_wf_def)
  moreover have "v \<noteq> [] \<and> iv_normal v" if "map_of g a = Some v" for a v
    using gtid_wf_lookup [OF g that] .
  ultimately have "v \<noteq> [] \<and> iv_normal v" if "map_of (gtid_merge g u ivs) a = Some v" for a v
    using that by (auto simp: gtid_merge_def simp del: normalize_eq_Nil split: if_splits)
  with wf show ?thesis by (rule gtid_wfI)
qed

lemma GTID_Add_union:
  assumes "gtid_wf g" "gtid_wf oth"
  shows "gtid_wf (GTID_Add g oth) \<and> gtid_set (GTID_Add g oth) = gtid_set g \<union> gtid_set oth"
  using assms
proof (induction g oth rule: GTID_Add.induct)
  case (2 g u oivs rest)
  from "2.prems" have hd_ok: "list_all iv_ok oivs" "oivs \<noteq> []" and fresh: "u \<notin> fst ` set rest"
    and rest: "gtid_wf rest"
    by (auto simp: gtid_wf_def iv_normal_ok)
  have cons: "gtid_set ((u, oivs) # rest) = {u} \<times> ivs_set oivs \<union> gtid_set rest"
  proof -
    from fresh have "map_of rest u = None" by (simp add: map_of_eq_None_iff)
    then show ?thesis by (auto simp: gtid_set_def split: if_splits)
  qed
  with 2 hd_ok rest show ?case
    by (auto simp: gtid_wf_merge gtid_merge_set)
qed (simp add: gtid_set_def)

section \<open>The text form\<close>

lemma isHex_no_sep: "isHex c \<Longrightarrow> c \<noteq> CHR '':'' \<and> c \<noteq> CHR '','' \<and> \<not> is_space c"
  by (auto simp: isHex_def is_space_def Let_def)

lemma validUUID_chars:
  assumes "validUUID u" "c \<in> set u"
  shows "c \<noteq> CHR '':'' \<and> c \<noteq> CHR '','' \<and> \<not> is_space c"
proof -
  from assms obtain i where i: "i < 36" "c = u ! i"
    by (auto simp: validUUID_def in_set_conv_nth)
  with assms(1) have "c = CHR ''-'' \<or> isHex c"
    unfolding validUUID_def by metis
  then show ?thesis
    using isHex_no_sep [of c] by (elim disjE) (simp_all add: is_space_def)
qed

lemma validUUID_nonempty: "validUUID u \<Longrightarrow> u \<noteq> []"
  by (auto simp: validUUID_def)

lemma FormatUint_chars:
  "CHR ''-'' \<notin> set (FormatUint n)" "CHR '':'' \<notin> set (FormatUint n)"
  "CHR '','' \<notin> set (FormatUint n)"
  unfolding FormatUint_def by (rule fmt_nat_no_sep; simp)+

lemma ParseUint_FormatUint_word: "ParseUint 10 64 (FormatUint (unat (w::u64))) = Some (unat w)"
proof -
  have "unat w < 2 ^ LENGTH(64)" by (rule unsigned_less)
  then show ?thesis unfolding FormatUint_def by (intro ParseUint_fmt) simp_all
qed

lemma parseInterval_String: "iv_ok iv \<Longrightarrow> parseInterval (interval_String iv) = Ok iv"
proof -
  assume ok: "iv_ok iv"
  have unat_inv: "word_of_nat (unat w) = w" for w :: u64 by simp
  show ?thesis
  proof (cases "iv_stop iv = iv_start iv + 1")
    case True
    with ok show ?thesis
      by (auto simp: parseInterval_def interval_String_def split_on_free FormatUint_chars
          ParseUint_FormatUint_word unat_inv iv_ok_def mk_interval_def)
  next
    case False
    with ok show ?thesis
      by (auto simp: parseInterval_def interval_String_def split_on_free split_on_append
          FormatUint_chars ParseUint_FormatUint_word unat_inv iv_ok_def mk_interval_def)
  qed
qed

lemma interval_String_chars:
  "CHR '':'' \<notin> set (interval_String iv)" "CHR '','' \<notin> set (interval_String iv)"
  by (simp_all add: interval_String_def FormatUint_chars)

lemma interval_String_last:
  "interval_String iv \<noteq> []" "\<not> is_space (last (interval_String iv))"
proof -
  have ne: "FormatUint n \<noteq> []" and lst: "\<not> is_space (last (FormatUint n))" for n
    unfolding FormatUint_def using fmt_nat_no_space [of 10 "last (fmt_nat 10 n)" n] by auto
  show "interval_String iv \<noteq> []" "\<not> is_space (last (interval_String iv))"
    using ne lst by (simp_all add: interval_String_def)
qed

lemma parseIntervals_String:
  "list_all iv_ok ivs \<Longrightarrow> parseIntervals (map interval_String ivs) = Ok ivs"
  by (induction ivs) (auto simp: parseInterval_String)

lemma gtid_part_join:
  "gtid_part_String u ivs = join_with CHR '':'' (u # map interval_String ivs)"
proof (induction ivs arbitrary: u)
  case (Cons iv ivs)
  have "gtid_part_String u (iv # ivs) = u @ CHR '':'' # gtid_part_String (interval_String iv) ivs"
    by (simp add: gtid_part_String_def)
  with Cons.IH [of "interval_String iv"] show ?case by simp
qed (simp add: gtid_part_String_def)

lemma gtid_part_tagged:
  "gtid_part_String (u @ CHR '':'' # t) ivs
     = join_with CHR '':'' (u # t # map interval_String ivs)"
proof -
  have "gtid_part_String (u @ CHR '':'' # t) ivs = u @ CHR '':'' # gtid_part_String t ivs"
    by (simp add: gtid_part_String_def)
  then show ?thesis by (simp add: gtid_part_join)
qed

lemma TrimSpace_part:
  assumes "validUUID u" "ivs \<noteq> []"
  shows "TrimSpace (gtid_part_String (u @ t) ivs) = gtid_part_String (u @ t) ivs"
proof (rule TrimSpace_id)
  obtain iv jvs where iv: "ivs = jvs @ [iv]" using assms(2) by (cases ivs rule: rev_cases) auto
  then have "gtid_part_String (u @ t) ivs =
      (u @ t @ concat (map (\<lambda>iv. CHR '':'' # interval_String iv) jvs)) @ CHR '':'' # interval_String iv"
    by (simp add: gtid_part_String_def)
  then show "\<not> is_space (last (gtid_part_String (u @ t) ivs))"
    by (simp add: interval_String_last)
  from validUUID_nonempty [OF assms(1)] have "hd (gtid_part_String (u @ t) ivs) = hd u" "hd u \<in> set u"
    by (simp_all add: gtid_part_String_def)
  then show "\<not> is_space (hd (gtid_part_String (u @ t) ivs))"
    using validUUID_chars [OF assms(1)] by simp
  show "gtid_part_String (u @ t) ivs \<noteq> []"
    using validUUID_nonempty [OF assms(1)] by (simp add: gtid_part_String_def)
qed

lemma parse_part_untagged:
  assumes "validUUID u" "iv_ok iv"
  shows "parse_part (gtid_part_String u [iv]) = Ok (u, [iv])"
proof -
  have "CHR '':'' \<notin> set u" using validUUID_chars [OF assms(1)] by auto
  then have "split_on CHR '':'' (gtid_part_String u [iv]) = [u, interval_String iv]"
    unfolding gtid_part_join by (subst split_on_join) (simp_all add: interval_String_chars)
  moreover have "TrimSpace (gtid_part_String u [iv]) = gtid_part_String u [iv]"
    using TrimSpace_part [OF assms(1), of "[iv]" "[]"] by simp
  ultimately show ?thesis
    using assms by (simp add: parse_part_def parseInterval_String)
qed

lemma parse_part_tagged:
  assumes "validUUID u" "CHR '':'' \<notin> set t" "ivs \<noteq> []" "list_all iv_ok ivs"
  shows "parse_part (gtid_part_String (u @ CHR '':'' # t) ivs) = Ok (u @ CHR '':'' # t, ivs)"
proof -
  have "CHR '':'' \<notin> set u" using validUUID_chars [OF assms(1)] by auto
  with assms(2) have "split_on CHR '':'' (gtid_part_String (u @ CHR '':'' # t) ivs)
      = u # t # map interval_String ivs"
    unfolding gtid_part_tagged by (subst split_on_join) (auto simp: interval_String_chars)
  moreover have "3 \<le> length (u # t # map interval_String ivs)"
    using assms(3) by (cases ivs) auto
  ultimately show ?thesis
    using assms TrimSpace_part [OF assms(1,3), of "CHR '':'' # t"]
    by (simp add: parse_part_def parseIntervals_String)
qed

text \<open>
  The keys whose text form is unambiguous: an untagged uuid with one interval, or a tagged uuid.
\<close>

definition printable :: "string \<times> interval list \<Rightarrow> bool" where
  "printable p =
     (case split_on CHR '':'' (fst p) of
        [u] \<Rightarrow> validUUID u \<and> length (snd p) = 1
      | [u, t] \<Rightarrow> validUUID u \<and> CHR '','' \<notin> set t
      | _ \<Rightarrow> False)"

definition gtid_canon :: "gtid \<Rightarrow> gtid" where
  "gtid_canon g = map (\<lambda>u. (u, gm_at [] g u)) (sort (map fst g))"

lemma printable_cases:
  assumes "printable (k, ivs)"
  obtains (untagged) iv where "validUUID k" "ivs = [iv]"
  | (tagged) u t where "k = u @ CHR '':'' # t" "validUUID u" "CHR '':'' \<notin> set t" "CHR '','' \<notin> set t"
proof -
  have join: "join_with CHR '':'' (split_on CHR '':'' k) = k" by (rule join_split_on)
  consider (one) u where "split_on CHR '':'' k = [u]" "validUUID u" "length ivs = 1"
    | (two) u t where "split_on CHR '':'' k = [u, t]" "validUUID u" "CHR '','' \<notin> set t"
    using assms by (auto simp: printable_def split: list.splits)
  then show thesis
  proof cases
    case one
    with join untagged show ?thesis by (auto simp: length_Suc_conv)
  next
    case two
    with split_on_free_elem [of t "CHR '':''" k] join tagged show ?thesis by auto
  qed
qed

lemma parse_part_printable:
  assumes "printable (k, ivs)" "ivs \<noteq> []" "list_all iv_ok ivs"
  shows "parse_part (gtid_part_String k ivs) = Ok (k, ivs)"
  using assms(1)
proof (cases rule: printable_cases)
  case (untagged iv)
  with assms show ?thesis by (simp add: parse_part_untagged)
next
  case (tagged u t)
  with assms show ?thesis by (simp add: parse_part_tagged)
qed

lemma part_no_comma:
  assumes "printable (k, ivs)"
  shows "CHR '','' \<notin> set (gtid_part_String k ivs)"
proof -
  have "CHR '','' \<notin> set k"
    using assms by (cases rule: printable_cases) (auto dest: validUUID_chars)
  then show ?thesis by (auto simp: gtid_part_String_def interval_String_chars)
qed

lemma parse_parts_printable:
  assumes "distinct us" "set us \<inter> fst ` set g = {}"
    "\<forall>u\<in>set us. printable (u, f u) \<and> f u \<noteq> [] \<and> iv_normal (f u)"
  shows "parse_parts g (map (\<lambda>u. gtid_part_String u (f u)) us) = Ok (g @ map (\<lambda>u. (u, f u)) us)"
  using assms
proof (induction us arbitrary: g)
  case (Cons u us)
  then have "parse_part (gtid_part_String u (f u)) = Ok (u, f u)"
    by (intro parse_part_printable) (auto simp: iv_normal_ok)
  moreover have "gtid_merge g u (f u) = g @ [(u, f u)]"
    using Cons.prems by (simp add: gtid_merge_def gm_at_fresh gm_put_fresh normalize_id)
  moreover have "parse_parts (g @ [(u, f u)]) (map (\<lambda>u. gtid_part_String u (f u)) us)
      = Ok ((g @ [(u, f u)]) @ map (\<lambda>u. (u, f u)) us)"
    using Cons.prems by (intro Cons.IH) auto
  ultimately show ?case by simp
qed simp

lemma GTID_roundtrip:
  assumes wf: "gtid_wf g" and pr: "list_all printable g"
  shows "ParseGTID (GTID_String g) = Ok (gtid_canon g)"
proof (cases "g = []")
  case True
  then show ?thesis by (simp add: ParseGTID_def GTID_String_def gtid_canon_def)
next
  case False
  let ?us = "sort (map fst g)" and ?f = "gm_at [] g"
  let ?parts = "map (\<lambda>u. gtid_part_String u (?f u)) ?us"
  have each: "printable (u, ?f u) \<and> ?f u \<noteq> [] \<and> iv_normal (?f u)" if "u \<in> set ?us" for u
  proof -
    from that obtain ivs where mem: "(u, ivs) \<in> set g" by auto
    with wf have "map_of g u = Some ivs" by (simp add: gtid_wf_def gm_wf_def)
    with mem wf pr show ?thesis by (auto simp: gm_at_def gtid_wf_lookup list_all_iff)
  qed
  have "?us \<noteq> []" using False by (metis map_is_Nil_conv set_empty set_sort)
  then have parts: "split_on CHR '','' (GTID_String g) = ?parts"
    unfolding GTID_String_def using each part_no_comma
    by (subst split_on_join) (simp_all del: set_sort)
  have "GTID_String g \<noteq> []"
  proof
    assume "GTID_String g = []"
    with parts have "[] \<in> set ?parts" by (metis list.set_intros(1) split_on.simps(1))
    then obtain u where u: "u \<in> set ?us" "gtid_part_String u (?f u) = []"
      by (metis (no_types, lifting) imageE list.set_map)
    from each [OF u(1)] u(2) show False by (cases "?f u") (auto simp: gtid_part_String_def)
  qed
  moreover have "parse_parts [] ?parts = Ok ([] @ map (\<lambda>u. (u, ?f u)) ?us)"
    using wf each by (intro parse_parts_printable) (auto simp: gtid_wf_def gm_wf_def)
  ultimately show ?thesis by (simp add: ParseGTID_def parts gtid_canon_def)
qed

lemma map_of_gtid_canon: "gm_wf g \<Longrightarrow> map_of (gtid_canon g) = map_of g"
proof (rule ext)
  fix u assume "gm_wf g"
  have "map_of (map (\<lambda>u. (u, f u)) us) u = (if u \<in> set us then Some (f u) else None)"
    for f :: "string \<Rightarrow> interval list" and us
    by (induction us) auto
  then have "map_of (gtid_canon g) u = (if u \<in> fst ` set g then Some (gm_at [] g u) else None)"
    by (simp add: gtid_canon_def)
  also have "\<dots> = map_of g u"
    by (cases "map_of g u") (auto simp: gm_at_def keys_dom domIff)
  finally show "map_of (gtid_canon g) u = map_of g u" .
qed

text \<open>
  An untagged uuid with several intervals is the exception: its printed form has three segments
  or more, so the first interval is read back as a tag and its transactions are lost.
\<close>

lemma gtid_part_first_as_tag:
  "gtid_part_String u (iv # ivs) = gtid_part_String (u @ CHR '':'' # interval_String iv) ivs"
  by (simp add: gtid_part_String_def)

lemma GTID_first_interval_lost:
  assumes "validUUID u" "iv_normal (iv # ivs)" "ivs \<noteq> []"
  shows "ParseGTID (GTID_String [(u, iv # ivs)]) = Ok [(u @ CHR '':'' # interval_String iv, ivs)]"
proof -
  let ?k = "u @ CHR '':'' # interval_String iv"
  have str: "GTID_String [(u, iv # ivs)] = GTID_String [(?k, ivs)]"
    by (simp add: GTID_String_def gm_at_def gtid_part_first_as_tag)
  have "CHR '':'' \<notin> set u" using validUUID_chars [OF assms(1)] by auto
  then have "split_on CHR '':'' ?k = [u, interval_String iv]"
    by (simp add: split_on_append split_on_free interval_String_chars)
  then have "list_all printable [(?k, ivs)]"
    using assms(1) by (simp add: printable_def interval_String_chars)
  moreover have "gtid_wf [(?k, ivs)]"
    using assms by (simp add: gtid_wf_def iv_normal_Cons)
  ultimately have "ParseGTID (GTID_String [(?k, ivs)]) = Ok (gtid_canon [(?k, ivs)])"
    by (intro GTID_roundtrip)
  then show ?thesis unfolding str by (simp add: gtid_canon_def gm_at_def)
qed

section \<open>What the parser accepts\<close>

lemma parseInterval_ok: "parseInterval s = Ok iv \<Longrightarrow> iv_ok iv"
  by (auto simp: parseInterval_def iv_ok_def mk_interval_def Let_def
      split: option.splits if_splits prod.splits)

lemma parseIntervals_ok:
  "parseIntervals ss = Ok ivs \<Longrightarrow> list_all iv_ok ivs \<and> length ivs = length ss"
  by (induction ss arbitrary: ivs) (auto simp: res_bind_Ok_conv parseInterval_ok)

lemma parse_part_Ok:
  assumes "parse_part p = Ok (k, ivs)"
  shows "list_all iv_ok ivs \<and> ivs \<noteq> [] \<and>
    (\<exists>segs. segs = split_on CHR '':'' (TrimSpace p) \<and> validUUID (segs ! 0) \<and>
       (k = segs ! 0 \<and> length segs = 2 \<or> k = segs ! 0 @ CHR '':'' # segs ! 1 \<and> 3 \<le> length segs))"
  using assms
  by (auto simp: parse_part_def Let_def res_bind_Ok_conv split: if_splits dest!: parseIntervals_ok)

lemma parse_parts_wf: "parse_parts g ps = Ok g' \<Longrightarrow> gtid_wf g \<Longrightarrow> gtid_wf g'"
  by (induction g ps rule: parse_parts.induct)
    (auto simp: res_bind_Ok_conv gtid_wf_merge dest!: parse_part_Ok)

lemma ParseGTID_wf: "ParseGTID s = Ok g \<Longrightarrow> gtid_wf g"
  by (auto simp: ParseGTID_def gtid_wf_def split: if_splits dest!: parse_parts_wf)

text \<open>Every key the parser makes is a uuid or a uuid and a tag with no separator in it.\<close>

definition gtid_key :: "string \<Rightarrow> bool" where
  "gtid_key k =
     (case split_on CHR '':'' k of
        [u] \<Rightarrow> validUUID u
      | [u, t] \<Rightarrow> validUUID u \<and> CHR '','' \<notin> set t
      | _ \<Rightarrow> False)"

lemma parse_part_key:
  assumes "parse_part p = Ok (k, ivs)" "CHR '','' \<notin> set p"
  shows "gtid_key k"
proof -
  define segs where "segs = split_on CHR '':'' (TrimSpace p)"
  from parse_part_Ok [OF assms(1)] have v: "validUUID (segs ! 0)"
    and k: "k = segs ! 0 \<and> length segs = 2 \<or> k = segs ! 0 @ CHR '':'' # segs ! 1 \<and> 3 \<le> length segs"
    by (auto simp: segs_def)
  have colon: "CHR '':'' \<notin> set (segs ! i)" and comma: "CHR '','' \<notin> set (segs ! i)"
    if "i < length segs" for i
  proof -
    from that have "segs ! i \<in> set (split_on CHR '':'' (TrimSpace p))" by (simp add: segs_def)
    then have "CHR '':'' \<notin> set (segs ! i)" "set (segs ! i) \<subseteq> set (TrimSpace p)"
      by (rule split_on_free_elem, rule split_on_subset)
    with assms(2) set_TrimSpace [of p]
    show "CHR '':'' \<notin> set (segs ! i)" "CHR '','' \<notin> set (segs ! i)" by auto
  qed
  from k show ?thesis
  proof
    assume "k = segs ! 0 \<and> length segs = 2"
    with v colon [of 0] show ?thesis by (simp add: gtid_key_def split_on_free)
  next
    assume two: "k = segs ! 0 @ CHR '':'' # segs ! 1 \<and> 3 \<le> length segs"
    then have "0 < length segs" "1 < length segs" by auto
    with two have "split_on CHR '':'' k = [segs ! 0, segs ! 1]" "CHR '','' \<notin> set (segs ! 1)"
      using colon comma by (simp_all add: split_on_append split_on_free)
    with v show ?thesis by (simp add: gtid_key_def)
  qed
qed

lemma parse_parts_keys:
  "parse_parts g ps = Ok g' \<Longrightarrow> \<forall>p\<in>set ps. CHR '','' \<notin> set p \<Longrightarrow>
     \<forall>k\<in>fst ` set g. gtid_key k \<Longrightarrow> \<forall>k\<in>fst ` set g'. gtid_key k"
proof (induction g ps rule: parse_parts.induct)
  case (2 g p ps)
  then obtain k ivs where p: "parse_part p = Ok (k, ivs)"
    and rest: "parse_parts (gtid_merge g k ivs) ps = Ok g'"
    by (auto simp: res_bind_Ok_conv)
  have "gtid_key k" using parse_part_key [OF p] "2.prems" by simp
  then have "\<forall>k\<in>fst ` set (gtid_merge g k ivs). gtid_key k"
    using "2.prems" unfolding gtid_merge_def keys_gm_put by blast
  with 2 p rest show ?case by auto
qed simp

lemma ParseGTID_keys: "ParseGTID s = Ok g \<Longrightarrow> k \<in> fst ` set g \<Longrightarrow> gtid_key k"
  using parse_parts_keys [of "[]" "split_on CHR '','' s" g]
  by (auto simp: ParseGTID_def split_on_free_elem split: if_splits)

lemma gtid_key_printable:
  "gtid_key k \<Longrightarrow> CHR '':'' \<in> set k \<or> length ivs = 1 \<Longrightarrow> printable (k, ivs)"
proof -
  assume k: "gtid_key k" and "CHR '':'' \<in> set k \<or> length ivs = 1"
  moreover have "CHR '':'' \<notin> set k" if "split_on CHR '':'' k = [u]" for u
    using that join_split_on [of "CHR '':''" k] split_on_free_elem [of u "CHR '':''" k] by auto
  ultimately show ?thesis by (auto simp: gtid_key_def printable_def split: list.splits)
qed

end
