(* ===== verification/Position_Offsets.thy ===== *)
theory Position_Offsets
  imports Position_LSN
begin

text \<open>
  \<open>position/offsets.go\<close>: Kafka offsets, one per partition of every topic. The definitions are the
  operations of the file, from \<open>Set\<close> to the JSON shapes. The lemmas show that \<open>Contains\<close> is the
  pointwise order on known offsets, that \<open>Meet\<close> is the greatest lower bound of that order, and
  that both wire forms read back what was written.
\<close>

type_synonym parts = "(int, int) gomap"

type_synonym offsets = "(string, parts) gomap"

section \<open>Operations\<close>

definition NewOffsets :: "string \<Rightarrow> parts \<Rightarrow> offsets" where
  "NewOffsets topic ps = [(topic, ps)]"

definition Offsets_Set :: "offsets \<Rightarrow> string \<Rightarrow> int \<Rightarrow> int \<Rightarrow> offsets" where
  "Offsets_Set os topic part offset =
     gm_put topic (gm_put part offset (gm_at [] os topic)) os"

fun copy_map :: "('k, 'v) gomap \<Rightarrow> ('k, 'v) gomap \<Rightarrow> ('k, 'v) gomap" where
  "copy_map acc [] = acc"
| "copy_map acc ((k, v) # m) = copy_map (gm_put k v acc) m"

definition Offsets_Clone :: "offsets \<Rightarrow> offsets" where
  "Offsets_Clone os = copy_map [] (map (\<lambda>(t, ps). (t, copy_map [] ps)) os)"

definition topicNames :: "offsets \<Rightarrow> string list" where
  "topicNames os = sort (map fst os)"

definition parse_pair :: "string \<Rightarrow> (pos_err, int \<times> int) res" where
  "parse_pair pair =
     (case cut_at CHR ''='' pair of
        None \<Rightarrow> Err ErrPair
      | Some (k, v) \<Rightarrow>
          (case ParseInt 10 32 (TrimPrefix CHR ''p'' k) of
             None \<Rightarrow> Err ErrPartition
           | Some p \<Rightarrow>
               (case ParseInt 10 64 v of
                  None \<Rightarrow> Err ErrOffset
                | Some off \<Rightarrow> Ok (p, off))))"

fun parse_pairs :: "parts \<Rightarrow> string list \<Rightarrow> (pos_err, parts) res" where
  "parse_pairs ps [] = Ok ps"
| "parse_pairs ps (s # ss) =
     res_bind (parse_pair s) (\<lambda>(p, off). parse_pairs (gm_put p off ps) ss)"

fun parse_topics :: "offsets \<Rightarrow> string list \<Rightarrow> (pos_err, offsets) res" where
  "parse_topics os [] = Ok os"
| "parse_topics os (topicStr # rest) =
     (case cut_at CHR '':'' topicStr of
        None \<Rightarrow> Err ErrForm
      | Some (topic, partsStr) \<Rightarrow>
          res_bind (if partsStr \<noteq> [] then parse_pairs [] (split_on CHR '','' partsStr) else Ok [])
            (\<lambda>ps. if gm_has os topic then Err ErrDuplicateTopic
                  else parse_topics (gm_put topic ps os) rest))"

definition ParseOffsets :: "string \<Rightarrow> (pos_err, offsets) res" where
  "ParseOffsets s = (if s = [] then Ok [] else parse_topics [] (split_on CHR '';'' s))"

definition pair_String :: "int \<Rightarrow> int \<Rightarrow> string" where
  "pair_String p off = CHR ''p'' # FormatInt p @ CHR ''='' # FormatInt off"

definition topic_String :: "string \<Rightarrow> parts \<Rightarrow> string" where
  "topic_String topic ps =
     topic @ CHR '':'' #
       join_with CHR '','' (map (\<lambda>p. pair_String p (gm_at 0 ps p)) (sort (map fst ps)))"

definition Offsets_String :: "offsets \<Rightarrow> string" where
  "Offsets_String os =
     join_with CHR '';'' (map (\<lambda>t. topic_String t (gm_at [] os t)) (topicNames os))"

definition Offsets_Contains :: "offsets \<Rightarrow> offsets \<Rightarrow> bool" where
  "Offsets_Contains os oth =
     (\<forall>(topic, theirs)\<in>set oth.
        \<not> (\<not> gm_has os topic \<and> length theirs > 0) \<and>
        (\<forall>(p, off)\<in>set theirs.
           case map_of (gm_at [] os topic) p of None \<Rightarrow> False | Some my \<Rightarrow> \<not> my < off))"

definition Offsets_Compare :: "offsets \<Rightarrow> offsets \<Rightarrow> int" where
  "Offsets_Compare os oth =
     (let fwd = Offsets_Contains os oth; rv = Offsets_Contains oth os in
      if fwd \<and> rv then 0 else if fwd then 1 else if rv then - 1 else Incomparable)"

fun meet_parts :: "parts \<Rightarrow> parts \<Rightarrow> parts \<Rightarrow> parts" where
  "meet_parts acc [] theirs = acc"
| "meet_parts acc ((p, myOff) # mine) theirs =
     (case map_of theirs p of
        None \<Rightarrow> meet_parts acc mine theirs
      | Some theirOff \<Rightarrow> meet_parts (gm_put p (min myOff theirOff) acc) mine theirs)"

fun meet_topics :: "offsets \<Rightarrow> offsets \<Rightarrow> offsets \<Rightarrow> offsets" where
  "meet_topics met [] oth = met"
| "meet_topics met ((topic, mine) # os) oth =
     (case map_of oth topic of
        None \<Rightarrow> meet_topics met os oth
      | Some theirs \<Rightarrow> meet_topics (gm_put topic (meet_parts [] mine theirs) met) os oth)"

definition Offsets_Meet :: "offsets \<Rightarrow> offsets \<Rightarrow> offsets" where
  "Offsets_Meet os oth = meet_topics [] os oth"

text \<open>
  The JSON shapes: \<open>topicJSON\<close> and \<open>partJSON\<close>, and the document \<open>UnmarshalJSON\<close> decodes twice,
  once as the current form and once as the legacy single-topic form. The byte syntax of JSON is
  the standard library's; \<open>offsetsDoc\<close> holds what the two decodes give, the first failing as
  \<open>None\<close> of the whole document and the second as \<open>None\<close> of \<open>doc_legacy\<close>.
\<close>

record partJSON =
  pj_partition :: int
  pj_offset :: int

record topicJSON =
  tj_topic :: string
  tj_parts :: "partJSON list"

record offsetsDoc =
  doc_topics :: "topicJSON list"
  doc_legacy :: "topicJSON option"

definition topicJSON_of :: "string \<Rightarrow> parts \<Rightarrow> topicJSON" where
  "topicJSON_of topic ps =
     \<lparr>tj_topic = topic,
      tj_parts = sort_key pj_partition (map (\<lambda>(p, off). \<lparr>pj_partition = p, pj_offset = off\<rparr>) ps)\<rparr>"

definition MarshalJSON :: "offsets \<Rightarrow> topicJSON list" where
  "MarshalJSON os = map (\<lambda>t. topicJSON_of t (gm_at [] os t)) (topicNames os)"

definition parts_of_JSON :: "partJSON list \<Rightarrow> parts" where
  "parts_of_JSON ps = copy_map [] (map (\<lambda>p. (pj_partition p, pj_offset p)) ps)"

definition topics_of_JSON :: "topicJSON list \<Rightarrow> offsets" where
  "topics_of_JSON ts = copy_map [] (map (\<lambda>tj. (tj_topic tj, parts_of_JSON (tj_parts tj))) ts)"

definition UnmarshalJSON :: "offsetsDoc option \<Rightarrow> offsets option" where
  "UnmarshalJSON data =
     (case data of
        None \<Rightarrow> None
      | Some raw \<Rightarrow>
          (case (doc_topics raw, doc_legacy raw) of
             ([], Some l) \<Rightarrow>
               if tj_topic l \<noteq> [] then Some [(tj_topic l, parts_of_JSON (tj_parts l))]
               else Some (topics_of_JSON (doc_topics raw))
           | _ \<Rightarrow> Some (topics_of_JSON (doc_topics raw))))"

section \<open>The offsets a position knows\<close>

definition offsets_wf :: "offsets \<Rightarrow> bool" where
  "offsets_wf os \<longleftrightarrow> gm_wf os \<and> (\<forall>(t, ps)\<in>set os. gm_wf ps)"

definition off_at :: "offsets \<Rightarrow> string \<Rightarrow> int \<Rightarrow> int option" where
  "off_at os t p = map_of (gm_at [] os t) p"

lemma offsets_wf_lookup: "offsets_wf os \<Longrightarrow> map_of os t = Some ps \<Longrightarrow> gm_wf ps"
  by (auto simp: offsets_wf_def dest!: map_of_SomeD)

lemma offsets_wf_at: "offsets_wf os \<Longrightarrow> gm_wf (gm_at [] os t)"
  by (auto simp: gm_at_def dest: offsets_wf_lookup split: option.split)

lemma offsets_wf_put: "offsets_wf os \<Longrightarrow> gm_wf ps \<Longrightarrow> offsets_wf (gm_put t ps os)"
  unfolding offsets_wf_def
  by (auto simp: gm_wf_lookup [OF gm_wf_put] gm_wf_lookup split: if_splits)

lemma off_at_put: "off_at (gm_put t ps os) t' p = (if t' = t then map_of ps p else off_at os t' p)"
  by (simp add: off_at_def)

lemma off_at_Nil [simp]: "off_at [] t p = None"
  by (simp add: off_at_def)

lemma Offsets_Set_lookup:
  "off_at (Offsets_Set os t p off) t' p' = (if t' = t \<and> p' = p then Some off else off_at os t' p')"
  by (simp add: Offsets_Set_def off_at_def)

lemma Offsets_Set_wf: "offsets_wf os \<Longrightarrow> offsets_wf (Offsets_Set os t p off)"
  by (simp add: Offsets_Set_def offsets_wf_put offsets_wf_at)

lemma copy_map_fresh:
  "gm_wf m \<Longrightarrow> fst ` set m \<inter> fst ` set acc = {} \<Longrightarrow> copy_map acc m = acc @ m"
  by (induction acc m rule: copy_map.induct) (auto simp: gm_put_fresh)

lemma copy_map_id: "gm_wf m \<Longrightarrow> copy_map [] m = m"
  by (simp add: copy_map_fresh)

lemma Offsets_Clone_id: "offsets_wf os \<Longrightarrow> Offsets_Clone os = os"
proof -
  assume wf: "offsets_wf os"
  then have "map (\<lambda>(t, ps). (t, copy_map [] ps)) os = os"
    by (intro map_idI) (auto simp: offsets_wf_def copy_map_id)
  with wf show ?thesis by (simp add: Offsets_Clone_def copy_map_id offsets_wf_def)
qed

subsection \<open>Containment is pointwise\<close>

lemma Offsets_Contains_iff:
  assumes "offsets_wf oth"
  shows "Offsets_Contains os oth \<longleftrightarrow>
    (\<forall>t p off. off_at oth t p = Some off \<longrightarrow> (\<exists>my. off_at os t p = Some my \<and> off \<le> my))"
    (is "?L \<longleftrightarrow> ?R")
proof
  assume L: ?L
  show ?R
  proof (intro allI impI)
    fix t p off assume "off_at oth t p = Some off"
    then obtain theirs where t: "(t, theirs) \<in> set oth" and p: "(p, off) \<in> set theirs"
      by (auto simp: off_at_def gm_at_def split: option.splits dest!: map_of_SomeD)
    from L t have "\<forall>(p, off)\<in>set theirs.
        case map_of (gm_at [] os t) p of None \<Rightarrow> False | Some my \<Rightarrow> \<not> my < off"
      by (auto simp: Offsets_Contains_def)
    with p have "case map_of (gm_at [] os t) p of None \<Rightarrow> False | Some my \<Rightarrow> \<not> my < off" by auto
    then show "\<exists>my. off_at os t p = Some my \<and> off \<le> my"
      by (auto simp: off_at_def split: option.splits)
  qed
next
  assume R: ?R
  have "\<exists>my. map_of (gm_at [] os t) p = Some my \<and> off \<le> my"
    if "(t, theirs) \<in> set oth" "(p, off) \<in> set theirs" for t theirs p off
  proof -
    from that assms have "map_of oth t = Some theirs" "gm_wf theirs"
      by (auto simp: offsets_wf_def gm_wf_lookup)
    with that have "off_at oth t p = Some off"
      by (simp add: off_at_def gm_at_def gm_wf_lookup)
    with R show ?thesis by (simp add: off_at_def)
  qed
  note known = this
  have "gm_has os t" if "(t, theirs) \<in> set oth" "theirs \<noteq> []" for t theirs
  proof (rule ccontr)
    from that(2) obtain p off where "(p, off) \<in> set theirs" by (cases theirs) force+
    moreover assume "\<not> gm_has os t"
    ultimately show False
      using known [OF that(1)] by (auto simp: gm_has_def gm_at_def)
  qed
  moreover have "case map_of (gm_at [] os t) p of None \<Rightarrow> False | Some my \<Rightarrow> \<not> my < off"
    if "(t, theirs) \<in> set oth" "(p, off) \<in> set theirs" for t theirs p off
    using known [OF that] by auto
  ultimately show ?L
    unfolding Offsets_Contains_def by blast
qed

lemma Offsets_Contains_refl: "offsets_wf os \<Longrightarrow> Offsets_Contains os os"
  by (simp add: Offsets_Contains_iff)

lemma Offsets_Contains_trans:
  "offsets_wf b \<Longrightarrow> offsets_wf c \<Longrightarrow> Offsets_Contains a b \<Longrightarrow> Offsets_Contains b c \<Longrightarrow> Offsets_Contains a c"
  by (simp add: Offsets_Contains_iff) (meson order.trans)

lemma Offsets_Compare_Contains:
  "Offsets_Compare g oth = 0 \<longleftrightarrow> Offsets_Contains g oth \<and> Offsets_Contains oth g"
  "Offsets_Compare g oth = Incomparable \<longleftrightarrow> \<not> Offsets_Contains g oth \<and> \<not> Offsets_Contains oth g"
  "Offsets_Compare g oth < 0 \<longleftrightarrow> Offsets_Contains oth g \<and> \<not> Offsets_Contains g oth"
  by (auto simp: Offsets_Compare_def Incomparable_def Let_def)

subsection \<open>\<open>Meet\<close> is the greatest lower bound\<close>

definition meet_opt :: "int option \<Rightarrow> int option \<Rightarrow> int option" where
  "meet_opt a b = (case (a, b) of (Some x, Some y) \<Rightarrow> Some (min x y) | _ \<Rightarrow> None)"

lemma meet_parts_lookup:
  "gm_wf mine \<Longrightarrow>
     map_of (meet_parts acc mine theirs) p =
       (case meet_opt (map_of mine p) (map_of theirs p) of None \<Rightarrow> map_of acc p | Some m \<Rightarrow> Some m)"
proof (induction acc mine theirs rule: meet_parts.induct)
  case (2 acc q myOff mine theirs)
  then have "map_of mine q = None" by (simp add: map_of_eq_None_iff)
  with 2 show ?case
    by (cases "map_of theirs q") (auto simp: meet_opt_def split: option.splits)
qed (simp add: meet_opt_def)

lemma meet_parts_wf: "gm_wf acc \<Longrightarrow> gm_wf (meet_parts acc mine theirs)"
  by (induction acc mine theirs rule: meet_parts.induct) (auto split: option.split)

lemma meet_topics_lookup:
  "offsets_wf os \<Longrightarrow>
     map_of (meet_topics met os oth) t =
       (case (map_of os t, map_of oth t) of
          (Some mine, Some theirs) \<Rightarrow> Some (meet_parts [] mine theirs)
        | _ \<Rightarrow> map_of met t)"
proof (induction met os oth rule: meet_topics.induct)
  case (2 met topic mine os oth)
  then have "map_of os topic = None" "offsets_wf os"
    by (auto simp: map_of_eq_None_iff offsets_wf_def)
  with 2 show ?case
    by (cases "map_of oth topic") (auto split: option.splits)
qed simp

lemma meet_topics_wf: "offsets_wf met \<Longrightarrow> offsets_wf (meet_topics met os oth)"
  by (induction met os oth rule: meet_topics.induct)
    (auto simp: offsets_wf_put meet_parts_wf split: option.split)

lemma Offsets_Meet_wf: "offsets_wf (Offsets_Meet os oth)"
  unfolding Offsets_Meet_def by (rule meet_topics_wf) (simp add: offsets_wf_def)

lemma Offsets_Meet_at:
  assumes "offsets_wf os"
  shows "off_at (Offsets_Meet os oth) t p = meet_opt (off_at os t p) (off_at oth t p)"
proof -
  have "gm_wf mine" if "map_of os t = Some mine" for mine
    using assms that by (rule offsets_wf_lookup)
  then show ?thesis
    by (auto simp: off_at_def gm_at_def Offsets_Meet_def meet_topics_lookup [OF assms]
        meet_parts_lookup meet_opt_def split: option.splits)
qed

lemma Offsets_Meet_greatest:
  assumes "offsets_wf a" "offsets_wf b" "offsets_wf c"
  shows "Offsets_Contains a (Offsets_Meet a b)" "Offsets_Contains b (Offsets_Meet a b)"
    and "Offsets_Contains a c \<Longrightarrow> Offsets_Contains b c \<Longrightarrow> Offsets_Contains (Offsets_Meet a b) c"
proof -
  note iff = Offsets_Contains_iff [OF Offsets_Meet_wf] Offsets_Contains_iff [OF assms(3)]
  show "Offsets_Contains a (Offsets_Meet a b)" "Offsets_Contains b (Offsets_Meet a b)"
    by (auto simp: iff Offsets_Meet_at [OF assms(1)] meet_opt_def split: option.splits)
  assume ac: "Offsets_Contains a c" and bc: "Offsets_Contains b c"
  show "Offsets_Contains (Offsets_Meet a b) c"
    unfolding iff Offsets_Meet_at [OF assms(1)]
  proof (intro allI impI)
    fix t p off assume "off_at c t p = Some off"
    with ac bc obtain x y where "off_at a t p = Some x" "off_at b t p = Some y" "off \<le> x" "off \<le> y"
      unfolding iff by meson
    then show "\<exists>my. meet_opt (off_at a t p) (off_at b t p) = Some my \<and> off \<le> my"
      by (simp add: meet_opt_def)
  qed
qed

section \<open>The wire forms\<close>

definition parts_canon :: "parts \<Rightarrow> parts" where
  "parts_canon ps = sort_key fst ps"

definition offsets_canon :: "offsets \<Rightarrow> offsets" where
  "offsets_canon os = map (\<lambda>(t, ps). (t, parts_canon ps)) (sort_key fst os)"

text \<open>What the text form can carry: topic names free of its separators, offsets in range.\<close>

definition part_ok :: "int \<times> int \<Rightarrow> bool" where
  "part_ok q \<longleftrightarrow> - (2 ^ 31) \<le> fst q \<and> fst q < 2 ^ 31 \<and> - (2 ^ 63) \<le> snd q \<and> snd q < 2 ^ 63"

definition topic_ok :: "string \<times> parts \<Rightarrow> bool" where
  "topic_ok t \<longleftrightarrow>
     CHR '':'' \<notin> set (fst t) \<and> CHR '';'' \<notin> set (fst t) \<and> list_all part_ok (snd t)"

lemma pair_String_chars:
  "CHR '','' \<notin> set (pair_String p off)" "CHR '';'' \<notin> set (pair_String p off)"
  unfolding pair_String_def by (auto dest: FormatInt_no_sep [THEN notE, rotated 2])

lemma parse_pair_String: "part_ok (p, off) \<Longrightarrow> parse_pair (pair_String p off) = Ok (p, off)"
proof -
  assume ok: "part_ok (p, off)"
  have "CHR ''='' \<notin> set (CHR ''p'' # FormatInt p)"
    using FormatInt_no_sep [of "CHR ''=''" p] by simp
  then have "cut_at CHR ''='' (pair_String p off) = Some (CHR ''p'' # FormatInt p, FormatInt off)"
    unfolding pair_String_def by (metis append_Cons cut_at_append)
  moreover have "ParseInt 10 32 (FormatInt p) = Some p" "ParseInt 10 64 (FormatInt off) = Some off"
    using ok by (simp_all add: ParseInt_FormatInt part_ok_def)
  ultimately show ?thesis by (simp add: parse_pair_def)
qed

lemma parse_pairs_String:
  "gm_wf ps \<Longrightarrow> fst ` set ps \<inter> fst ` set acc = {} \<Longrightarrow> list_all part_ok ps \<Longrightarrow>
     parse_pairs acc (map (\<lambda>(p, off). pair_String p off) ps) = Ok (acc @ ps)"
proof (induction ps arbitrary: acc)
  case (Cons q ps)
  obtain p off where q: "q = (p, off)" by force
  with Cons.prems have "parse_pair (pair_String p off) = Ok (p, off)" "gm_put p off acc = acc @ [(p, off)]"
    by (simp_all add: parse_pair_String gm_put_fresh)
  moreover have "parse_pairs (acc @ [(p, off)]) (map (\<lambda>(p, off). pair_String p off) ps)
      = Ok ((acc @ [(p, off)]) @ ps)"
    using Cons.prems q by (intro Cons.IH) auto
  ultimately show ?case by (simp add: q)
qed simp

lemma topic_String_canon:
  assumes "gm_wf ps"
  shows "topic_String t ps =
    t @ CHR '':'' # join_with CHR '','' (map (\<lambda>(p, off). pair_String p off) (parts_canon ps))"
proof -
  have "map (\<lambda>p. pair_String p (gm_at 0 ps p)) (sort (map fst ps))
      = map (\<lambda>(p, off). pair_String p off) (map (\<lambda>p. (p, gm_at 0 ps p)) (sort (map fst ps)))"
    by simp
  then show ?thesis
    by (simp only: topic_String_def gm_sorted_pairs [OF assms] parts_canon_def)
qed

lemma parse_topic_String:
  assumes "topic_ok (t, ps)" "gm_wf ps" "\<not> gm_has os t"
  shows "parse_topics os (topic_String t ps # rest) = parse_topics (gm_put t (parts_canon ps) os) rest"
proof -
  let ?pairs = "map (\<lambda>(p, off). pair_String p off) (parts_canon ps)"
  have "CHR '':'' \<notin> set t" using assms(1) by (simp add: topic_ok_def)
  then have cut: "cut_at CHR '':'' (topic_String t ps) = Some (t, join_with CHR '','' ?pairs)"
    unfolding topic_String_canon [OF assms(2)] by (rule cut_at_append)
  have body: "(if join_with CHR '','' ?pairs \<noteq> [] then parse_pairs [] (split_on CHR '','' (join_with CHR '','' ?pairs)) else Ok [])
      = Ok (parts_canon ps)"
  proof (cases "parts_canon ps")
    case (Cons q qs)
    then have "split_on CHR '','' (join_with CHR '','' ?pairs) = ?pairs"
      by (intro split_on_join) (auto simp: pair_String_chars)
    moreover have "join_with CHR '','' ?pairs \<noteq> []"
      using Cons by (cases qs) (auto simp: pair_String_def split: prod.splits)
    moreover have "parse_pairs [] ?pairs = Ok ([] @ parts_canon ps)"
      using assms(1,2)
      by (intro parse_pairs_String) (auto simp: parts_canon_def gm_wf_sort_key topic_ok_def list_all_iff)
    ultimately show ?thesis by simp
  qed simp
  show ?thesis using assms(3) by (simp add: cut body)
qed

lemma parse_topics_String:
  "offsets_wf os \<Longrightarrow> fst ` set os \<inter> fst ` set acc = {} \<Longrightarrow> list_all topic_ok os \<Longrightarrow>
     parse_topics acc (map (\<lambda>(t, ps). topic_String t ps) os)
       = Ok (acc @ map (\<lambda>(t, ps). (t, parts_canon ps)) os)"
proof (induction os arbitrary: acc)
  case (Cons q os)
  obtain t ps where q: "q = (t, ps)" by force
  with Cons.prems have fresh: "t \<notin> fst ` set acc" "gm_wf ps" "topic_ok (t, ps)"
    by (auto simp: offsets_wf_def)
  then have "parse_topics acc (map (\<lambda>(t, ps). topic_String t ps) (q # os))
      = parse_topics (acc @ [(t, parts_canon ps)]) (map (\<lambda>(t, ps). topic_String t ps) os)"
    by (simp add: q parse_topic_String gm_has_def gm_put_fresh keys_dom domIff
        del: parse_topics.simps)
  also have "\<dots> = Ok ((acc @ [(t, parts_canon ps)]) @ map (\<lambda>(t, ps). (t, parts_canon ps)) os)"
    using Cons.prems q by (intro Cons.IH) (auto simp: offsets_wf_def)
  finally show ?case by (simp add: q)
qed simp

lemma topic_String_no_semicolon: "topic_ok (t, ps) \<Longrightarrow> gm_wf ps \<Longrightarrow> CHR '';'' \<notin> set (topic_String t ps)"
  unfolding topic_String_canon
  using set_join_with [of "CHR '',''" "map (\<lambda>(p, off). pair_String p off) (parts_canon ps)"]
  by (auto simp: topic_ok_def pair_String_chars)

lemma Offsets_String_sorted:
  assumes "gm_wf os"
  shows "Offsets_String os = join_with CHR '';'' (map (\<lambda>(t, ps). topic_String t ps) (sort_key fst os))"
proof -
  have "map (\<lambda>t. topic_String t (gm_at [] os t)) (topicNames os)
      = map (\<lambda>(t, ps). topic_String t ps) (map (\<lambda>t. (t, gm_at [] os t)) (sort (map fst os)))"
    by (simp add: topicNames_def)
  then show ?thesis by (simp only: Offsets_String_def gm_sorted_pairs [OF assms])
qed

lemma Offsets_text_roundtrip:
  assumes wf: "offsets_wf os" and ok: "list_all topic_ok os"
  shows "ParseOffsets (Offsets_String os) = Ok (offsets_canon os)"
proof (cases "os = []")
  case True
  then show ?thesis
    by (simp add: ParseOffsets_def Offsets_String_def topicNames_def offsets_canon_def)
next
  case False
  let ?ts = "sort_key fst os"
  let ?strs = "map (\<lambda>(t, ps). topic_String t ps) ?ts"
  have ts: "offsets_wf ?ts" "list_all topic_ok ?ts" "?strs \<noteq> []"
    using wf ok False set_sort [of fst os]
    by (auto simp: offsets_wf_def gm_wf_sort_key list_all_iff simp del: set_sort set_empty
        simp flip: set_empty)
  then have no_semi: "CHR '';'' \<notin> set x" if "x \<in> set ?strs" for x
    using that by (auto simp: offsets_wf_def list_all_iff dest!: topic_String_no_semicolon)
  then have split: "split_on CHR '';'' (Offsets_String os) = ?strs"
    using wf ts(3) by (simp only: Offsets_String_sorted offsets_wf_def) (intro split_on_join ballI)
  have "Offsets_String os \<noteq> []"
  proof
    assume "Offsets_String os = []"
    with split have "[] \<in> set ?strs" by (metis list.set_intros(1) split_on.simps(1))
    then show False by (auto simp: topic_String_def)
  qed
  moreover have "parse_topics [] ?strs = Ok ([] @ map (\<lambda>(t, ps). (t, parts_canon ps)) ?ts)"
    using ts by (intro parse_topics_String) simp_all
  ultimately show ?thesis by (simp add: ParseOffsets_def split offsets_canon_def)
qed

lemma parse_pairs_wf: "parse_pairs ps ss = Ok ps' \<Longrightarrow> gm_wf ps \<Longrightarrow> gm_wf ps'"
  by (induction ps ss rule: parse_pairs.induct) (auto simp: res_bind_Ok_conv)

lemma parse_topics_wf: "parse_topics os ss = Ok os' \<Longrightarrow> offsets_wf os \<Longrightarrow> offsets_wf os'"
proof (induction os ss rule: parse_topics.induct)
  case (2 os topicStr rest)
  then obtain t str ps where cut: "cut_at CHR '':'' topicStr = Some (t, str)"
    and ps: "(if str \<noteq> [] then parse_pairs [] (split_on CHR '','' str) else Ok []) = Ok ps"
    and rest: "\<not> gm_has os t" "parse_topics (gm_put t ps os) rest = Ok os'"
    by (auto simp: res_bind_Ok_conv split: option.splits if_splits)
  from ps have "gm_wf ps" by (auto split: if_splits dest: parse_pairs_wf)
  with "2.prems" have "offsets_wf (gm_put t ps os)" by (intro offsets_wf_put)
  with "2.IH" [OF cut refl rest] show ?case .
qed simp

lemma ParseOffsets_wf: "ParseOffsets s = Ok os \<Longrightarrow> offsets_wf os"
  by (auto simp: ParseOffsets_def offsets_wf_def split: if_splits dest!: parse_topics_wf)

lemma off_at_canon: "offsets_wf os \<Longrightarrow> off_at (offsets_canon os) t p = off_at os t p"
proof -
  assume wf: "offsets_wf os"
  then have "map_of (sort_key fst os) t = map_of os t"
    by (simp add: map_of_sort_key offsets_wf_def)
  then have "map_of (offsets_canon os) t = map_option parts_canon (map_of os t)"
    by (simp add: offsets_canon_def map_of_map_snd)
  with wf show ?thesis
    by (auto simp: off_at_def gm_at_def parts_canon_def map_of_sort_key offsets_wf_lookup
        split: option.split)
qed

subsection \<open>JSON\<close>

lemma parts_of_JSON_topic: "gm_wf ps \<Longrightarrow> parts_of_JSON (tj_parts (topicJSON_of t ps)) = parts_canon ps"
proof -
  assume wf: "gm_wf ps"
  let ?mk = "\<lambda>(p, off). \<lparr>pj_partition = p, pj_offset = off\<rparr>"
  let ?un = "\<lambda>p. (pj_partition p, pj_offset p)"
  have "pj_partition \<circ> ?mk = fst" by (auto simp: fun_eq_iff)
  then have "sort_key pj_partition (map ?mk ps) = map ?mk (sort_key fst ps)"
    by (simp only: sort_key_map)
  then show ?thesis
    using wf by (simp add: topicJSON_of_def parts_of_JSON_def comp_def case_prod_unfold copy_map_id
        parts_canon_def gm_wf_sort_key)
qed

lemma tj_topic_of [simp]: "tj_topic (topicJSON_of t ps) = t"
  by (simp add: topicJSON_of_def)

lemma topics_of_MarshalJSON:
  assumes "offsets_wf os"
  shows "topics_of_JSON (MarshalJSON os) = offsets_canon os"
proof -
  have "MarshalJSON os = map (\<lambda>(t, ps). topicJSON_of t ps) (sort_key fst os)"
  proof -
    have "MarshalJSON os = map (\<lambda>(t, ps). topicJSON_of t ps)
        (map (\<lambda>t. (t, gm_at [] os t)) (sort (map fst os)))"
      by (simp add: MarshalJSON_def topicNames_def)
    with assms show ?thesis by (simp only: gm_sorted_pairs offsets_wf_def)
  qed
  then have "map (\<lambda>tj. (tj_topic tj, parts_of_JSON (tj_parts tj))) (MarshalJSON os) = offsets_canon os"
    using assms
    by (auto simp: offsets_canon_def offsets_wf_def parts_of_JSON_topic intro!: map_cong)
  moreover have "gm_wf (offsets_canon os)"
    using assms by (simp add: offsets_canon_def gm_wf_def offsets_wf_def comp_def case_prod_unfold map_fst_sort_key)
  ultimately show ?thesis by (simp add: topics_of_JSON_def copy_map_id)
qed

lemma Offsets_JSON_roundtrip:
  assumes "offsets_wf os" "\<forall>l. leg = Some l \<longrightarrow> tj_topic l = []"
  shows "UnmarshalJSON (Some \<lparr>doc_topics = MarshalJSON os, doc_legacy = leg\<rparr>) = Some (offsets_canon os)"
proof -
  have "topics_of_JSON (MarshalJSON os) = offsets_canon os"
    using assms(1) by (rule topics_of_MarshalJSON)
  with assms(2) show ?thesis
    by (auto simp: UnmarshalJSON_def split: list.split option.split)
qed

end
