(* ===== verification/Position_Fold.thy ===== *)
theory Position_Fold
  imports Position_GTID Position_Offsets
begin

text \<open>
  \<open>position/position.go\<close>: the \<open>Position\<close> interface over its four implementations (the fourth is
  the opaque plugin cookie of \<open>internal/plugin/source.go\<close>) and the folds that choose a resume
  point. A type switch that panics is \<open>None\<close>. The locale \<open>position_kind\<close> is what the folds rely
  on: within one kind nothing panics, \<open>Compare\<close> is decided by \<open>Contains\<close> in both directions, and a
  meet is a greatest lower bound. It is interpreted for every kind, so that the folds' lemmas, a
  minimum that every input contains, hold for all of them.
\<close>

datatype position =
    PLSN u64
  | PGTID gtid
  | POffsets offsets
  | PString string

section \<open>The interface\<close>

fun pos_String :: "position \<Rightarrow> string" where
  "pos_String (PLSN l) = LSN_String l"
| "pos_String (PGTID g) = GTID_String g"
| "pos_String (POffsets os) = Offsets_String os"
| "pos_String (PString s) = s"

fun Compare :: "position \<Rightarrow> position \<Rightarrow> int option" where
  "Compare (PLSN l) oth = (case oth of PLSN r \<Rightarrow> Some (LSN_Compare l r) | _ \<Rightarrow> None)"
| "Compare (PGTID g) oth = (case oth of PGTID h \<Rightarrow> Some (GTID_Compare g h) | _ \<Rightarrow> Some Incomparable)"
| "Compare (POffsets os) oth = (case oth of POffsets q \<Rightarrow> Some (Offsets_Compare os q) | _ \<Rightarrow> None)"
| "Compare (PString s) oth =
     (case oth of PString t \<Rightarrow> Some (if s \<noteq> t then Incomparable else 0) | _ \<Rightarrow> Some Incomparable)"

fun Contains :: "position \<Rightarrow> position \<Rightarrow> bool option" where
  "Contains (PLSN l) oth = (case oth of PLSN r \<Rightarrow> Some (LSN_Contains l r) | _ \<Rightarrow> None)"
| "Contains (PGTID g) oth = (case oth of PGTID h \<Rightarrow> Some (GTID_Contains g h) | _ \<Rightarrow> Some False)"
| "Contains (POffsets os) oth =
     (case oth of POffsets q \<Rightarrow> Some (Offsets_Contains os q) | _ \<Rightarrow> Some False)"
| "Contains (PString s) oth = (case oth of PString t \<Rightarrow> Some (s = t) | _ \<Rightarrow> Some False)"

definition StringOrNone :: "position option \<Rightarrow> string" where
  "StringOrNone p = (case p of None \<Rightarrow> ''none'' | Some q \<Rightarrow> pos_String q)"

text \<open>Only \<open>Offsets\<close> implements \<open>Meeter\<close>; \<open>meet\<close> asks the first side, then the second.\<close>

fun Meet :: "position \<Rightarrow> position \<Rightarrow> position option" where
  "Meet (POffsets a) (POffsets b) = Some (POffsets (Offsets_Meet a b))"
| "Meet _ _ = None"

definition pos_meet :: "position \<Rightarrow> position \<Rightarrow> position option" where
  "pos_meet a b = (case Meet a b of Some m \<Rightarrow> Some m | None \<Rightarrow> Meet b a)"

section \<open>The folds\<close>

fun Min_from :: "position \<Rightarrow> position list \<Rightarrow> position option" where
  "Min_from best [] = Some best"
| "Min_from best (p # ps) =
     (case Compare p best of
        None \<Rightarrow> None
      | Some c \<Rightarrow>
          if c = Incomparable then
            (case pos_meet p best of Some m \<Rightarrow> Min_from m ps | None \<Rightarrow> Min_from best ps)
          else if c < 0 then Min_from p ps
          else Min_from best ps)"

text \<open>\<open>Min\<close>: \<open>Some None\<close> for the empty list, \<open>None\<close> for a panic of \<open>Compare\<close>.\<close>

definition Min_pos :: "position list \<Rightarrow> position option option" where
  "Min_pos ps = (case ps of [] \<Rightarrow> Some None | p # rest \<Rightarrow> map_option Some (Min_from p rest))"

datatype safe_err = ErrIncomparable position position

fun MinSafe_from :: "position \<Rightarrow> position list \<Rightarrow> (safe_err, position) res" where
  "MinSafe_from best [] = Ok best"
| "MinSafe_from best (p # ps) =
     (case Compare p best of
        None \<Rightarrow> Panic
      | Some c \<Rightarrow>
          if c = Incomparable then
            (case pos_meet p best of
               Some m \<Rightarrow> MinSafe_from m ps
             | None \<Rightarrow> Err (ErrIncomparable p best))
          else if c < 0 then MinSafe_from p ps
          else MinSafe_from best ps)"

definition MinSafe :: "position list \<Rightarrow> (safe_err, position option) res" where
  "MinSafe ps =
     (case ps of
        [] \<Rightarrow> Ok None
      | p # rest \<Rightarrow> res_bind (MinSafe_from p rest) (\<lambda>m. Ok (Some m)))"

text \<open>\<open>Ahead\<close> with the panic of \<open>Compare\<close> as \<open>None\<close>; nil positions are skipped.\<close>

fun ahead_names :: "position \<Rightarrow> (string, position option) gomap \<Rightarrow> string list option" where
  "ahead_names global [] = Some []"
| "ahead_names global ((name, None) # ps) = ahead_names global ps"
| "ahead_names global ((name, Some p) # ps) =
     (case Compare p global of
        None \<Rightarrow> None
      | Some c \<Rightarrow> map_option (\<lambda>out. if c > 0 then name # out else out) (ahead_names global ps))"

definition Ahead :: "position option \<Rightarrow> (string, position option) gomap \<Rightarrow> string list option" where
  "Ahead global ps =
     (case global of None \<Rightarrow> Some [] | Some g \<Rightarrow> map_option sort (ahead_names g ps))"

definition map_res :: "('a \<Rightarrow> 'b) \<Rightarrow> ('e, 'a) res \<Rightarrow> ('e, 'b) res" where
  "map_res f r = (case r of Ok x \<Rightarrow> Ok (f x) | Err e \<Rightarrow> Err e | Panic \<Rightarrow> Panic)"

definition Parse :: "string \<Rightarrow> string \<Rightarrow> (pos_err, position) res" where
  "Parse kind s =
     (if kind = ''postgres'' then map_res PLSN (ParseLSN s)
      else if kind = ''kafka'' then map_res POffsets (ParseOffsets s)
      else if kind = '''' \<or> kind = ''mysql'' then map_res PGTID (ParseGTID s)
      else Err ErrSourceKind)"

section \<open>What a kind of position promises\<close>

text \<open>\<open>pos_le a b\<close>: everything \<open>a\<close> marks, \<open>b\<close> marks too.\<close>

definition pos_le :: "position \<Rightarrow> position \<Rightarrow> bool" where
  "pos_le a b \<longleftrightarrow> Contains b a = Some True"

locale position_kind =
  fixes K :: "position \<Rightarrow> bool"
  assumes le_refl: "K a \<Longrightarrow> pos_le a a"
    and le_trans: "K a \<Longrightarrow> K b \<Longrightarrow> K c \<Longrightarrow> pos_le a b \<Longrightarrow> pos_le b c \<Longrightarrow> pos_le a c"
    and contains_ok: "K a \<Longrightarrow> K b \<Longrightarrow> Contains b a = Some (pos_le a b)"
    and compare_ok: "K a \<Longrightarrow> K b \<Longrightarrow>
          Compare a b = Some (if pos_le a b \<and> pos_le b a then 0 else if pos_le b a then 1
                              else if pos_le a b then - 1 else Incomparable)"
    and meet_glb: "K a \<Longrightarrow> K b \<Longrightarrow> pos_meet a b = Some m \<Longrightarrow>
          K m \<and> pos_le m a \<and> pos_le m b \<and> (\<forall>q. K q \<longrightarrow> pos_le q a \<longrightarrow> pos_le q b \<longrightarrow> pos_le q m)"
begin

lemma compare_total: "K a \<Longrightarrow> K b \<Longrightarrow> \<exists>c. Compare a b = Some c"
  by (simp add: compare_ok)

lemma compare_neg: "K a \<Longrightarrow> K b \<Longrightarrow> Compare a b = Some c \<Longrightarrow> c < 0 \<longleftrightarrow> pos_le a b \<and> \<not> pos_le b a"
  by (auto simp: compare_ok Incomparable_def split: if_splits)

lemma compare_pos: "K a \<Longrightarrow> K b \<Longrightarrow> Compare a b = Some c \<Longrightarrow> c > 0 \<longleftrightarrow> \<not> pos_le a b"
  by (auto simp: compare_ok Incomparable_def split: if_splits)

lemma compare_inc:
  "K a \<Longrightarrow> K b \<Longrightarrow> Compare a b = Some c \<Longrightarrow> c = Incomparable \<longleftrightarrow> \<not> pos_le a b \<and> \<not> pos_le b a"
  by (auto simp: compare_ok Incomparable_def split: if_splits)

lemma minsafe_from_no_panic: "K best \<Longrightarrow> \<forall>p\<in>set ps. K p \<Longrightarrow> MinSafe_from best ps \<noteq> Panic"
proof (induction best ps rule: MinSafe_from.induct)
  case (2 best p ps)
  have "K p" "K best" using "2.prems" by auto
  then obtain c where c: "Compare p best = Some c" using compare_total by blast
  have "K m" if "pos_meet p best = Some m" for m
    using meet_glb [of p best m] that 2 by auto
  with 2 c show ?case by (auto split: option.splits)
qed simp

lemma minsafe_from_glb:
  assumes "MinSafe_from best ps = Ok m" "K best" "\<forall>p\<in>set ps. K p"
  shows "K m \<and> (\<forall>p\<in>set (best # ps). pos_le m p) \<and>
         (\<forall>q. K q \<longrightarrow> (\<forall>p\<in>set (best # ps). pos_le q p) \<longrightarrow> pos_le q m)"
  using assms
proof (induction best ps rule: MinSafe_from.induct)
  case (1 best)
  then show ?case by (simp add: le_refl)
next
  case (2 best p ps)
  have "K p" "K best" using "2.prems" by auto
  then obtain c where c: "Compare p best = Some c" using compare_total by blast
  have K: "K p" "K best" using "2.prems" by auto
  consider (inc) b where "c = Incomparable" "pos_meet p best = Some b" "MinSafe_from b ps = Ok m"
    | (neg) "c \<noteq> Incomparable" "c < 0" "MinSafe_from p ps = Ok m"
    | (pos) "c \<noteq> Incomparable" "\<not> c < 0" "MinSafe_from best ps = Ok m"
    using "2.prems"(1) c by (auto split: if_splits option.splits)
  then show ?case
  proof cases
    case inc
    with meet_glb [OF K inc(2)] have b: "K b" "pos_le b p" "pos_le b best"
      "\<And>q. K q \<Longrightarrow> pos_le q p \<Longrightarrow> pos_le q best \<Longrightarrow> pos_le q b" by auto
    from "2.IH"(1) [OF c inc(1,2,3) b(1)] "2.prems" have
      m: "K m" "pos_le m b" "\<forall>p\<in>set ps. pos_le m p"
      "\<And>q. K q \<Longrightarrow> pos_le q b \<Longrightarrow> \<forall>p\<in>set ps. pos_le q p \<Longrightarrow> pos_le q m" by auto
    with b K show ?thesis using le_trans [OF m(1) b(1) _ m(2)] by auto
  next
    case neg
    then have le: "pos_le p best" using compare_neg [OF K c] by simp
    from "2.IH"(2) [OF c neg] "2.prems" have m: "K m" "pos_le m p" "\<forall>p\<in>set ps. pos_le m p"
      "\<And>q. K q \<Longrightarrow> pos_le q p \<Longrightarrow> \<forall>p\<in>set ps. pos_le q p \<Longrightarrow> pos_le q m" by auto
    with le K show ?thesis using le_trans [OF m(1) K m(2) le] by auto
  next
    case pos
    then have le: "pos_le best p"
      using compare_neg [OF K c] compare_inc [OF K c] by auto
    from "2.IH"(3) [OF c pos] "2.prems" have m: "K m" "pos_le m best" "\<forall>p\<in>set ps. pos_le m p"
      "\<And>q. K q \<Longrightarrow> pos_le q best \<Longrightarrow> \<forall>p\<in>set ps. pos_le q p \<Longrightarrow> pos_le q m" by auto
    with le K show ?thesis using le_trans [OF m(1) K(2,1) m(2) le] by auto
  qed
qed

lemma minsafe_no_panic: "\<forall>p\<in>set ps. K p \<Longrightarrow> MinSafe ps \<noteq> Panic"
  using minsafe_from_no_panic [of "hd ps" "tl ps"]
  by (cases ps; cases "MinSafe_from (hd ps) (tl ps)") (auto simp: MinSafe_def)

lemma minsafe_glb:
  assumes "MinSafe ps = Ok (Some m)" "\<forall>p\<in>set ps. K p"
  shows "K m" "\<forall>p\<in>set ps. pos_le m p"
    and "K q \<Longrightarrow> \<forall>p\<in>set ps. pos_le q p \<Longrightarrow> pos_le q m"
  using assms minsafe_from_glb [of "hd ps" "tl ps" m]
  by (auto simp: MinSafe_def res_bind_Ok_conv split: list.splits)

lemma minsafe_none: "MinSafe ps = Ok None \<longleftrightarrow> ps = []"
  by (auto simp: MinSafe_def res_bind_Ok_conv split: list.splits)

lemma minsafe_from_err:
  "MinSafe_from best ps = Err (ErrIncomparable a b) \<Longrightarrow> K best \<Longrightarrow> \<forall>p\<in>set ps. K p \<Longrightarrow>
     K a \<and> K b \<and> \<not> pos_le a b \<and> \<not> pos_le b a \<and> pos_meet a b = None"
proof (induction best ps rule: MinSafe_from.induct)
  case (2 best p ps)
  have "K p" "K best" using "2.prems" by auto
  then obtain c where c: "Compare p best = Some c" using compare_total by blast
  have "K m" if "pos_meet p best = Some m" for m
    using meet_glb [of p best m] that 2 by auto
  with 2 c compare_inc [OF \<open>K p\<close> \<open>K best\<close> c] show ?case by (auto split: if_splits option.splits)
qed simp

lemma ahead_names_iff:
  "K g \<Longrightarrow> \<forall>(n, p)\<in>set ps. \<forall>q. p = Some q \<longrightarrow> K q \<Longrightarrow>
     \<exists>out. ahead_names g ps = Some out \<and>
           set out = {n. \<exists>q. (n, Some q) \<in> set ps \<and> \<not> pos_le q g}"
proof (induction g ps rule: ahead_names.induct)
  case (3 g n p ps)
  have "K p" "K g" using "3.prems" by auto
  then obtain c where c: "Compare p g = Some c" using compare_total by blast
  from 3 c compare_pos [OF \<open>K p\<close> \<open>K g\<close> c] show ?case by auto
qed auto

end

text \<open>A kind in which any two positions have a lower bound: the fold always has an answer.\<close>

locale bounded_kind = position_kind +
  assumes bounded: "K a \<Longrightarrow> K b \<Longrightarrow> pos_le a b \<or> pos_le b a \<or> pos_meet a b \<noteq> None"
begin

lemma minsafe_answers:
  assumes "\<forall>p\<in>set ps. K p" "ps \<noteq> []"
  shows "\<exists>m. MinSafe ps = Ok (Some m)"
proof -
  obtain p rest where ps: "ps = p # rest" using assms(2) by (cases ps) auto
  have "MinSafe_from p rest \<noteq> Err e" for e
  proof
    assume err: "MinSafe_from p rest = Err e"
    obtain a b where "e = ErrIncomparable a b" by (cases e)
    with err minsafe_from_err [of p rest a b] assms(1) ps have "K a" "K b"
      "\<not> pos_le a b" "\<not> pos_le b a" "pos_meet a b = None" by auto
    with bounded show False by blast
  qed
  moreover have "MinSafe_from p rest \<noteq> Panic"
    using minsafe_from_no_panic assms(1) ps by simp
  ultimately show ?thesis
    by (cases "MinSafe_from p rest") (auto simp: MinSafe_def ps)
qed

end

locale linear_kind = position_kind +
  assumes linear: "K a \<Longrightarrow> K b \<Longrightarrow> pos_le a b \<or> pos_le b a"

sublocale linear_kind \<subseteq> bounded_kind
  by unfold_locales (use linear in blast)

context linear_kind
begin

text \<open>On a linear order the fold selects one of its inputs.\<close>

lemma minsafe_from_selects:
  "K best \<Longrightarrow> \<forall>p\<in>set ps. K p \<Longrightarrow> MinSafe_from best ps = Ok m \<Longrightarrow> m \<in> set (best # ps)"
proof (induction best ps rule: MinSafe_from.induct)
  case (2 best p ps)
  have "K p" "K best" using "2.prems" by auto
  then obtain c where c: "Compare p best = Some c" using compare_total by blast
  have "c \<noteq> Incomparable"
    using compare_inc [OF \<open>K p\<close> \<open>K best\<close> c] linear [OF \<open>K p\<close> \<open>K best\<close>] by auto
  with 2 c show ?case by (auto split: if_splits)
qed simp

lemma minsafe_selects: "\<forall>p\<in>set ps. K p \<Longrightarrow> MinSafe ps = Ok (Some m) \<Longrightarrow> m \<in> set ps"
  using minsafe_from_selects [of "hd ps" "tl ps" m]
  by (auto simp: MinSafe_def res_bind_Ok_conv split: list.splits)

end

section \<open>The four kinds\<close>

datatype pos_kind = KLSN | KGTID | KOffsets | KString

fun of_kind :: "pos_kind \<Rightarrow> position \<Rightarrow> bool" where
  "of_kind KLSN p = (case p of PLSN _ \<Rightarrow> True | _ \<Rightarrow> False)"
| "of_kind KGTID p = (case p of PGTID g \<Rightarrow> gtid_wf g | _ \<Rightarrow> False)"
| "of_kind KOffsets p = (case p of POffsets os \<Rightarrow> offsets_wf os | _ \<Rightarrow> False)"
| "of_kind KString p = (case p of PString _ \<Rightarrow> True | _ \<Rightarrow> False)"

lemma of_kind_cases:
  assumes "of_kind k p"
  obtains (lsn) l where "k = KLSN" "p = PLSN l"
  | (gtid) g where "k = KGTID" "p = PGTID g" "gtid_wf g"
  | (offsets) os where "k = KOffsets" "p = POffsets os" "offsets_wf os"
  | (cookie) s where "k = KString" "p = PString s"
  using assms by (cases k; cases p) auto

interpretation lsn: linear_kind "of_kind KLSN"
  by unfold_locales
    (auto simp: pos_le_def LSN_Contains_def LSN_Compare_def pos_meet_def Incomparable_def
      split: position.splits)

interpretation gtids: position_kind "of_kind KGTID"
  by unfold_locales
    (auto simp: pos_le_def GTID_Contains_iff GTID_Compare_def pos_meet_def Let_def
      split: position.splits)

interpretation cookie: position_kind "of_kind KString"
  by unfold_locales
    (auto simp: pos_le_def pos_meet_def split: position.splits)

lemma pos_meet_Offsets: "pos_meet (POffsets a) (POffsets b) = Some (POffsets (Offsets_Meet a b))"
  by (simp add: pos_meet_def)

interpretation offs: bounded_kind "of_kind KOffsets"
proof unfold_locales
  fix a b m
  assume "of_kind KOffsets a" "of_kind KOffsets b" "pos_meet a b = Some m"
  then obtain x y where "a = POffsets x" "b = POffsets y" "offsets_wf x" "offsets_wf y"
      "m = POffsets (Offsets_Meet x y)"
    by (auto simp: pos_meet_Offsets split: position.splits)
  then show "of_kind KOffsets m \<and> pos_le m a \<and> pos_le m b \<and>
      (\<forall>q. of_kind KOffsets q \<longrightarrow> pos_le q a \<longrightarrow> pos_le q b \<longrightarrow> pos_le q m)"
    using Offsets_Meet_greatest [of x y]
    by (auto simp: pos_le_def Offsets_Meet_wf split: position.splits)
qed (auto simp: pos_le_def Offsets_Contains_refl Offsets_Compare_def pos_meet_Offsets Let_def
    intro: Offsets_Contains_trans split: position.splits)

lemma position_kind_of_kind: "position_kind (of_kind k)"
  by (cases k)
    (simp_all only: lsn.position_kind_axioms gtids.position_kind_axioms offs.position_kind_axioms
      cookie.position_kind_axioms)

interpretation pk: position_kind "of_kind k" for k
  by (rule position_kind_of_kind)

section \<open>Persisted positions\<close>

fun kind_name :: "pos_kind \<Rightarrow> string" where
  "kind_name KLSN = ''postgres''"
| "kind_name KGTID = ''mysql''"
| "kind_name KOffsets = ''kafka''"
| "kind_name KString = ''plugin''"

text \<open>The positions whose text form carries all of them.\<close>

fun text_ok :: "position \<Rightarrow> bool" where
  "text_ok (PLSN l) = True"
| "text_ok (PGTID g) = list_all printable g"
| "text_ok (POffsets os) = list_all topic_ok os"
| "text_ok (PString s) = False"

lemma GTID_canon_equiv:
  assumes "gtid_wf g"
  shows "gtid_wf (gtid_canon g) \<and> gtid_set (gtid_canon g) = gtid_set g"
proof -
  have m: "map_of (gtid_canon g) = map_of g"
    using assms by (intro map_of_gtid_canon) (simp add: gtid_wf_def)
  have "gm_wf (gtid_canon g)"
    using assms by (simp add: gtid_canon_def gm_wf_def gtid_wf_def comp_def)
  then have "gtid_wf (gtid_canon g)"
    using gtid_wf_lookup [OF assms] by (intro gtid_wfI) (simp_all add: m)
  then show ?thesis by (simp add: gtid_set_def m)
qed

lemma offsets_canon_wf: "offsets_wf os \<Longrightarrow> offsets_wf (offsets_canon os)"
  by (auto simp: offsets_wf_def offsets_canon_def parts_canon_def gm_wf_def comp_def
      case_prod_unfold map_fst_sort_key)

lemma Parse_String_equiv:
  assumes "of_kind k p" "text_ok p"
  shows "\<exists>q. Parse (kind_name k) (pos_String p) = Ok q \<and> of_kind k q \<and> pos_le p q \<and> pos_le q p"
  using assms(1)
proof (cases rule: of_kind_cases)
  case (lsn l)
  then show ?thesis
    by (simp add: Parse_def ParseLSN_String map_res_def pos_le_def LSN_Contains_def)
next
  case (gtid g)
  with assms(2) GTID_canon_equiv [of g] show ?thesis
    by (simp add: Parse_def GTID_roundtrip map_res_def pos_le_def GTID_Contains_iff)
next
  case (offsets os)
  with assms(2) have "ParseOffsets (Offsets_String os) = Ok (offsets_canon os)"
    by (intro Offsets_text_roundtrip) simp_all
  with offsets offsets_canon_wf [of os] show ?thesis
    by (simp add: Parse_def map_res_def pos_le_def Offsets_Contains_iff off_at_canon)
next
  case (cookie s)
  with assms(2) show ?thesis by simp
qed

lemma Parse_of_kind:
  assumes "Parse (kind_name k) s = Ok p"
  shows "k \<noteq> KString \<and> of_kind k p"
  using assms
  by (cases k) (auto simp: Parse_def map_res_def ParseGTID_wf ParseOffsets_wf split: res.splits)

section \<open>Properties\<close>

text \<open>
  C6: the resume point \<open>MinSafe\<close> returns for positions of one source kind is contained in every
  input, so resuming from it skips nothing any input has not committed, and it is the greatest
  such position of the kind.
\<close>

theorem MinSafe_resume_point:
  assumes "\<forall>p\<in>set ps. of_kind k p" "MinSafe ps = Ok (Some m)"
  shows "of_kind k m \<and> (\<forall>p\<in>set ps. pos_le m p) \<and>
         (\<forall>q. of_kind k q \<longrightarrow> (\<forall>p\<in>set ps. pos_le q p) \<longrightarrow> pos_le q m)"
  using pk.minsafe_glb [OF assms(2,1)] by blast

definition diverged :: "position list" where
  "diverged = [POffsets [(''orders'', [(0, 100), (1, 5)])], POffsets [(''orders'', [(0, 5), (1, 100)])]]"

lemma diverged_kind: "\<forall>p\<in>set diverged. of_kind KOffsets p"
  by code_simp

lemma diverged_min: "MinSafe diverged = Ok (Some (POffsets [(''orders'', [(0, 5), (1, 5)])]))"
  by code_simp

theorem MinSafe_resume_point_witness:
  "of_kind KOffsets (POffsets [(''orders'', [(0, 5), (1, 5)])]) \<and>
   pos_le (POffsets [(''orders'', [(0, 5), (1, 5)])]) (POffsets [(''orders'', [(0, 100), (1, 5)])]) \<and>
   pos_le (POffsets [(''orders'', [(0, 5), (1, 5)])]) (POffsets [(''orders'', [(0, 5), (1, 100)])])"
  using MinSafe_resume_point [OF diverged_kind diverged_min] unfolding diverged_def by simp

text \<open>
  \<open>MinSafe\<close> over one kind never panics; it always answers for LSNs and Kafka offsets, whose
  order has all binary lower bounds, and when it refuses, the pair it names is incomparable.
\<close>

theorem MinSafe_answers_or_refuses:
  assumes "\<forall>p\<in>set ps. of_kind k p"
  shows "MinSafe ps \<noteq> Panic \<and>
         (k \<in> {KLSN, KOffsets} \<longrightarrow> ps \<noteq> [] \<longrightarrow> (\<exists>m. MinSafe ps = Ok (Some m))) \<and>
         (\<forall>a b. MinSafe ps = Err (ErrIncomparable a b) \<longrightarrow>
            \<not> pos_le a b \<and> \<not> pos_le b a \<and> pos_meet a b = None)"
proof (intro conjI allI impI)
  show "MinSafe ps \<noteq> Panic" using assms by (rule pk.minsafe_no_panic)
  show "\<exists>m. MinSafe ps = Ok (Some m)" if "k \<in> {KLSN, KOffsets}" "ps \<noteq> []"
    using that assms lsn.minsafe_answers [of ps] offs.minsafe_answers [of ps] by auto
  fix a b assume "MinSafe ps = Err (ErrIncomparable a b)"
  with assms pk.minsafe_from_err [of "hd ps" "tl ps" a b k]
  show "\<not> pos_le a b" "\<not> pos_le b a" "pos_meet a b = None"
    by (cases ps; cases "MinSafe_from (hd ps) (tl ps)"; auto simp: MinSafe_def)+
qed

theorem MinSafe_answers_or_refuses_witness:
  "MinSafe diverged \<noteq> Panic \<and> (\<exists>m. MinSafe diverged = Ok (Some m)) \<and>
   \<not> pos_le (PString ''b'') (PString ''a'')"
proof -
  have "\<forall>p\<in>set [PString ''a'', PString ''b'']. of_kind KString p" by simp
  moreover have "MinSafe [PString ''a'', PString ''b'']
      = Err (ErrIncomparable (PString ''b'') (PString ''a''))" by code_simp
  ultimately have "\<not> pos_le (PString ''b'') (PString ''a'')"
    using MinSafe_answers_or_refuses by blast
  with MinSafe_answers_or_refuses [OF diverged_kind] show ?thesis
    by (simp add: diverged_def)
qed

text \<open>
  On well-formed GTID sets \<open>Contains\<close> is inclusion of the transactions the sets denote, and
  \<open>Add\<close> is their union and keeps the sets well formed.
\<close>

theorem GTID_set_semantics:
  assumes "gtid_wf g" "gtid_wf h"
  shows "GTID_Contains g h = (gtid_set h \<subseteq> gtid_set g) \<and> gtid_wf (GTID_Add g h) \<and>
         gtid_set (GTID_Add g h) = gtid_set g \<union> gtid_set h"
  using GTID_Contains_iff [OF assms] GTID_Add_union [OF assms] by blast

definition uuid_a :: string where
  "uuid_a = ''3e11fa47-71ca-11e1-9e33-c80aa9429562''"

theorem GTID_set_semantics_witness:
  "gtid_set [(uuid_a, [mk_interval 2 4])] \<subseteq> gtid_set [(uuid_a, [mk_interval 1 6])] \<and>
   gtid_set (GTID_Add [(uuid_a, [mk_interval 1 6])] [(uuid_a, [mk_interval 2 4])])
     = gtid_set [(uuid_a, [mk_interval 1 6])] \<union> gtid_set [(uuid_a, [mk_interval 2 4])]"
proof -
  have "gtid_wf [(uuid_a, [mk_interval 1 6])]" "gtid_wf [(uuid_a, [mk_interval 2 4])]"
    by (simp_all add: gtid_wf_def iv_normal_def iv_ok_def mk_interval_def)
  moreover have "GTID_Contains [(uuid_a, [mk_interval 1 6])] [(uuid_a, [mk_interval 2 4])]"
    by (simp add: GTID_Contains_def containsIntervals_def mk_interval_def)
  ultimately show ?thesis using GTID_set_semantics by blast
qed

text \<open>
  C20: a position that is written as text and parsed with its source kind comes back as an
  equivalent position, for every LSN, every GTID set whose untagged entries have one interval
  and all Kafka offsets over legal topic names.
\<close>

theorem Parse_String_roundtrip:
  assumes "of_kind k p" "text_ok p"
  shows "\<exists>q. Parse (kind_name k) (pos_String p) = Ok q \<and> of_kind k q \<and> pos_le p q \<and> pos_le q p"
  using assms by (rule Parse_String_equiv)

theorem Parse_String_roundtrip_witness:
  "\<exists>q. Parse ''kafka'' (pos_String (POffsets [(''orders'', [(1, 5), (0, 100)])])) = Ok q \<and>
       of_kind KOffsets q \<and> pos_le (POffsets [(''orders'', [(1, 5), (0, 100)])]) q \<and>
       pos_le q (POffsets [(''orders'', [(1, 5), (0, 100)])])"
proof -
  have "of_kind KOffsets (POffsets [(''orders'', [(1, 5), (0, 100)])])"
    and "text_ok (POffsets [(''orders'', [(1, 5), (0, 100)])])"
    by (simp_all add: offsets_wf_def topic_ok_def part_ok_def)
  from Parse_String_roundtrip [OF this] show ?thesis by simp
qed

text \<open>
  C30: an untagged GTID entry with two intervals or more does not survive its text form: the
  parser reads the first interval as a MySQL 8.4 tag, so the entry comes back under another key
  with the first interval's transactions gone.
\<close>

theorem GTID_multi_interval_misread:
  assumes "validUUID u" "iv_normal (iv # ivs)" "ivs \<noteq> []"
  shows "ParseGTID (GTID_String [(u, iv # ivs)]) = Ok [(u @ CHR '':'' # interval_String iv, ivs)]"
  using assms by (rule GTID_first_interval_lost)

theorem GTID_multi_interval_misread_witness:
  "ParseGTID (GTID_String [(uuid_a, [mk_interval 1 6, mk_interval 7 10])])
     = Ok [(uuid_a @ '':1-5'', [mk_interval 7 10])]"
proof -
  have v: "validUUID uuid_a" by code_simp
  have n: "iv_normal [mk_interval 1 6, mk_interval 7 10]"
    by (simp add: iv_normal_def iv_ok_def mk_interval_def)
  have s: "interval_String (mk_interval 1 6) = ''1-5''" by code_simp
  from GTID_multi_interval_misread [OF v n] show ?thesis by (simp add: s)
qed

end
