(* ===== verification/Snapshot_Table.thy ===== *)
theory Snapshot_Table
  imports Snapshot_Plan Position_Fold
begin

text \<open>
  \<open>internal/snapshot/dblog.go\<close>: the snapshot of one table, chunk by chunk, between a low and a high
  watermark. The source, the reader, the relay, the clock and the callback are a record of functions
  over a host state. A loop that may not end is a partial function: not returning is \<open>None\<close>.

  The lemmas show that the wait for the high watermark ends whenever the clock advances, that it
  succeeds only on the proof, and the order in which a finished snapshot drove the gate, the window
  and the relay.
\<close>

section \<open>Effects\<close>

datatype dblog_err =
    DCancelled
  | DBounds
  | DPersist
  | DScan u32
  | DAddRows u32
  | DFlush u32
  | DMaster u32
  | DStuck
  | DRelease u32

type_synonym ('h, 'a) io = "'h \<Rightarrow> ('h \<times> (dblog_err, 'a) res) option"

definition io_ret :: "'a \<Rightarrow> ('h, 'a) io" where
  "io_ret a h = Some (h, Ok a)"

definition io_bind :: "('h, 'a) io \<Rightarrow> ('a \<Rightarrow> ('h, 'b) io) \<Rightarrow> ('h, 'b) io" where
  "io_bind m k h =
     (case m h of
        None \<Rightarrow> None
      | Some (h', r) \<Rightarrow>
          (case r of Ok a \<Rightarrow> k a h' | Err e \<Rightarrow> Some (h', Err e) | Panic \<Rightarrow> Some (h', Panic)))"

definition io_do :: "('h \<Rightarrow> 'h) \<Rightarrow> ('h, unit) io" where
  "io_do f h = Some (f h, Ok ())"

definition io_ask :: "('h \<Rightarrow> 'h \<times> 'a) \<Rightarrow> ('h, 'a) io" where
  "io_ask f h = (case f h of (h', a) \<Rightarrow> Some (h', Ok a))"

definition io_try :: "dblog_err \<Rightarrow> ('h \<Rightarrow> 'h \<times> 'a option) \<Rightarrow> ('h, 'a) io" where
  "io_try e f h = (case f h of (h', None) \<Rightarrow> Some (h', Err e) | (h', Some a) \<Rightarrow> Some (h', Ok a))"

text \<open>On an error, run the clean-up and return the error.\<close>

definition io_cleanup :: "('h \<Rightarrow> 'h) \<Rightarrow> ('h, 'a) io \<Rightarrow> ('h, 'a) io" where
  "io_cleanup c m h =
     (case m h of
        Some (h', Err e) \<Rightarrow> Some (c h', Err e)
      | r \<Rightarrow> r)"

section \<open>The host\<close>

record ('h, 'f, 'b) dblog_host =
  dh_Err :: "'h \<Rightarrow> 'h \<times> bool"
  dh_Bounds :: "'h \<Rightarrow> 'h \<times> 'f pkey list option"
  dh_Persist :: "('h \<Rightarrow> 'f progress \<Rightarrow> 'h \<times> unit option) option"
  dh_GateOn :: "'h \<Rightarrow> u32 \<Rightarrow> 'h"
  dh_OpenWindow :: "'h \<Rightarrow> u32 \<Rightarrow> 'h"
  dh_ClearWindow :: "'h \<Rightarrow> 'h"
  dh_Synced :: "'h \<Rightarrow> 'h \<times> position option"
  dh_Master :: "'h \<Rightarrow> 'h \<times> position option"
  dh_scanChunk :: "'h \<Rightarrow> 'f chunk \<Rightarrow> position option \<Rightarrow> 'h \<times> 'b option"
  dh_AddWindowRows :: "'h \<Rightarrow> u32 \<Rightarrow> 'b \<Rightarrow> 'h \<times> unit option"
  dh_GateFlush :: "'h \<Rightarrow> 'h \<times> unit option"
  dh_Release :: "'h \<Rightarrow> u32 \<Rightarrow> position option \<Rightarrow> 'h \<times> unit option"
  dh_cb :: "('h \<Rightarrow> u32 \<Rightarrow> u32 list \<Rightarrow> 'h) option"
  dh_Now :: "'h \<Rightarrow> 'h \<times> int"
  dh_Sleep :: "'h \<Rightarrow> int \<Rightarrow> 'h \<times> bool"

record 'f snap_cfg =
  sc_WindowTimeout :: int
  sc_CaughtUpPoll :: int
  sc_Progress :: "'f progress option"
  sc_Started :: string

section \<open>The caught-up proof\<close>

text \<open>One pass reads the context, the reader and the clock, then sleeps; \<open>dh_Sleep\<close> says whether the
  context ended first.\<close>

partial_function (option) wait_loop ::
  "('h, 'f, 'b) dblog_host \<Rightarrow> position \<Rightarrow> int \<Rightarrow> int \<Rightarrow> 'h \<Rightarrow> ('h \<times> (dblog_err, unit) res) option" where
  [code]: "wait_loop H high poll deadline h =
     (case dh_Err H h of (h1, cancelled) \<Rightarrow>
        if cancelled then Some (h1, Err DCancelled)
        else (case dh_Synced H h1 of (h2, synced) \<Rightarrow>
          (case (case synced of None \<Rightarrow> Some False | Some s \<Rightarrow> Contains s high) of
             None \<Rightarrow> Some (h2, Panic)
           | Some proved \<Rightarrow>
               if proved then Some (h2, Ok ())
               else (case dh_Now H h2 of (h3, now) \<Rightarrow>
                 if now > deadline then Some (h3, Err DStuck)
                 else (case dh_Sleep H h3 poll of (h4, cancelled) \<Rightarrow>
                   if cancelled then Some (h4, Err DCancelled)
                   else wait_loop H high poll deadline h4)))))"

definition WaitCaughtUp ::
  "('h, 'f, 'b) dblog_host \<Rightarrow> 'f snap_cfg \<Rightarrow> position \<Rightarrow> ('h, unit) io" where
  "WaitCaughtUp H cfg high h =
     (let poll = (if sc_CaughtUpPoll cfg \<le> 0 then 1000000000 else sc_CaughtUpPoll cfg);
          timeout = (if sc_WindowTimeout cfg \<le> 0 then 300000000000 else sc_WindowTimeout cfg)
      in case dh_Now H h of (h1, now) \<Rightarrow> wait_loop H high poll (now + timeout) h1)"

section \<open>The snapshot of a table\<close>

definition snap_chunk ::
  "('h, 'f, 'b) dblog_host \<Rightarrow> 'f snap_cfg \<Rightarrow> u32 list \<Rightarrow> 'f chunk \<Rightarrow> u32 \<Rightarrow> ('h, unit) io" where
  "snap_chunk H cfg pending ch chunkID =
     io_bind (io_do (\<lambda>h. dh_GateOn H h chunkID)) (\<lambda>_.
     io_bind (io_do (\<lambda>h. dh_OpenWindow H h chunkID)) (\<lambda>_.
     io_bind (io_ask (dh_Synced H)) (\<lambda>low.
     io_bind (io_cleanup (dh_ClearWindow H) (io_try (DScan chunkID) (\<lambda>h. dh_scanChunk H h ch low))) (\<lambda>rows.
     io_bind (io_cleanup (dh_ClearWindow H) (io_try (DAddRows chunkID) (\<lambda>h. dh_AddWindowRows H h chunkID rows))) (\<lambda>_.
     io_bind (io_cleanup (dh_ClearWindow H) (io_try (DFlush chunkID) (dh_GateFlush H))) (\<lambda>_.
     io_bind (io_cleanup (dh_ClearWindow H) (io_try (DMaster chunkID) (dh_Master H))) (\<lambda>high.
     io_bind (io_cleanup (dh_ClearWindow H) (WaitCaughtUp H cfg high)) (\<lambda>_.
     io_bind (io_ask (dh_Synced H)) (\<lambda>at.
     io_bind (io_do (dh_ClearWindow H)) (\<lambda>_.
     io_bind (io_try (DRelease chunkID) (\<lambda>h. dh_Release H h chunkID at)) (\<lambda>_.
       (case dh_cb H of
          None \<Rightarrow> io_ret ()
        | Some cb \<Rightarrow> io_do (\<lambda>h. cb h chunkID (RemoveFromPending pending chunkID))))))))))))))"

fun snap_chunks ::
  "('h, 'f, 'b) dblog_host \<Rightarrow> 'f snap_cfg \<Rightarrow> u32 list \<Rightarrow> 'f chunk list \<Rightarrow> u32 list \<Rightarrow> ('h, unit) io" where
  "snap_chunks H cfg pending chunks [] = io_ret ()"
| "snap_chunks H cfg pending chunks (chunkID # ids) =
     io_bind (io_ask (dh_Err H)) (\<lambda>done. if done then (\<lambda>h. Some (h, Err DCancelled)) else
       (if unat chunkID \<ge> length chunks then snap_chunks H cfg pending chunks ids
        else io_bind (snap_chunk H cfg pending (chunks ! unat chunkID) chunkID) (\<lambda>_.
               snap_chunks H cfg pending chunks ids)))"

definition cold_start :: "('h, 'f, 'b) dblog_host \<Rightarrow> 'f snap_cfg \<Rightarrow> ('h, 'f pkey list \<times> u32 list) io" where
  "cold_start H cfg =
     io_bind (io_try DBounds (dh_Bounds H)) (\<lambda>bounds.
       let pending = map word_of_nat [0..<length bounds]
       in case dh_Persist H of
            None \<Rightarrow> io_ret (bounds, pending)
          | Some persist \<Rightarrow>
              io_bind (io_try DPersist (\<lambda>h. persist h \<lparr>sp_State = StateInProgress, sp_Bounds = bounds,
                  sp_Pending = pending, sp_Started = sc_Started cfg\<rparr>)) (\<lambda>_. io_ret (bounds, pending)))"

definition SnapshotTable :: "('h, 'f, 'b) dblog_host \<Rightarrow> 'f snap_cfg \<Rightarrow> ('h, unit) io" where
  "SnapshotTable H cfg =
     io_bind
       (case sc_Progress cfg of
          Some sp \<Rightarrow> if Resumable (Some sp) then io_ret (sp_Bounds sp, sp_Pending sp) else cold_start H cfg
        | None \<Rightarrow> cold_start H cfg)
       (\<lambda>(bounds, pending). snap_chunks H cfg pending (Chunks bounds) pending)"

section \<open>Successful runs\<close>

named_theorems io_ok "when an effect succeeds"

lemma io_bind_ok [io_ok]:
  "io_bind m k h = Some (h', Ok b) \<longleftrightarrow> (\<exists>h1 a. m h = Some (h1, Ok a) \<and> k a h1 = Some (h', Ok b))"
  by (auto simp: io_bind_def split: option.splits res.splits)

lemma io_ret_ok [io_ok]: "io_ret a h = Some (h', Ok b) \<longleftrightarrow> h' = h \<and> b = a"
  by (auto simp: io_ret_def)

lemma io_do_ok [io_ok]: "io_do f h = Some (h', Ok u) \<longleftrightarrow> h' = f h"
  by (auto simp: io_do_def)

lemma io_ask_ok [io_ok]: "io_ask f h = Some (h', Ok a) \<longleftrightarrow> f h = (h', a)"
  by (auto simp: io_ask_def split: prod.splits)

lemma io_try_ok [io_ok]: "io_try e f h = Some (h', Ok a) \<longleftrightarrow> f h = (h', Some a)"
  by (auto simp: io_try_def split: prod.splits option.splits)

lemma io_cleanup_ok [io_ok]: "io_cleanup c m h = Some (h', Ok a) \<longleftrightarrow> m h = Some (h', Ok a)"
  by (auto simp: io_cleanup_def split: option.splits prod.splits res.splits)

section \<open>The wait ends\<close>

definition advances :: "('h, 'f, 'b) dblog_host \<Rightarrow> ('h \<Rightarrow> int) \<Rightarrow> bool" where
  "advances H clock \<longleftrightarrow>
     (\<forall>h. clock h \<le> clock (fst (dh_Err H h))) \<and>
     (\<forall>h. clock h \<le> clock (fst (dh_Synced H h))) \<and>
     (\<forall>h. clock h \<le> clock (fst (dh_Now H h)) \<and> snd (dh_Now H h) = clock (fst (dh_Now H h))) \<and>
     (\<forall>h p. clock h + p \<le> clock (fst (dh_Sleep H h p)))"

lemma wait_loop_ends:
  assumes "advances H clock" "0 < poll"
  shows "\<exists>r. wait_loop H high poll deadline h = Some r"
proof (induction "nat (deadline + 1 - clock h)" arbitrary: h rule: less_induct)
  case less
  obtain h1 c1 where e1: "dh_Err H h = (h1, c1)" by fastforce
  obtain h2 s where e2: "dh_Synced H h1 = (h2, s)" by fastforce
  obtain h3 now where e3: "dh_Now H h2 = (h3, now)" by fastforce
  obtain h4 c4 where e4: "dh_Sleep H h3 poll = (h4, c4)" by fastforce
  have ck: "clock h \<le> clock h1" "clock h1 \<le> clock h2" "clock h2 \<le> clock h3" "now = clock h3"
    "clock h3 + poll \<le> clock h4"
    using assms(1) e1 e2 e3 e4 unfolding advances_def by (metis fst_conv snd_conv)+
  have IH: "\<exists>r. wait_loop H high poll deadline h4 = Some r" if "\<not> now > deadline"
    by (rule less) (use ck that assms(2) in linarith)
  show ?case
    by (subst wait_loop.simps)
       (use IH in \<open>auto simp: e1 e2 e3 e4 split: option.split\<close>)
qed

definition wait_pass ::
  "('h, 'f, 'b) dblog_host \<Rightarrow> position \<Rightarrow> int \<Rightarrow> int \<Rightarrow> ('h, unit) io \<Rightarrow> ('h, unit) io" where
  "wait_pass H high poll deadline again h =
     (case dh_Err H h of (h1, cancelled) \<Rightarrow>
        if cancelled then Some (h1, Err DCancelled)
        else (case dh_Synced H h1 of (h2, synced) \<Rightarrow>
          (case (case synced of None \<Rightarrow> Some False | Some s \<Rightarrow> Contains s high) of
             None \<Rightarrow> Some (h2, Panic)
           | Some proved \<Rightarrow>
               if proved then Some (h2, Ok ())
               else (case dh_Now H h2 of (h3, now) \<Rightarrow>
                 if now > deadline then Some (h3, Err DStuck)
                 else (case dh_Sleep H h3 poll of (h4, cancelled) \<Rightarrow>
                   if cancelled then Some (h4, Err DCancelled)
                   else again h4)))))"

lemma wait_loop_rule [consumes 1, case_names pass]:
  fixes H :: "('h, 'f, 'b) dblog_host"
  assumes run: "wait_loop H high poll deadline h = Some r"
    and pass: "\<And>again h r. (\<And>h r. again h = Some r \<Longrightarrow> Q h r) \<Longrightarrow>
      wait_pass H high poll deadline again h = Some r \<Longrightarrow> Q h r"
  shows "Q h r"
proof -
  let ?P = "\<lambda>(G :: ('h, 'f, 'b) dblog_host) hi p d h r. G = H \<longrightarrow> hi = high \<longrightarrow> p = poll \<longrightarrow> d = deadline \<longrightarrow> Q h r"
  have "?P H high poll deadline h r"
    using run
  proof (rule wait_loop.raw_induct [where P = ?P, rotated], goal_cases)
    case (1 wl G hi p d h r)
    then show ?case
      using pass [of "wl H high poll deadline" h r] unfolding wait_pass_def by blast
  qed
  then show ?thesis by simp
qed

text \<open>A look at the reader that does not yet prove the watermark.\<close>

definition unproved :: "position \<Rightarrow> position option \<Rightarrow> bool" where
  "unproved high synced = (case synced of None \<Rightarrow> True | Some s \<Rightarrow> Contains s high = Some False)"

lemma wait_pass_cases:
  assumes "wait_pass H high poll deadline again h = Some r"
  obtains h1 h2 sy where "dh_Err H h = (h1, False)" "dh_Synced H h1 = (h2, Some sy)" "Contains sy high = Some True" "r = (h2, Ok ())"
  | h1 where "dh_Err H h = (h1, True)" "r = (h1, Err DCancelled)"
  | h1 h2 sy where "dh_Err H h = (h1, False)" "dh_Synced H h1 = (h2, sy)" "r = (h2, Panic)"
  | h1 h2 sy h3 now where "dh_Err H h = (h1, False)" "dh_Synced H h1 = (h2, sy)" "dh_Now H h2 = (h3, now)" "r = (h3, Err DStuck)"
  | h1 h2 sy h3 now h4 where "dh_Err H h = (h1, False)" "dh_Synced H h1 = (h2, sy)" "dh_Now H h2 = (h3, now)"
      "dh_Sleep H h3 poll = (h4, True)" "r = (h4, Err DCancelled)"
  | h1 h2 sy h3 now h4 where "dh_Err H h = (h1, False)" "dh_Synced H h1 = (h2, sy)" "unproved high sy"
      "dh_Now H h2 = (h3, now)" "dh_Sleep H h3 poll = (h4, False)" "again h4 = Some r"
proof -
  obtain h1 c1 where e1: "dh_Err H h = (h1, c1)" by fastforce
  obtain h2 sy where e2: "dh_Synced H h1 = (h2, sy)" by fastforce
  obtain h3 now where e3: "dh_Now H h2 = (h3, now)" by fastforce
  obtain h4 c4 where e4: "dh_Sleep H h3 poll = (h4, c4)" by fastforce
  show thesis
    using assms that e1 e2 e3 e4
    by (cases c1; cases sy; cases c4) (auto simp: wait_pass_def unproved_def split: option.splits if_splits)
qed

lemma wait_loop_proof:
  assumes "wait_loop H high poll deadline h = Some r" "snd r = Ok ()"
  shows "\<exists>g s. dh_Synced H g = (fst r, Some s) \<and> Contains s high = Some True"
  using assms
proof (induction rule: wait_loop_rule)
  case (pass again h r)
  from pass.hyps show ?case
    by (rule wait_pass_cases) (use pass in auto)
qed

section \<open>The order of a snapshot\<close>

text \<open>A host that records what it is asked to do and what it answers, in order.\<close>

datatype ('f, 'b) snap_ev =
    EBounds "'f pkey list option"
  | EPersist "'f progress"
  | EGate u32
  | EOpen u32
  | ESynced "position option"
  | EScan "'f chunk" "position option" "'b option"
  | EAdd u32 'b
  | EFlush
  | EMaster "position option"
  | EClear
  | ERelease u32 "position option"
  | ECallback u32 "u32 list"

definition quiet :: "('h \<Rightarrow> 'h \<times> 'a) \<Rightarrow> 'h \<times> 'e list \<Rightarrow> ('h \<times> 'e list) \<times> 'a" where
  "quiet f s = (case f (fst s) of (h', a) \<Rightarrow> ((h', snd s), a))"

definition noted :: "('a \<Rightarrow> 'e) \<Rightarrow> ('h \<Rightarrow> 'h \<times> 'a) \<Rightarrow> 'h \<times> 'e list \<Rightarrow> ('h \<times> 'e list) \<times> 'a" where
  "noted e f s = (case f (fst s) of (h', a) \<Rightarrow> ((h', snd s @ [e a]), a))"

definition traced :: "('h, 'f, 'b) dblog_host \<Rightarrow> ('h \<times> ('f, 'b) snap_ev list, 'f, 'b) dblog_host" where
  "traced H = \<lparr>
     dh_Err = quiet (dh_Err H),
     dh_Bounds = noted EBounds (dh_Bounds H),
     dh_Persist = map_option (\<lambda>p s sp. noted (\<lambda>_. EPersist sp) (\<lambda>h. p h sp) s) (dh_Persist H),
     dh_GateOn = (\<lambda>(h, l) i. (dh_GateOn H h i, l @ [EGate i])),
     dh_OpenWindow = (\<lambda>(h, l) i. (dh_OpenWindow H h i, l @ [EOpen i])),
     dh_ClearWindow = (\<lambda>(h, l). (dh_ClearWindow H h, l @ [EClear])),
     dh_Synced = noted ESynced (dh_Synced H),
     dh_Master = noted EMaster (dh_Master H),
     dh_scanChunk = (\<lambda>s ch low. noted (EScan ch low) (\<lambda>h. dh_scanChunk H h ch low) s),
     dh_AddWindowRows = (\<lambda>s i rows. noted (\<lambda>_. EAdd i rows) (\<lambda>h. dh_AddWindowRows H h i rows) s),
     dh_GateFlush = noted (\<lambda>_. EFlush) (dh_GateFlush H),
     dh_Release = (\<lambda>s i at. noted (\<lambda>_. ERelease i at) (\<lambda>h. dh_Release H h i at) s),
     dh_cb = map_option (\<lambda>cb (h, l) i rest. (cb h i rest, l @ [ECallback i rest])) (dh_cb H),
     dh_Now = quiet (dh_Now H),
     dh_Sleep = (\<lambda>s p. quiet (\<lambda>h. dh_Sleep H h p) s)\<rparr>"

lemma quiet_log: "quiet f s = (s', a) \<Longrightarrow> snd s' = snd s"
  by (auto simp: quiet_def split: prod.splits)

lemma noted_log: "noted e f s = (s', a) \<Longrightarrow> snd s' = snd s @ [e a]"
  by (auto simp: noted_def split: prod.splits)

lemma noted_answer: "noted e f s = (s', a) \<Longrightarrow> a = snd (f (fst s))"
  by (auto simp: noted_def split: prod.splits)

lemma traced_simps [simp]:
  "dh_Err (traced H) = quiet (dh_Err H)" "dh_Bounds (traced H) = noted EBounds (dh_Bounds H)"
  "dh_Synced (traced H) = noted ESynced (dh_Synced H)" "dh_Master (traced H) = noted EMaster (dh_Master H)"
  "dh_GateFlush (traced H) = noted (\<lambda>_. EFlush) (dh_GateFlush H)" "dh_Now (traced H) = quiet (dh_Now H)"
  "dh_scanChunk (traced H) s ch low = noted (EScan ch low) (\<lambda>h. dh_scanChunk H h ch low) s"
  "dh_AddWindowRows (traced H) s i rows = noted (\<lambda>_. EAdd i rows) (\<lambda>h. dh_AddWindowRows H h i rows) s"
  "dh_Release (traced H) s i at = noted (\<lambda>_. ERelease i at) (\<lambda>h. dh_Release H h i at) s"
  "dh_Sleep (traced H) s p = quiet (\<lambda>h. dh_Sleep H h p) s"
  "snd (dh_GateOn (traced H) s i) = snd s @ [EGate i]"
  "snd (dh_OpenWindow (traced H) s i) = snd s @ [EOpen i]"
  "snd (dh_ClearWindow (traced H) s) = snd s @ [EClear]"
  "dh_cb (traced H) = map_option (\<lambda>cb (h, l) i rest. (cb h i rest, l @ [ECallback i rest])) (dh_cb H)"
  "dh_Persist (traced H) = map_option (\<lambda>p s sp. noted (\<lambda>_. EPersist sp) (\<lambda>h. p h sp) s) (dh_Persist H)"
  by (simp_all add: traced_def split: prod.split)

text \<open>What a successful wait leaves in the log: looks that prove nothing, then the proof.\<close>

definition wait_log :: "position \<Rightarrow> ('f, 'b) snap_ev list \<Rightarrow> bool" where
  "wait_log high l \<longleftrightarrow>
     (\<exists>looks synced. l = map ESynced looks @ [ESynced (Some synced)]
        \<and> list_all (unproved high) looks \<and> Contains synced high = Some True)"

lemma wait_log_proof: "Contains synced high = Some True \<Longrightarrow> wait_log high [ESynced (Some synced)]"
  unfolding wait_log_def by (intro exI [of _ "[]"] exI [of _ synced]) simp

lemma wait_log_look: "unproved high s \<Longrightarrow> wait_log high l \<Longrightarrow> wait_log high (ESynced s # l)"
proof -
  assume u: "unproved high s" and "wait_log high l"
  then obtain looks synced where "l = map ESynced looks @ [ESynced (Some synced)]"
    "list_all (unproved high) looks" "Contains synced high = Some True" by (auto simp: wait_log_def)
  with u show ?thesis unfolding wait_log_def
    by (intro exI [of _ "s # looks"] exI [of _ synced]) simp
qed

lemma wait_loop_log:
  assumes "wait_loop (traced H) high poll deadline s = Some r" "snd r = Ok ()"
  shows "\<exists>l. snd (fst r) = snd s @ l \<and> wait_log high l"
  using assms
proof (induction rule: wait_loop_rule)
  case (pass again s r)
  from pass.hyps show ?case
  proof (rule wait_pass_cases)
    fix s1 s2 sy
    assume "dh_Err (traced H) s = (s1, False)" "dh_Synced (traced H) s1 = (s2, Some sy)"
      "Contains sy high = Some True" "r = (s2, Ok ())"
    then show ?thesis
      by (intro exI [of _ "[ESynced (Some sy)]"]) (auto dest!: quiet_log noted_log intro: wait_log_proof)
  next
    fix s1 s2 sy s3 now s4
    assume st: "dh_Err (traced H) s = (s1, False)" "dh_Synced (traced H) s1 = (s2, sy)" "unproved high sy"
      "dh_Now (traced H) s2 = (s3, now)" "dh_Sleep (traced H) s3 poll = (s4, False)" "again s4 = Some r"
    from pass.IH [OF st(6) pass.prems] obtain l where "snd (fst r) = snd s4 @ l" "wait_log high l" by blast
    with st(1-5) show ?thesis
      by (intro exI [of _ "ESynced sy # l"]) (auto dest!: quiet_log noted_log intro: wait_log_look)
  qed (use pass.prems in auto)
qed

lemma WaitCaughtUp_log:
  assumes "WaitCaughtUp (traced H) cfg high s = Some (s', Ok ())"
  shows "\<exists>l. snd s' = snd s @ l \<and> wait_log high l"
proof -
  from assms obtain poll deadline s1 now where n: "quiet (dh_Now H) s = (s1, now)"
    and w: "wait_loop (traced H) high poll deadline s1 = Some (s', Ok ())"
    by (auto simp: WaitCaughtUp_def Let_def split: prod.splits)
  from wait_loop_log [OF w] quiet_log [OF n] show ?thesis by simp
qed

text \<open>
  The log of one chunk. The rows are read under the low watermark and are the rows put in the
  window, the high watermark is asked for after the gate is flushed, the wait ends on its proof,
  and the release carries the position read after it.
\<close>

definition chunk_log ::
  "bool \<Rightarrow> u32 list \<Rightarrow> 'f chunk list \<Rightarrow> u32 \<Rightarrow> ('f, 'b) snap_ev list \<Rightarrow> bool" where
  "chunk_log cb pending chunks c l \<longleftrightarrow>
     (\<exists>low rows high waited at.
        l = [EGate c, EOpen c, ESynced low, EScan (chunks ! unat c) low (Some rows), EAdd c rows, EFlush,
             EMaster (Some high)]
            @ waited @ [ESynced at, EClear, ERelease c at]
            @ (if cb then [ECallback c (RemoveFromPending pending c)] else [])
        \<and> wait_log high waited)"

lemma snap_chunk_log:
  assumes "snap_chunk (traced H) cfg pending (chunks ! unat c) c s = Some (s', Ok ())"
  shows "\<exists>l. snd s' = snd s @ l \<and> chunk_log (dh_cb H \<noteq> None) pending chunks c l"
proof -
  from assms obtain s1 s2 s3 s4 s5 s6 s7 s8 low rows high at where st:
    "noted ESynced (dh_Synced H) (dh_OpenWindow (traced H) (dh_GateOn (traced H) s c) c) = (s1, low)"
    "noted (EScan (chunks ! unat c) low) (\<lambda>h. dh_scanChunk H h (chunks ! unat c) low) s1 = (s2, Some rows)"
    "noted (\<lambda>_. EAdd c rows) (\<lambda>h. dh_AddWindowRows H h c rows) s2 = (s3, Some ())"
    "noted (\<lambda>_. EFlush) (dh_GateFlush H) s3 = (s4, Some ())"
    "noted EMaster (dh_Master H) s4 = (s5, Some high)"
    "WaitCaughtUp (traced H) cfg high s5 = Some (s6, Ok ())"
    "noted ESynced (dh_Synced H) s6 = (s7, at)"
    "noted (\<lambda>_. ERelease c at) (\<lambda>h. dh_Release H h c at) (dh_ClearWindow (traced H) s7) = (s8, Some ())"
    and cb: "snd s' = snd s8 @ (if dh_cb H \<noteq> None then [ECallback c (RemoveFromPending pending c)] else [])"
    unfolding snap_chunk_def by (auto simp: io_ok split: option.splits prod.splits)
  obtain waited where w: "snd s6 = snd s5 @ waited" "wait_log high waited"
    using WaitCaughtUp_log [OF st(6)] by blast
  show ?thesis
    unfolding chunk_log_def
    using st(1-5,7,8) [THEN noted_log] w cb
    by (intro exI [of _ "[EGate c, EOpen c, ESynced low, EScan (chunks ! unat c) low (Some rows), EAdd c rows, EFlush,
             EMaster (Some high)] @ waited @ [ESynced at, EClear, ERelease c at]
            @ (if dh_cb H \<noteq> None then [ECallback c (RemoveFromPending pending c)] else [])"] conjI) auto
qed

lemma snap_chunks_log:
  "snap_chunks (traced H) cfg pending chunks ids s = Some (s', Ok ()) \<Longrightarrow>
     \<exists>logs. snd s' = snd s @ concat logs \<and>
       list_all2 (chunk_log (dh_cb H \<noteq> None) pending chunks) (filter (\<lambda>c. unat c < length chunks) ids) logs"
proof (induction ids arbitrary: s)
  case Nil
  then show ?case by (simp add: io_ok)
next
  case (Cons c ids)
  then obtain s1 where s1: "quiet (dh_Err H) s = (s1, False)"
    and rest: "(if unat c \<ge> length chunks then snap_chunks (traced H) cfg pending chunks ids
        else io_bind (snap_chunk (traced H) cfg pending (chunks ! unat c) c)
               (\<lambda>_. snap_chunks (traced H) cfg pending chunks ids)) s1 = Some (s', Ok ())"
    by (auto simp: io_ok split: if_splits)
  note log1 = quiet_log [OF s1]
  show ?case
  proof (cases "unat c \<ge> length chunks")
    case True
    with rest Cons.IH [of s1] log1 show ?thesis by simp
  next
    case False
    with rest obtain s2 where s2: "snap_chunk (traced H) cfg pending (chunks ! unat c) c s1 = Some (s2, Ok ())"
      and s3: "snap_chunks (traced H) cfg pending chunks ids s2 = Some (s', Ok ())"
      by (auto simp: io_ok)
    obtain l where l: "snd s2 = snd s1 @ l" "chunk_log (dh_cb H \<noteq> None) pending chunks c l"
      using snap_chunk_log [OF s2] by blast
    obtain logs where "snd s' = snd s2 @ concat logs"
      "list_all2 (chunk_log (dh_cb H \<noteq> None) pending chunks) (filter (\<lambda>c. unat c < length chunks) ids) logs"
      using Cons.IH [OF s3] by blast
    with l log1 False show ?thesis by (intro exI [of _ "l # logs"]) simp
  qed
qed

text \<open>The plan a snapshot starts from, and what choosing it leaves in the log.\<close>

definition plan_log ::
  "('h, 'f, 'b) dblog_host \<Rightarrow> 'f snap_cfg \<Rightarrow> 'h \<Rightarrow> 'f pkey list \<Rightarrow> u32 list \<Rightarrow> ('f, 'b) snap_ev list \<Rightarrow> bool" where
  "plan_log H cfg h bounds pending l \<longleftrightarrow>
     (if Resumable (sc_Progress cfg)
      then bounds = sp_Bounds (the (sc_Progress cfg)) \<and> pending = sp_Pending (the (sc_Progress cfg)) \<and> l = []
      else snd (dh_Bounds H h) = Some bounds \<and> pending = map word_of_nat [0..<length bounds] \<and>
           l = EBounds (Some bounds) #
             (if dh_Persist H = None then []
              else [EPersist \<lparr>sp_State = StateInProgress, sp_Bounds = bounds, sp_Pending = pending,
                              sp_Started = sc_Started cfg\<rparr>]))"

lemma cold_start_log:
  assumes "cold_start (traced H) cfg s = Some (s1, Ok (bounds, pending))" "\<not> Resumable (sc_Progress cfg)"
  shows "\<exists>l. snd s1 = snd s @ l \<and> plan_log H cfg (fst s) bounds pending l"
proof -
  from assms(1) obtain s0 where b: "noted EBounds (dh_Bounds H) s = (s0, Some bounds)"
    and p: "pending = map word_of_nat [0..<length bounds]"
    and l: "snd s1 = snd s0 @ (if dh_Persist H = None then []
        else [EPersist \<lparr>sp_State = StateInProgress, sp_Bounds = bounds, sp_Pending = pending,
                        sp_Started = sc_Started cfg\<rparr>])"
    by (cases "dh_Persist H") (auto simp: cold_start_def io_ok Let_def dest: noted_log)
  from noted_log [OF b] noted_answer [OF b] p l assms(2) show ?thesis by (simp add: plan_log_def)
qed

lemma SnapshotTable_log:
  assumes "SnapshotTable (traced H) cfg s = Some (s', Ok ())"
  shows "\<exists>bounds pending start logs.
    snd s' = snd s @ start @ concat logs \<and> plan_log H cfg (fst s) bounds pending start \<and>
    list_all2 (chunk_log (dh_cb H \<noteq> None) pending (Chunks bounds))
      (filter (\<lambda>c. unat c < length (Chunks bounds)) pending) logs"
proof -
  obtain s1 bounds pending where start:
    "(case sc_Progress cfg of
          Some sp \<Rightarrow> if Resumable (Some sp) then io_ret (sp_Bounds sp, sp_Pending sp) else cold_start (traced H) cfg
        | None \<Rightarrow> cold_start (traced H) cfg) s = Some (s1, Ok (bounds, pending))"
    and run: "snap_chunks (traced H) cfg pending (Chunks bounds) pending s1 = Some (s', Ok ())"
    using assms by (auto simp: SnapshotTable_def io_ok)
  have "\<exists>l. snd s1 = snd s @ l \<and> plan_log H cfg (fst s) bounds pending l"
  proof (cases "Resumable (sc_Progress cfg)")
    case True
    with start show ?thesis by (auto simp: io_ok plan_log_def Resumable_def split: option.splits)
  next
    case False
    with start have "cold_start (traced H) cfg s = Some (s1, Ok (bounds, pending))"
      by (auto split: option.splits)
    from cold_start_log [OF this False] show ?thesis .
  qed
  then obtain l where "snd s1 = snd s @ l" "plan_log H cfg (fst s) bounds pending l" by blast
  with snap_chunks_log [OF run] show ?thesis by auto
qed

section \<open>Properties\<close>

text \<open>Concrete hosts, for evaluation: one that never catches up, and one that is always caught up and
  holds three chunks.\<close>

definition slow_host :: "(int, int, unit) dblog_host" where
  "slow_host = \<lparr>
     dh_Err = (\<lambda>h. (h, False)),
     dh_Bounds = (\<lambda>h. (h, Some [[CInt64 0], [CInt64 10], [CInt64 20]])),
     dh_Persist = None,
     dh_GateOn = (\<lambda>h i. h),
     dh_OpenWindow = (\<lambda>h i. h),
     dh_ClearWindow = (\<lambda>h. h),
     dh_Synced = (\<lambda>h. (h, None)),
     dh_Master = (\<lambda>h. (h, Some (PString ''m''))),
     dh_scanChunk = (\<lambda>h ch low. (h, Some ())),
     dh_AddWindowRows = (\<lambda>h i rows. (h, Some ())),
     dh_GateFlush = (\<lambda>h. (h, Some ())),
     dh_Release = (\<lambda>h i at. (h, Some ())),
     dh_cb = Some (\<lambda>h i rest. h),
     dh_Now = (\<lambda>h. (h, h)),
     dh_Sleep = (\<lambda>h p. (h + p, False))\<rparr>"

definition prompt_host :: "(int, int, unit) dblog_host" where
  "prompt_host = slow_host\<lparr>dh_Synced := (\<lambda>h. (h, Some (PString ''m'')))\<rparr>"

definition plain_cfg :: "int snap_cfg" where
  "plain_cfg = \<lparr>sc_WindowTimeout = 0, sc_CaughtUpPoll = 0, sc_Progress = None, sc_Started = []\<rparr>"

fun run_log :: "(('h \<times> ('f, 'b) snap_ev list) \<times> (dblog_err, unit) res) option \<Rightarrow> ('f, 'b) snap_ev list option" where
  "run_log (Some ((h, log), Ok u)) = Some log"
| "run_log _ = None"

lemma run_log_Some: "run_log r = Some log \<Longrightarrow> \<exists>h. r = Some ((h, log), Ok ())"
  by (cases r rule: run_log.cases) auto

fun callback :: "('f, 'b) snap_ev \<Rightarrow> (u32 \<times> u32 list) option" where
  "callback (ECallback i rest) = Some (i, rest)"
| "callback _ = None"

text \<open>
  C24: The wait for a chunk's high watermark always ends, with the proof, the stuck-window error or a
  cancelled context, when the clock never runs backwards and a sleep lasts at least its duration.
\<close>

theorem WaitCaughtUp_ends:
  assumes "advances H clock"
  shows "\<exists>r. WaitCaughtUp H cfg high h = Some r"
proof -
  obtain h1 now where "dh_Now H h = (h1, now)" by fastforce
  moreover have "0 < (if sc_CaughtUpPoll cfg \<le> 0 then 1000000000 else sc_CaughtUpPoll cfg)" by simp
  note wait_loop_ends [OF assms this]
  ultimately show ?thesis
    unfolding WaitCaughtUp_def Let_def by (simp del: split_paired_Ex)
qed

theorem WaitCaughtUp_ends_witness: "\<exists>r. WaitCaughtUp slow_host plain_cfg (PString ''m'') 0 = Some r"
  by (rule WaitCaughtUp_ends [of _ "\<lambda>h. h"]) (simp add: advances_def slow_host_def)

text \<open>
  The wait succeeds only on the proof: the reader's synced position, as last read, contains the
  high watermark. Time alone never ends it with success.
\<close>

theorem WaitCaughtUp_only_on_proof:
  assumes "WaitCaughtUp H cfg high h = Some (h', Ok ())"
  shows "\<exists>g synced. dh_Synced H g = (h', Some synced) \<and> Contains synced high = Some True"
proof -
  from assms obtain poll deadline h1 where "wait_loop H high poll deadline h1 = Some (h', Ok ())"
    by (auto simp: WaitCaughtUp_def Let_def split: prod.splits)
  from wait_loop_proof [OF this] show ?thesis by simp
qed

lemma prompt_host_waits: "WaitCaughtUp prompt_host plain_cfg (PString ''m'') 0 = Some (0, Ok ())"
  by (simp add: WaitCaughtUp_def prompt_host_def slow_host_def wait_loop.simps)

theorem WaitCaughtUp_only_on_proof_witness:
  "\<exists>g synced. dh_Synced prompt_host g = (0, Some synced) \<and> Contains synced (PString ''m'') = Some True"
  using WaitCaughtUp_only_on_proof [OF prompt_host_waits] .

text \<open>
  C13: A snapshot that finishes drove every chunk of its plan in the same order: the gate closed
  before the window opened and before the rows were read, under the low watermark read between the
  two; those rows were in the window before the gated events were let through; the high watermark
  was asked for after that; the reader was then looked at until a position it had synced contained
  that high watermark; and only then, with the reader's window cleared, was the chunk released, at
  the position read after the proof. A cold start covers every chunk between the bounds the source
  returned, which it has persisted first when it persists at all; a resume covers what was pending
  between the persisted bounds.
\<close>

theorem SnapshotTable_order:
  assumes "SnapshotTable (traced H) cfg (h, []) = Some ((h', log), Ok ())"
  shows "\<exists>bounds pending start logs.
    log = start @ concat logs \<and> plan_log H cfg h bounds pending start \<and>
    list_all2 (chunk_log (dh_cb H \<noteq> None) pending (Chunks bounds))
      (filter (\<lambda>c. unat c < length (Chunks bounds)) pending) logs"
  using SnapshotTable_log [OF assms] by simp

lemma prompt_host_snapshot: "\<exists>h' log. SnapshotTable (traced prompt_host) plain_cfg (0, []) = Some ((h', log), Ok ())"
proof -
  have "run_log (SnapshotTable (traced prompt_host) plain_cfg (0, [])) \<noteq> None" by code_simp
  then show ?thesis using run_log_Some by blast
qed

theorem SnapshotTable_order_witness:
  "\<exists>h' log logs. SnapshotTable (traced prompt_host) plain_cfg (0, []) = Some ((h', log), Ok ())
    \<and> log = EBounds (Some [[CInt64 0], [CInt64 10], [CInt64 20]]) # concat logs
    \<and> list_all2 (chunk_log True [0, 1, 2] (Chunks [[CInt64 0], [CInt64 10], [CInt64 20]])) [0, 1, 2] logs"
proof -
  obtain h' log where run: "SnapshotTable (traced prompt_host) plain_cfg (0, []) = Some ((h', log), Ok ())"
    using prompt_host_snapshot by blast
  have "dh_cb prompt_host \<noteq> None" "\<not> Resumable (sc_Progress plain_cfg)" "dh_Persist prompt_host = None"
    "snd (dh_Bounds prompt_host 0) = Some [[CInt64 0], [CInt64 10], [CInt64 20]]"
    by (simp_all add: prompt_host_def slow_host_def plain_cfg_def Resumable_def)
  with run SnapshotTable_order [OF run] show ?thesis
    by (auto simp: plan_log_def Chunks_def)
qed

lemma callback_in_log:
  assumes "list_all2 (chunk_log cb pending chunks) cs logs" "ECallback d rest \<in> set (concat logs)"
  shows "d \<in> set cs \<and> rest = RemoveFromPending pending d"
  using assms
  by (induction rule: list_all2_induct) (auto simp: chunk_log_def wait_log_def split: if_splits)

lemma plan_log_callback: "plan_log H cfg h bounds pending l \<Longrightarrow> ECallback d rest \<notin> set l"
  by (auto simp: plan_log_def split: if_splits)

text \<open>
  C35: In every finished snapshot, the list of remaining chunks a chunk is reported with still names
  every other chunk reported before it: it is the original pending list without that one chunk, so
  the report after the last chunk lists all the finished ones.
\<close>

theorem SnapshotTable_relists_finished_chunks:
  assumes "SnapshotTable (traced H) cfg (h, []) = Some ((h', log), Ok ())"
    and "i < j" "j < length (List.map_filter callback log)"
    and "List.map_filter callback log ! i = (c, before)" "List.map_filter callback log ! j = (d, rest)" "c \<noteq> d"
  shows "c \<in> set rest"
proof -
  from SnapshotTable_log [OF assms(1)] obtain bounds pending start logs where r:
    "log = start @ concat logs" "plan_log H cfg h bounds pending start"
    "list_all2 (chunk_log (dh_cb H \<noteq> None) pending (Chunks bounds))
      (filter (\<lambda>c. unat c < length (Chunks bounds)) pending) logs" by auto
  have "(c, before) \<in> set (List.map_filter callback log)" "(d, rest) \<in> set (List.map_filter callback log)"
    using assms(2-5) by (metis less_trans nth_mem)+
  then have "ECallback c before \<in> set log" "ECallback d rest \<in> set log"
    by (auto simp: map_filter_def elim: callback.elims)
  with r(1) plan_log_callback [OF r(2)]
  have "ECallback c before \<in> set (concat logs)" "ECallback d rest \<in> set (concat logs)" by auto
  from callback_in_log [OF r(3) this(1)] callback_in_log [OF r(3) this(2)] assms(6)
  show ?thesis by (simp add: RemoveFromPending_def)
qed

theorem SnapshotTable_relists_finished_chunks_witness:
  "\<exists>h' log. SnapshotTable (traced prompt_host) plain_cfg (0, []) = Some ((h', log), Ok ())
    \<and> List.map_filter callback log ! 2 = (2, [0, 1]) \<and> (0::u32) \<in> set [0, 1]"
proof -
  obtain h' log where run: "SnapshotTable (traced prompt_host) plain_cfg (0, []) = Some ((h', log), Ok ())"
    using prompt_host_snapshot by blast
  have "map_option (List.map_filter callback) (run_log (SnapshotTable (traced prompt_host) plain_cfg (0, [])))
     = Some [(0, [1, 2]), (1, [0, 2]), (2, [0, 1])]" by code_simp
  with run have cbs: "List.map_filter callback log = [(0, [1, 2]), (1, [0, 2]), (2, [0, 1])]" by simp
  have "(0::u32) \<in> set [0, 1]"
    by (rule SnapshotTable_relists_finished_chunks [OF run, of 0 2 _ "[1, 2]" 2]) (simp_all add: cbs)
  with run cbs show ?thesis by simp
qed

end
