(* ===== verification/Budget.thy ===== *)
theory Budget
  imports Prelude
begin

text \<open>
  \<open>internal/inflight/budget.go\<close>: the coordinator's global in-flight budget. Every operation runs
  under the budget's mutex, so it is one atomic definition; \<open>Acquire\<close>'s wait loop is a guard that
  is re-evaluated at every wake-up. A ledger of the charged batches runs beside the budget: the
  step relation \<open>bstep\<close> interleaves the admissions with the releases of
  \<open>internal/coordinator/confirmed.go\<close> and \<open>enqueue.go\<close>, whose \<open>Release\<close> and \<open>ClearOversized\<close> are
  two critical sections. Byte counts are far below \<open>2^63\<close>, so \<open>int64\<close> is \<open>int\<close>.
\<close>

section \<open>The budget\<close>

record budget =
  TotalBytes :: int
  perWorkerMin :: int
  PerWorkerMax :: int
  bg_used :: "(string, int) gomap"
  usedTotal :: int
  oversizedOwner :: string

definition NewBudget :: "int \<Rightarrow> int \<Rightarrow> budget" where
  "NewBudget totalBytes perMin =
     \<lparr>TotalBytes = totalBytes, perWorkerMin = perMin, PerWorkerMax = 0,
      bg_used = [], usedTotal = 0, oversizedOwner = ''''\<rparr>"

definition underWorkerMax :: "budget \<Rightarrow> string \<Rightarrow> int \<Rightarrow> bool" where
  "underWorkerMax b w n =
     (let used = gm_at 0 (bg_used b) w in
      PerWorkerMax b \<le> 0 \<or> used = 0 \<or> used + n \<le> PerWorkerMax b)"

definition IsOversized :: "budget \<Rightarrow> int \<Rightarrow> bool" where
  "IsOversized b n = (n > TotalBytes b)"

definition admits :: "budget \<Rightarrow> string \<Rightarrow> int \<Rightarrow> bool" where
  "admits b w n =
     (if n > TotalBytes b then oversizedOwner b = ''''
      else (usedTotal b + n \<le> TotalBytes b \<or> gm_at 0 (bg_used b) w + n \<le> perWorkerMin b)
           \<and> underWorkerMax b w n)"

definition charge_batch :: "budget \<Rightarrow> string \<Rightarrow> int \<Rightarrow> budget" where
  "charge_batch b w n =
     b\<lparr>bg_used := gm_put w (gm_at 0 (bg_used b) w + n) (bg_used b),
       usedTotal := usedTotal b + n,
       oversizedOwner := (if n > TotalBytes b then w else oversizedOwner b)\<rparr>"

text \<open>One pass of \<open>Acquire\<close>'s loop: admitted, cancelled, or back to waiting.\<close>

datatype acquire_pass = Admitted budget | Cancelled | Waits

definition Acquire_pass :: "bool \<Rightarrow> budget \<Rightarrow> string \<Rightarrow> int \<Rightarrow> acquire_pass" where
  "Acquire_pass ctxErr b w n =
     (if admits b w n then Admitted (charge_batch b w n)
      else if ctxErr then Cancelled
      else Waits)"

text \<open>
  \<open>Acquire\<close> itself: the context is checked once before the lock is taken, then the loop looks at
  the budget on entry and after every wake-up. The list holds what each look sees, the state of
  the context and the budget; a call that has looked at all of it without an answer still waits.
\<close>

fun Acquire_loop :: "(bool \<times> budget) list \<Rightarrow> string \<Rightarrow> int \<Rightarrow> acquire_pass" where
  "Acquire_loop [] w n = Waits"
| "Acquire_loop ((ctxErr, b) # looks) w n =
     (case Acquire_pass ctxErr b w n of
        Admitted b' \<Rightarrow> Admitted b'
      | Cancelled \<Rightarrow> Cancelled
      | Waits \<Rightarrow> Acquire_loop looks w n)"

definition Acquire :: "bool \<Rightarrow> (bool \<times> budget) list \<Rightarrow> string \<Rightarrow> int \<Rightarrow> acquire_pass" where
  "Acquire ctxErr looks w n = (if ctxErr then Cancelled else Acquire_loop looks w n)"

definition Budget_Release :: "budget \<Rightarrow> string \<Rightarrow> int \<Rightarrow> budget" where
  "Budget_Release b w n =
     (let u = gm_at 0 (bg_used b) w - n;
          b1 = b\<lparr>bg_used := gm_put w u (bg_used b), usedTotal := usedTotal b - n\<rparr>
      in if u \<le> 0
         then b1\<lparr>bg_used := gm_del w (bg_used b1),
                 oversizedOwner := (if oversizedOwner b1 = w then '''' else oversizedOwner b1)\<rparr>
         else b1)"

definition ClearOversized :: "budget \<Rightarrow> string \<Rightarrow> budget" where
  "ClearOversized b w =
     (if oversizedOwner b = w then b\<lparr>oversizedOwner := ''''\<rparr> else b)"

definition Budget_InFlight :: "budget \<Rightarrow> string \<Rightarrow> int" where
  "Budget_InFlight b w = gm_at 0 (bg_used b) w"

section \<open>Charged batches\<close>

type_synonym ledger = "(string \<times> int) multiset"

definition charge :: "ledger \<Rightarrow> string \<Rightarrow> int" where
  "charge L w = sum_mset (image_mset snd (filter_mset (\<lambda>x. fst x = w) L))"

definition charged :: "ledger \<Rightarrow> int" where
  "charged L = sum_mset (image_mset snd L)"

definition regular :: "int \<Rightarrow> ledger \<Rightarrow> ledger" where
  "regular T L = filter_mset (\<lambda>x. snd x \<le> T) L"

definition oversized :: "int \<Rightarrow> ledger \<Rightarrow> ledger" where
  "oversized T L = filter_mset (\<lambda>x. snd x > T) L"

definition nonneg :: "ledger \<Rightarrow> bool" where
  "nonneg L \<longleftrightarrow> (\<forall>x\<in>#L. 0 \<le> snd x)"

lemma charge_add [simp]: "charge (L + M) w = charge L w + charge M w"
  by (simp add: charge_def)

lemma charge_add_mset [simp]:
  "charge (add_mset (w', n) L) w = (if w' = w then n else 0) + charge L w"
  by (simp add: charge_def)

lemma charge_empty [simp]: "charge {#} w = 0"
  by (simp add: charge_def)

lemma charged_add [simp]: "charged (L + M) = charged L + charged M"
  by (simp add: charged_def)

lemma charged_add_mset [simp]: "charged (add_mset (w, n) L) = n + charged L"
  by (simp add: charged_def)

lemma charged_empty [simp]: "charged {#} = 0"
  by (simp add: charged_def)

lemma regular_add [simp]: "regular T (L + M) = regular T L + regular T M"
  by (simp add: regular_def)

lemma oversized_add [simp]: "oversized T (L + M) = oversized T L + oversized T M"
  by (simp add: oversized_def)

lemma nonneg_add [simp]: "nonneg (L + M) \<longleftrightarrow> nonneg L \<and> nonneg M"
  by (auto simp: nonneg_def)

lemma nonneg_sum: "nonneg L \<Longrightarrow> 0 \<le> sum_mset (image_mset snd L)"
  by (induction L) (auto simp: nonneg_def)

lemma charge_nonneg: "nonneg L \<Longrightarrow> 0 \<le> charge L w"
  unfolding charge_def by (rule nonneg_sum) (auto simp: nonneg_def)

lemma charged_nonneg: "nonneg L \<Longrightarrow> 0 \<le> charged L"
  unfolding charged_def by (rule nonneg_sum)

lemma charge_sum_le: "nonneg L \<Longrightarrow> finite W \<Longrightarrow> (\<Sum>w\<in>W. charge L w) \<le> charged L"
proof (induction L)
  case (add x L)
  obtain w n where x: "x = (w, n)" by force
  from add have IH: "(\<Sum>w\<in>W. charge L w) \<le> charged L" and n: "0 \<le> n"
    by (auto simp: nonneg_def x)
  have "(\<Sum>v\<in>W. charge (add_mset x L) v) = (\<Sum>v\<in>W. if w = v then n else 0) + (\<Sum>v\<in>W. charge L v)"
    by (simp add: x sum.distrib)
  also have "(\<Sum>v\<in>W. if w = v then n else 0) \<le> n"
    using add.prems n by simp
  finally show ?case using IH by (simp add: x)
qed simp

lemma charged_split:
  "finite W \<Longrightarrow> fst ` set_mset L \<subseteq> W \<Longrightarrow> charged L = (\<Sum>w\<in>W. charge L w)"
proof (induction L)
  case (add x L)
  obtain w n where x: "x = (w, n)" by force
  have "(\<Sum>v\<in>W. charge (add_mset x L) v) = (\<Sum>v\<in>W. if w = v then n else 0) + (\<Sum>v\<in>W. charge L v)"
    by (simp add: x sum.distrib)
  with add show ?case by (simp add: x)
qed simp

lemma regular_subset: "regular T L \<subseteq># L"
  by (simp add: regular_def)

lemma nonneg_regular: "nonneg L \<Longrightarrow> nonneg (regular T L)"
  by (auto simp: nonneg_def regular_def)

lemma regular_oversized: "L = regular T L + oversized T L"
  using multiset_partition [of L "\<lambda>x. snd x \<le> T"] by (simp add: regular_def oversized_def not_le)

lemma nonneg_oversized: "nonneg L \<Longrightarrow> nonneg (oversized T L)"
  by (auto simp: nonneg_def oversized_def)

lemma charge_regular_le: "nonneg L \<Longrightarrow> charge (regular T L) w \<le> charge L w"
proof -
  assume "nonneg L"
  then have "0 \<le> charge (oversized T L) w" by (intro charge_nonneg nonneg_oversized)
  moreover have "charge L w = charge (regular T L) w + charge (oversized T L) w"
    by (subst regular_oversized [of L T]) (rule charge_add)
  ultimately show ?thesis by simp
qed

lemma charged_regular_le: "nonneg L \<Longrightarrow> charged (regular T L) \<le> charged L"
proof -
  assume "nonneg L"
  then have "0 \<le> charged (oversized T L)" by (intro charged_nonneg nonneg_oversized)
  moreover have "charged L = charged (regular T L) + charged (oversized T L)"
    by (subst regular_oversized [of L T]) (rule charged_add)
  ultimately show ?thesis by simp
qed

section \<open>Admissions and releases, interleaved\<close>

record bstate =
  bs_budget :: budget
  bs_ledger :: ledger
  bs_clears :: "string multiset"

text \<open>
  An admission charges one batch. Freeing takes batches of one worker out of the ledger and
  releases their bytes; when one of them was oversized, the same goroutine clears the worker's
  slot in a later critical section, \<open>bs_clears\<close> being the clears still to come.
\<close>

inductive bstep :: "bstate \<Rightarrow> bstate \<Rightarrow> bool" where
  admit: "admits (bs_budget s) w n \<Longrightarrow> w \<noteq> '''' \<Longrightarrow> 0 \<le> n \<Longrightarrow>
     bstep s (s\<lparr>bs_budget := charge_batch (bs_budget s) w n,
                bs_ledger := add_mset (w, n) (bs_ledger s)\<rparr>)"
| free: "M \<subseteq># bs_ledger s \<Longrightarrow> \<forall>x\<in>#M. fst x = w \<Longrightarrow>
     bstep s (s\<lparr>bs_budget := (if charged M > 0 then Budget_Release (bs_budget s) w (charged M)
                              else bs_budget s),
                bs_ledger := bs_ledger s - M,
                bs_clears := (if \<exists>x\<in>#M. IsOversized (bs_budget s) (snd x)
                              then add_mset w (bs_clears s) else bs_clears s)\<rparr>)"
| clear: "w \<in># bs_clears s \<Longrightarrow>
     bstep s (s\<lparr>bs_budget := ClearOversized (bs_budget s) w, bs_clears := bs_clears s - {#w#}\<rparr>)"

definition binit :: "budget \<Rightarrow> bstate" where
  "binit b = \<lparr>bs_budget = b, bs_ledger = {#}, bs_clears = {#}\<rparr>"

text \<open>The budget's bookkeeping agrees with the batches that are really in flight.\<close>

definition books :: "bstate \<Rightarrow> bool" where
  "books s \<longleftrightarrow>
     nonneg (bs_ledger s) \<and>
     usedTotal (bs_budget s) = charged (bs_ledger s) \<and>
     (\<forall>w. gm_at 0 (bg_used (bs_budget s)) w = charge (bs_ledger s) w)"

definition floors :: "bstate \<Rightarrow> bool" where
  "floors s \<longleftrightarrow>
     (\<forall>W. finite W \<longrightarrow>
        (\<Sum>w\<in>W. max 0 (charge (regular (TotalBytes (bs_budget s)) (bs_ledger s)) w
                        - perWorkerMin (bs_budget s))) \<le> TotalBytes (bs_budget s))"

lemma charge_of_worker: "\<forall>x\<in>#M. fst x = w \<Longrightarrow> charge M v = (if v = w then charged M else 0)"
proof (induction M)
  case (add x M)
  then show ?case by (cases x) auto
qed simp

lemma limits_const:
  "TotalBytes (charge_batch b w n) = TotalBytes b" "perWorkerMin (charge_batch b w n) = perWorkerMin b"
  "TotalBytes (Budget_Release b w n) = TotalBytes b" "perWorkerMin (Budget_Release b w n) = perWorkerMin b"
  "TotalBytes (ClearOversized b w) = TotalBytes b" "perWorkerMin (ClearOversized b w) = perWorkerMin b"
  by (simp_all add: charge_batch_def Budget_Release_def ClearOversized_def Let_def)

lemma bstep_limits:
  "bstep s t \<Longrightarrow> TotalBytes (bs_budget t) = TotalBytes (bs_budget s) \<and>
     perWorkerMin (bs_budget t) = perWorkerMin (bs_budget s)"
  by (induction rule: bstep.induct) (simp_all add: limits_const)

lemma charge_sub_le:
  assumes "M \<subseteq># L" "nonneg L"
  shows "charge (L - M) w = charge L w - charge M w" "charged (L - M) = charged L - charged M"
    "nonneg (L - M)" "nonneg M"
proof -
  obtain N where L: "L = M + N" using assms(1) by (auto simp: mset_subset_eq_exists_conv)
  then show "charge (L - M) w = charge L w - charge M w" "charged (L - M) = charged L - charged M"
    "nonneg (L - M)" "nonneg M" using assms(2) by simp_all
qed

lemma Budget_Release_books:
  assumes "gm_at 0 (bg_used b) w = c" "n \<le> c"
  shows "gm_at 0 (bg_used (Budget_Release b w n)) v
           = (if v = w then c - n else gm_at 0 (bg_used b) v)"
    and "usedTotal (Budget_Release b w n) = usedTotal b - n"
  using assms by (auto simp: Budget_Release_def Let_def)

lemma books_step: "bstep s t \<Longrightarrow> books s \<Longrightarrow> books t"
proof (induction rule: bstep.induct)
  case (admit s w n)
  then show ?case by (auto simp: books_def charge_batch_def nonneg_def)
next
  case (free M s w)
  let ?L = "bs_ledger s" and ?b = "bs_budget s"
  have L: "nonneg ?L" using free.prems by (simp add: books_def)
  note sub = charge_sub_le [OF free.hyps(1) L]
  have M: "charge M v = (if v = w then charged M else 0)" for v
    by (rule charge_of_worker [OF free.hyps(2)])
  have used: "gm_at 0 (bg_used ?b) v = charge ?L v" for v
    using free.prems by (simp add: books_def)
  have "charged M \<le> charge ?L w"
    using sub(1) [of w] charge_nonneg [OF sub(3), of w] M by simp
  note rel = Budget_Release_books [OF used [of w] this]
  show ?case
  proof (cases "charged M > 0")
    case True
    with rel used M sub free.prems show ?thesis by (auto simp: books_def)
  next
    case False
    with charged_nonneg [OF sub(4)] have "charged M = 0" by simp
    with used M sub free.prems show ?thesis by (auto simp: books_def)
  qed
next
  case (clear w s)
  then show ?case by (simp add: books_def ClearOversized_def)
qed

lemma floors_mono:
  assumes "floors s"
    and "TotalBytes (bs_budget t) = TotalBytes (bs_budget s)"
    and "perWorkerMin (bs_budget t) = perWorkerMin (bs_budget s)"
    and le: "\<And>w. max 0 (charge (regular (TotalBytes (bs_budget s)) (bs_ledger t)) w - perWorkerMin (bs_budget s))
             \<le> max 0 (charge (regular (TotalBytes (bs_budget s)) (bs_ledger s)) w - perWorkerMin (bs_budget s))"
  shows "floors t"
  unfolding floors_def assms(2,3)
proof (intro allI impI)
  fix W :: "string set" assume "finite W"
  let ?f = "\<lambda>u w. max 0 (charge (regular (TotalBytes (bs_budget s)) (bs_ledger u)) w
                          - perWorkerMin (bs_budget s))"
  have "(\<Sum>w\<in>W. ?f t w) \<le> (\<Sum>w\<in>W. ?f s w)" by (rule sum_mono) (rule le)
  also have "\<dots> \<le> TotalBytes (bs_budget s)"
    using assms(1) \<open>finite W\<close> by (simp add: floors_def)
  finally show "(\<Sum>w\<in>W. ?f t w) \<le> TotalBytes (bs_budget s)" .
qed

lemma floors_of_total:
  assumes "nonneg (bs_ledger t)" "charged (bs_ledger t) \<le> TotalBytes (bs_budget t)"
    "0 \<le> perWorkerMin (bs_budget t)"
  shows "floors t"
  unfolding floors_def
proof (intro allI impI)
  fix W :: "string set" assume W: "finite W"
  let ?R = "regular (TotalBytes (bs_budget t)) (bs_ledger t)"
  have nn: "nonneg ?R" using assms(1) by (rule nonneg_regular)
  have "(\<Sum>w\<in>W. max 0 (charge ?R w - perWorkerMin (bs_budget t))) \<le> (\<Sum>w\<in>W. charge ?R w)"
    using assms(3) charge_nonneg [OF nn] by (intro sum_mono) (simp add: max_def)
  also have "\<dots> \<le> charged ?R" by (rule charge_sum_le [OF nn W])
  also have "\<dots> \<le> charged (bs_ledger t)" by (rule charged_regular_le [OF assms(1)])
  finally show "(\<Sum>w\<in>W. max 0 (charge ?R w - perWorkerMin (bs_budget t))) \<le> TotalBytes (bs_budget t)"
    using assms(2) by simp
qed

lemma floors_step:
  assumes "bstep s t" "books s" "floors s" "0 \<le> perWorkerMin (bs_budget s)"
  shows "floors t"
  using assms
proof (cases rule: bstep.cases)
  case (admit w n)
  let ?b = "bs_budget s" and ?L = "bs_ledger s"
  have t: "bs_ledger t = add_mset (w, n) ?L" "bs_budget t = charge_batch ?b w n"
    using admit by simp_all
  have books: "books t" using assms(1,2) by (rule books_step)
  consider (over) "n > TotalBytes ?b" | (fits) "n \<le> TotalBytes ?b" "usedTotal ?b + n \<le> TotalBytes ?b"
    | (floor) "n \<le> TotalBytes ?b" "gm_at 0 (bg_used ?b) w + n \<le> perWorkerMin ?b"
    using admit(2) by (auto simp: admits_def split: if_splits)
  then show ?thesis
  proof cases
    case over
    then show ?thesis
      by (intro floors_mono [OF assms(3)]) (simp_all add: t limits_const regular_def)
  next
    case fits
    with assms(2,4) books show ?thesis
      by (intro floors_of_total) (simp_all add: t limits_const books_def)
  next
    case floor
    have nn: "nonneg (add_mset (w, n) ?L)" using books by (simp add: books_def t)
    have "charge (regular (TotalBytes ?b) (bs_ledger t)) w \<le> charge (bs_ledger t) w"
      unfolding t(1) by (rule charge_regular_le [OF nn])
    also have "\<dots> \<le> perWorkerMin ?b"
      using floor assms(2) by (simp add: t books_def)
    finally show ?thesis
      using floor(1)
      by (intro floors_mono [OF assms(3)])
        (auto simp: t limits_const regular_def max_def)
  qed
next
  case (free M w)
  let ?T = "TotalBytes (bs_budget s)"
  have t: "bs_ledger t = bs_ledger s - M" using free by simp
  obtain N where N: "bs_ledger s = M + N"
    using free(2) by (auto simp: mset_subset_eq_exists_conv)
  have "nonneg M" using assms(2) N by (simp add: books_def)
  then have "0 \<le> charge (regular ?T M) v" for v by (intro charge_nonneg nonneg_regular)
  then have le: "charge (regular ?T (bs_ledger t)) v \<le> charge (regular ?T (bs_ledger s)) v" for v
    by (simp add: t N)
  show ?thesis
    using bstep_limits [OF assms(1)] le
    by (intro floors_mono [OF assms(3)] max.mono) simp_all
next
  case (clear w)
  then show ?thesis
    by (intro floors_mono [OF assms(3)]) (simp_all add: limits_const)
qed

section \<open>The oversized slot\<close>

text \<open>
  When the release and the clear are not separated, the slot names the worker of the one oversized
  batch in flight.
\<close>

definition free_all :: "bstate \<Rightarrow> string \<Rightarrow> ledger \<Rightarrow> bstate" where
  "free_all s w M =
     (let b = (if charged M > 0 then Budget_Release (bs_budget s) w (charged M) else bs_budget s)
      in s\<lparr>bs_budget := (if \<exists>x\<in>#M. IsOversized b (snd x) then ClearOversized b w else b),
           bs_ledger := bs_ledger s - M\<rparr>)"

inductive bstep_serial :: "bstate \<Rightarrow> bstate \<Rightarrow> bool" where
  admit: "admits (bs_budget s) w n \<Longrightarrow> w \<noteq> '''' \<Longrightarrow> 0 \<le> n \<Longrightarrow>
     bstep_serial s (s\<lparr>bs_budget := charge_batch (bs_budget s) w n,
                       bs_ledger := add_mset (w, n) (bs_ledger s)\<rparr>)"
| free: "M \<subseteq># bs_ledger s \<Longrightarrow> \<forall>x\<in>#M. fst x = w \<Longrightarrow> bstep_serial s (free_all s w M)"

definition slot_ok :: "bstate \<Rightarrow> bool" where
  "slot_ok s \<longleftrightarrow>
     (let ov = oversized (TotalBytes (bs_budget s)) (bs_ledger s); w = oversizedOwner (bs_budget s)
      in if w = '''' then ov = {#} else \<exists>n. ov = {#(w, n)#})"

text \<open>A serial release is a free step followed at once by its clear.\<close>

lemma serial_is_bstep:
  assumes "bstep_serial s t" "bs_clears s = {#}"
  shows "bstep\<^sup>*\<^sup>* s t \<and> bs_clears t = {#}"
  using assms
proof (cases rule: bstep_serial.cases)
  case (admit w n)
  then have "bstep s t" by (auto intro: bstep.admit)
  with admit assms(2) show ?thesis by auto
next
  case (free M w)
  let ?m = "s\<lparr>bs_budget := (if charged M > 0 then Budget_Release (bs_budget s) w (charged M) else bs_budget s),
      bs_ledger := bs_ledger s - M,
      bs_clears := (if \<exists>x\<in>#M. IsOversized (bs_budget s) (snd x) then add_mset w (bs_clears s) else bs_clears s)\<rparr>"
  have one: "bstep s ?m" using free by (intro bstep.free)
  have lim: "TotalBytes (bs_budget ?m) = TotalBytes (bs_budget s)" by (simp add: limits_const)
  show ?thesis
  proof (cases "\<exists>x\<in>#M. IsOversized (bs_budget s) (snd x)")
    case True
    then have "bstep ?m (?m\<lparr>bs_budget := ClearOversized (bs_budget ?m) w, bs_clears := bs_clears ?m - {#w#}\<rparr>)"
      by (intro bstep.clear) simp
    moreover have "t = ?m\<lparr>bs_budget := ClearOversized (bs_budget ?m) w, bs_clears := bs_clears ?m - {#w#}\<rparr>"
      using True free lim assms(2) by (auto simp: free_all_def Let_def IsOversized_def)
    ultimately show ?thesis using one assms(2) True by auto
  next
    case False
    then have "t = ?m" using free lim by (auto simp: free_all_def Let_def IsOversized_def)
    with one assms(2) False show ?thesis by auto
  qed
qed

lemma in_oversized [simp]: "x \<in># oversized T L \<longleftrightarrow> x \<in># L \<and> snd x > T"
  by (auto simp: oversized_def)

lemma oversized_nonempty: "oversized T L \<noteq> {#} \<longleftrightarrow> (\<exists>x\<in>#L. snd x > T)"
  by (metis in_oversized multiset_nonemptyE empty_not_add_mset insert_DiffM)

lemma oversized_filter_worker:
  "nonneg L \<Longrightarrow> 0 \<le> T \<Longrightarrow> charge L w \<le> 0 \<Longrightarrow> x \<in># oversized T L \<Longrightarrow> fst x \<noteq> w"
proof
  assume L: "nonneg L" "0 \<le> T" "charge L w \<le> 0" and x: "x \<in># oversized T L" "fst x = w"
  then have "x \<in># L" "snd x > T" by (auto simp: oversized_def)
  then obtain N where N: "L = add_mset x N" by (metis mset_add)
  with L x have "charge L w = snd x + charge N w" "nonneg N"
    by (cases x; auto simp: nonneg_def)+
  with charge_nonneg [of N w] L(2,3) \<open>snd x > T\<close> show False by simp
qed

lemma slot_step:
  assumes "bstep_serial s t" "books s" "slot_ok s" "0 \<le> TotalBytes (bs_budget s)"
  shows "slot_ok t"
  using assms
proof (cases rule: bstep_serial.cases)
  case (admit w n)
  then show ?thesis
    using assms(3) by (auto simp: slot_ok_def admits_def charge_batch_def oversized_def Let_def split: if_splits)
next
  case (free M w)
  let ?b = "bs_budget s" and ?L = "bs_ledger s"
  let ?T = "TotalBytes ?b"
  obtain N where N: "?L = M + N" using free(2) by (auto simp: mset_subset_eq_exists_conv)
  have nn: "nonneg M" "nonneg N" using assms(2) N by (simp_all add: books_def)
  have led: "bs_ledger t = N" using free N by (simp add: free_all_def Let_def)
  have tot: "TotalBytes (bs_budget t) = ?T" using free by (simp add: free_all_def Let_def limits_const)
  have chM: "charge M v = (if v = w then charged M else 0)" for v by (rule charge_of_worker [OF free(3)])
  have u: "gm_at 0 (bg_used ?b) w = charged M + charge N w"
    using assms(2) N chM by (simp add: books_def)
  have over: "(\<exists>x\<in>#M. IsOversized ?b (snd x)) \<longleftrightarrow> oversized ?T M \<noteq> {#}"
    by (simp add: IsOversized_def oversized_nonempty)
  have M_pos: "charged M > 0" if nonempty: "oversized ?T M \<noteq> {#}"
  proof (rule ccontr)
    assume "\<not> charged M > 0"
    then have "charge M w \<le> 0" by (simp add: chM)
    moreover obtain x where "x \<in># oversized ?T M" using nonempty by (meson multiset_nonemptyE)
    ultimately have "fst x \<noteq> w" by (intro oversized_filter_worker [OF nn(1) assms(4)])
    with \<open>x \<in># oversized ?T M\<close> free(3) show False by simp
  qed
  have owner: "oversizedOwner (bs_budget t) =
      (if oversizedOwner ?b = w \<and> (oversized ?T M \<noteq> {#} \<or> charged M > 0 \<and> charge N w \<le> 0)
       then '''' else oversizedOwner ?b)"
    using free over M_pos
    by (auto simp: free_all_def Let_def Budget_Release_def ClearOversized_def IsOversized_def u
        split: if_splits)
  show ?thesis
  proof (cases "oversizedOwner ?b = ''''")
    case True
    with assms(3) N have "oversized ?T N = {#}" by (simp add: slot_ok_def)
    with True show ?thesis by (simp add: slot_ok_def owner led tot)
  next
    case False
    with assms(3) have "\<exists>n. oversized ?T ?L = {#(oversizedOwner ?b, n)#}"
      by (simp add: slot_ok_def Let_def)
    then obtain n where "oversized ?T ?L = {#(oversizedOwner ?b, n)#}" ..
    then have ov: "oversized ?T M + oversized ?T N = {#(oversizedOwner ?b, n)#}"
      unfolding N oversized_add .
    consider (gone) "oversized ?T M = {#(oversizedOwner ?b, n)#}" "oversized ?T N = {#}"
      | (kept) "oversized ?T M = {#}" "oversized ?T N = {#(oversizedOwner ?b, n)#}"
      using ov unfolding union_is_single by blast
    then show ?thesis
    proof cases
      case gone
      then have "(oversizedOwner ?b, n) \<in># oversized ?T M" by simp
      then have "(oversizedOwner ?b, n) \<in># M" by simp
      with free(3) have "oversizedOwner ?b = w" by auto
      with gone show ?thesis by (simp add: slot_ok_def owner led tot)
    next
      case kept
      with oversized_filter_worker [OF nn(2) assms(4), of "oversizedOwner ?b" "(oversizedOwner ?b, n)"]
      have "\<not> charge N (oversizedOwner ?b) \<le> 0" by auto
      with kept False show ?thesis by (auto simp: slot_ok_def owner led tot)
    qed
  qed
qed

section \<open>Reachable states\<close>

definition fresh_budget :: "budget \<Rightarrow> bool" where
  "fresh_budget b \<longleftrightarrow>
     bg_used b = [] \<and> usedTotal b = 0 \<and> oversizedOwner b = '''' \<and> 0 \<le> TotalBytes b \<and> 0 \<le> perWorkerMin b"

definition owner_charged :: "bstate \<Rightarrow> bool" where
  "owner_charged s \<longleftrightarrow>
     (let w = oversizedOwner (bs_budget s) in w \<noteq> '''' \<longrightarrow> charge (bs_ledger s) w > 0)"

lemma owner_charged_step:
  assumes "bstep s t" "books s" "owner_charged s" "0 \<le> TotalBytes (bs_budget s)"
  shows "owner_charged t"
  using assms
proof (cases rule: bstep.cases)
  case (admit w n)
  have "0 \<le> charge (bs_ledger s) v" for v
    using assms(2) by (intro charge_nonneg) (simp add: books_def)
  from this [of w] admit assms(3,4) show ?thesis
    by (auto simp: owner_charged_def charge_batch_def Let_def)
next
  case (free M w)
  have L: "nonneg (bs_ledger s)" using assms(2) by (simp add: books_def)
  note sub = charge_sub_le [OF free(2) L]
  have chM: "charge M v = (if v = w then charged M else 0)" for v by (rule charge_of_worker [OF free(3)])
  have u: "gm_at 0 (bg_used (bs_budget s)) w = charge (bs_ledger s) w"
    using assms(2) by (simp add: books_def)
  show ?thesis
  proof (cases "charged M > 0")
    case True
    with free assms(3) show ?thesis
      by (auto simp: owner_charged_def Budget_Release_def Let_def u sub(1) chM split: if_splits)
  next
    case False
    with charged_nonneg [OF sub(4)] have "charged M = 0" by simp
    with free assms(3) show ?thesis by (auto simp: owner_charged_def Let_def sub(1) chM)
  qed
next
  case (clear w)
  with assms(3) show ?thesis by (auto simp: owner_charged_def ClearOversized_def Let_def)
qed

lemma reach_inv:
  assumes "bstep\<^sup>*\<^sup>* (binit b) s" "fresh_budget b"
  shows "books s \<and> floors s \<and> owner_charged s \<and>
         TotalBytes (bs_budget s) = TotalBytes b \<and> perWorkerMin (bs_budget s) = perWorkerMin b"
  using assms(1)
proof (induction rule: rtranclp_induct)
  case base
  have "books (binit b)" using assms(2) by (simp add: books_def binit_def nonneg_def fresh_budget_def)
  moreover have "floors (binit b)"
    using assms(2) by (intro floors_of_total) (simp_all add: binit_def nonneg_def fresh_budget_def)
  ultimately show ?case using assms(2) by (simp add: binit_def owner_charged_def fresh_budget_def)
next
  case (step s t)
  then show ?case
    using books_step [of s t] floors_step [of s t] owner_charged_step [of s t] bstep_limits [of s t] assms(2)
    by (simp add: fresh_budget_def)
qed

lemma serial_reach:
  assumes "bstep_serial\<^sup>*\<^sup>* (binit b) s" "fresh_budget b"
  shows "bstep\<^sup>*\<^sup>* (binit b) s \<and> bs_clears s = {#} \<and> slot_ok s"
  using assms(1)
proof (induction rule: rtranclp_induct)
  case base
  show ?case using assms(2) by (simp add: slot_ok_def binit_def fresh_budget_def oversized_def)
next
  case (step s t)
  then have "bstep\<^sup>*\<^sup>* s t \<and> bs_clears t = {#}" by (intro serial_is_bstep) simp_all
  moreover have "slot_ok t"
    using step reach_inv [of b s] assms(2) by (intro slot_step [of s t]) (auto simp: fresh_budget_def)
  ultimately show ?case using step by auto
qed

section \<open>Properties\<close>

text \<open>
  C16: however admissions, releases and slot clears interleave, the budget's totals equal the bytes
  of the batches in flight, per worker and overall, and the batches that fit the ceiling never
  hold more than the ceiling plus one floor per worker.
\<close>

theorem budget_bounds:
  assumes "bstep\<^sup>*\<^sup>* (binit b) s" "fresh_budget b" "finite W" "fst ` set_mset (bs_ledger s) \<subseteq> W"
  shows "usedTotal (bs_budget s) = charged (bs_ledger s) \<and>
         Budget_InFlight (bs_budget s) w = charge (bs_ledger s) w \<and>
         charged (regular (TotalBytes b) (bs_ledger s)) \<le> TotalBytes b + int (card W) * perWorkerMin b"
proof -
  let ?R = "regular (TotalBytes b) (bs_ledger s)"
  have inv: "books s" "floors s" "TotalBytes (bs_budget s) = TotalBytes b" "perWorkerMin (bs_budget s) = perWorkerMin b"
    using reach_inv [OF assms(1,2)] by auto
  have "charged ?R = (\<Sum>w\<in>W. charge ?R w)"
    using assms(3,4) by (intro charged_split) (auto simp: regular_def)
  also have "\<dots> \<le> (\<Sum>w\<in>W. max 0 (charge ?R w - perWorkerMin b) + perWorkerMin b)"
    by (intro sum_mono) simp
  also have "\<dots> = (\<Sum>w\<in>W. max 0 (charge ?R w - perWorkerMin b)) + int (card W) * perWorkerMin b"
    by (simp add: sum.distrib)
  also have "\<dots> \<le> TotalBytes b + int (card W) * perWorkerMin b"
    using inv assms(3) by (simp add: floors_def)
  finally show ?thesis using inv by (simp add: books_def Budget_InFlight_def)
qed

definition one_batch :: bstate where
  "one_batch = \<lparr>bs_budget = charge_batch (NewBudget 10 4) ''w1'' 3, bs_ledger = {#(''w1'', 3)#}, bs_clears = {#}\<rparr>"

lemma one_batch_reach: "bstep\<^sup>*\<^sup>* (binit (NewBudget 10 4)) one_batch"
proof -
  have "admits (bs_budget (binit (NewBudget 10 4))) ''w1'' 3" by code_simp
  from bstep.admit [OF this] show ?thesis
    by (auto simp: one_batch_def binit_def intro: r_into_rtranclp)
qed

theorem budget_bounds_witness:
  "usedTotal (bs_budget one_batch) = charged (bs_ledger one_batch) \<and>
   Budget_InFlight (bs_budget one_batch) ''w1'' = charge (bs_ledger one_batch) ''w1'' \<and>
   charged (regular 10 (bs_ledger one_batch)) \<le> 10 + 1 * 4"
proof -
  have "fresh_budget (NewBudget 10 4)" by (simp add: fresh_budget_def NewBudget_def)
  from budget_bounds [OF one_batch_reach this, of "{''w1''}" "''w1''"] show ?thesis
    by (simp add: one_batch_def NewBudget_def)
qed

lemma Acquire_loop_waited:
  assumes "\<forall>(c, b)\<in>set looks. Acquire_pass c b w n = Waits"
  shows "Acquire_loop (looks @ rest) w n = Acquire_loop rest w n"
  using assms by (induction looks) auto

text \<open>
  C25: an admission never waits forever on an idle budget. Take any reachable budget with nothing
  in flight, and a batch of any size; or one in which this worker has nothing in flight, and a
  batch within the worker's floor and the ceiling, however full the other workers keep it. A call
  whose context was live on entry, and which found no room at its earlier looks, is admitted at
  the look that sees this budget, even when its context has ended by then. A call whose context
  had already ended on entry is refused without looking.
\<close>

theorem budget_progress:
  assumes "bstep\<^sup>*\<^sup>* (binit b) s" "fresh_budget b"
    "bs_ledger s = {#} \<or> charge (bs_ledger s) w = 0 \<and> n \<le> perWorkerMin b \<and> n \<le> TotalBytes b"
    "\<forall>(c', b')\<in>set earlier. Acquire_pass c' b' w n = Waits"
  shows "Acquire False (earlier @ (c, bs_budget s) # later) w n =
           Admitted (charge_batch (bs_budget s) w n) \<and>
         Acquire True (earlier @ (c, bs_budget s) # later) w n = Cancelled"
proof -
  have inv: "books s" "owner_charged s" "TotalBytes (bs_budget s) = TotalBytes b"
      "perWorkerMin (bs_budget s) = perWorkerMin b"
    using reach_inv [OF assms(1,2)] by auto
  have "admits (bs_budget s) w n"
    using assms(3)
  proof
    assume e: "bs_ledger s = {#}"
    with inv have "oversizedOwner (bs_budget s) = ''''" "usedTotal (bs_budget s) = 0"
        "gm_at 0 (bg_used (bs_budget s)) w = 0"
      by (auto simp: owner_charged_def books_def Let_def)
    then show ?thesis by (simp add: admits_def underWorkerMax_def)
  next
    assume "charge (bs_ledger s) w = 0 \<and> n \<le> perWorkerMin b \<and> n \<le> TotalBytes b"
    with inv show ?thesis by (simp add: admits_def underWorkerMax_def books_def)
  qed
  then show ?thesis
    by (simp add: Acquire_def Acquire_loop_waited [OF assms(4)] Acquire_pass_def)
qed

theorem budget_progress_witness:
  "Acquire False [(False, charge_batch (NewBudget 10 4) ''w2'' 7), (False, bs_budget one_batch)] ''w2'' 4 =
     Admitted (charge_batch (bs_budget one_batch) ''w2'' 4)"
proof -
  have "fresh_budget (NewBudget 10 4)" by (simp add: fresh_budget_def NewBudget_def)
  note fresh = this
  let ?full = "charge_batch (NewBudget 10 4) ''w2'' 7"
  have w: "Acquire_pass False ?full ''w2'' 4 = Waits"
    by code_simp
  show ?thesis
    using budget_progress [OF one_batch_reach fresh, of "''w2''" 4 "[(False, ?full)]" False "[]"] w
    by (simp add: one_batch_def NewBudget_def)
qed

text \<open>
  While a release and the clear of its oversized slot are not separated by another admission,
  at most one batch larger than the whole ceiling is in flight.
\<close>

theorem one_oversized_when_serial:
  assumes "bstep_serial\<^sup>*\<^sup>* (binit b) s" "fresh_budget b"
  shows "size (oversized (TotalBytes b) (bs_ledger s)) \<le> 1"
proof -
  from serial_reach [OF assms] have "bstep\<^sup>*\<^sup>* (binit b) s" "slot_ok s" by auto
  with reach_inv [OF this(1) assms(2)] show ?thesis
    by (auto simp: slot_ok_def Let_def split: if_splits)
qed

theorem one_oversized_when_serial_witness:
  "size (oversized 10 (add_mset (''w1'', 11) {#})) \<le> 1"
proof -
  have "fresh_budget (NewBudget 10 4)" by (simp add: fresh_budget_def NewBudget_def)
  note fresh = this
  let ?s = "(binit (NewBudget 10 4))
      \<lparr>bs_budget := charge_batch (bs_budget (binit (NewBudget 10 4))) ''w1'' 11,
       bs_ledger := add_mset (''w1'', 11) (bs_ledger (binit (NewBudget 10 4)))\<rparr>"
  have "admits (bs_budget (binit (NewBudget 10 4))) ''w1'' 11" by code_simp
  from bstep_serial.admit [OF this] have "bstep_serial (binit (NewBudget 10 4)) ?s" by simp
  from one_oversized_when_serial [OF r_into_rtranclp [of bstep_serial, OF this] fresh]
  show ?thesis by (simp add: binit_def NewBudget_def)
qed

text \<open>
  C31: with the release and the clear as the two critical sections they are, the bound of one
  oversized batch is lost: a batch admitted for the same worker between the two has its slot
  cleared by the earlier batch's ack, and a third one is admitted beside it.
\<close>

theorem two_oversized_when_interleaved:
  "\<exists>s. bstep\<^sup>*\<^sup>* (binit (NewBudget 10 0)) s \<and> size (oversized 10 (bs_ledger s)) = 2"
proof -
  let ?b0 = "NewBudget 10 0"
  let ?b1 = "charge_batch ?b0 ''w1'' 11"
  let ?b2 = "Budget_Release ?b1 ''w1'' 11"
  let ?b3 = "charge_batch ?b2 ''w1'' 12"
  let ?b4 = "ClearOversized ?b3 ''w1''"
  let ?b5 = "charge_batch ?b4 ''w2'' 13"
  let ?st = "\<lambda>b l c. \<lparr>bs_budget = b, bs_ledger = l, bs_clears = c\<rparr>"
  have adm: "admits ?b0 ''w1'' 11" "admits ?b2 ''w1'' 12" "admits ?b4 ''w2'' 13" "IsOversized ?b1 11"
    by code_simp+
  have s1: "bstep (binit ?b0) (?st ?b1 {#(''w1'', 11)#} {#})"
    using bstep.admit [of "binit ?b0" "''w1''" 11] adm by (simp add: binit_def)
  have s2: "bstep (?st ?b1 {#(''w1'', 11)#} {#}) (?st ?b2 {#} {#''w1''#})"
    using bstep.free [of "{#(''w1'', 11)#}" "?st ?b1 {#(''w1'', 11)#} {#}" "''w1''"] adm by simp
  have s3: "bstep (?st ?b2 {#} {#''w1''#}) (?st ?b3 {#(''w1'', 12)#} {#''w1''#})"
    using bstep.admit [of "?st ?b2 {#} {#''w1''#}" "''w1''" 12] adm by simp
  have s4: "bstep (?st ?b3 {#(''w1'', 12)#} {#''w1''#}) (?st ?b4 {#(''w1'', 12)#} {#})"
    using bstep.clear [of "''w1''" "?st ?b3 {#(''w1'', 12)#} {#''w1''#}"] by simp
  have s5: "bstep (?st ?b4 {#(''w1'', 12)#} {#}) (?st ?b5 {#(''w2'', 13), (''w1'', 12)#} {#})"
    using bstep.admit [of "?st ?b4 {#(''w1'', 12)#} {#}" "''w2''" 13] adm by simp
  have "bstep\<^sup>*\<^sup>* (binit ?b0) (?st ?b5 {#(''w2'', 13), (''w1'', 12)#} {#})"
    by (rule converse_rtranclp_into_rtranclp, rule s1, rule converse_rtranclp_into_rtranclp, rule s2,
        rule converse_rtranclp_into_rtranclp, rule s3, rule converse_rtranclp_into_rtranclp, rule s4,
        rule r_into_rtranclp, rule s5)
  moreover have "size (oversized 10 {#(''w2'', 13), (''w1'', 12)#}) = 2"
    by (simp add: oversized_def)
  ultimately show ?thesis
    by (intro exI [of _ "?st ?b5 {#(''w2'', 13), (''w1'', 12)#} {#}"]) simp
qed

end
