(* ===== verification/Position_Index.thy ===== *)
theory Position_Index
  imports Position_Fold
begin

text \<open>
  \<open>internal/inflight/index.go\<close> and \<open>indexes.go\<close>: the window of batches a worker has been sent and
  has not acknowledged. Batches leave from the head only, when their table's acknowledged position
  provably covers them; a snapshot marker leaves on the ack of its own id. A panic of \<open>Compare\<close> is
  \<open>None\<close>. The lemmas characterise a release as the longest covered prefix of the window and show
  that the checkpoint's dirty flag cannot miss a change.
\<close>

section \<open>The index\<close>

record fbatch =
  fb_ID :: u64
  fb_Table :: string
  fb_High :: "position option"
  fb_Bytes :: int
  fb_Oversized :: bool
  fb_Marker :: bool
  fb_Partial :: bool

record pindex =
  px_head :: "fbatch list"
  px_acked :: "(string, position) gomap"
  px_runID :: string
  px_dirty :: bool
  px_gen :: u64

definition NewPositionIndex :: "string \<Rightarrow> pindex" where
  "NewPositionIndex runID =
     \<lparr>px_head = [], px_acked = [], px_runID = runID, px_dirty = False, px_gen = 0\<rparr>"

definition PositionIndex_InFlight :: "pindex \<Rightarrow> nat" where
  "PositionIndex_InFlight p = length (px_head p)"

definition touch :: "pindex \<Rightarrow> pindex" where
  "touch p = p\<lparr>px_dirty := True, px_gen := px_gen p + 1\<rparr>"

definition px_Add :: "pindex \<Rightarrow> fbatch \<Rightarrow> pindex" where
  "px_Add p b = touch (p\<lparr>px_head := px_head p @ [b]\<rparr>)"

fun remove_id :: "u64 \<Rightarrow> fbatch list \<Rightarrow> fbatch list option" where
  "remove_id i [] = None"
| "remove_id i (h # hs) = (if fb_ID h = i then Some hs else map_option ((#) h) (remove_id i hs))"

definition px_Remove :: "pindex \<Rightarrow> u64 \<Rightarrow> pindex \<times> bool" where
  "px_Remove p i =
     (case remove_id i (px_head p) of
        None \<Rightarrow> (p, False)
      | Some hs \<Rightarrow> (touch (p\<lparr>px_head := hs\<rparr>), True))"

definition px_Dirty :: "pindex \<Rightarrow> bool" where
  "px_Dirty p = px_dirty p"

definition MarkClean :: "pindex \<Rightarrow> u64 \<Rightarrow> pindex" where
  "MarkClean p gen = (if px_gen p = gen then p\<lparr>px_dirty := False\<rparr> else p)"

record PositionManifest =
  pm_Acked :: "(string, string) gomap"
  pm_RunID :: string
  pm_FirstBatchID :: u64
  pm_LastBatchID :: u64

definition Manifest :: "pindex \<Rightarrow> PositionManifest \<times> u64" where
  "Manifest p =
     (\<lparr>pm_Acked = map (\<lambda>(t, pos). (t, pos_String pos)) (px_acked p),
       pm_RunID = px_runID p,
       pm_FirstBatchID = (case px_head p of [] \<Rightarrow> 0 | h # _ \<Rightarrow> fb_ID h),
       pm_LastBatchID = (case px_head p of [] \<Rightarrow> 0 | _ \<Rightarrow> fb_ID (last (px_head p)))\<rparr>,
      px_gen p)"

text \<open>\<open>advances\<close> and \<open>covered\<close>: provable order only, an incomparable pair is neither.\<close>

definition advances :: "position \<Rightarrow> position \<Rightarrow> bool option" where
  "advances pos cur = map_option (\<lambda>c. c \<noteq> Incomparable \<and> c > 0) (Compare pos cur)"

definition covered :: "position \<Rightarrow> position \<Rightarrow> bool option" where
  "covered pos cur = map_option (\<lambda>c. c \<noteq> Incomparable \<and> c \<le> 0) (Compare pos cur)"

text \<open>The loop condition of \<open>popCoveredLocked\<close>: may the head batch leave?\<close>

definition pops :: "(string, position) gomap \<Rightarrow> fbatch \<Rightarrow> bool option" where
  "pops acked h =
     (if fb_Marker h then Some False
      else case fb_High h of
             None \<Rightarrow> Some (gm_has acked (fb_Table h))
           | Some high \<Rightarrow>
               (case map_of acked (fb_Table h) of
                  None \<Rightarrow> Some False
                | Some cur \<Rightarrow>
                    (case covered high cur of
                       None \<Rightarrow> None
                     | Some False \<Rightarrow> Some False
                     | Some True \<Rightarrow> if fb_Partial h then advances cur high else Some True)))"

fun pop_loop :: "fbatch list \<Rightarrow> pindex \<Rightarrow> int \<Rightarrow> bool \<Rightarrow> u64 list \<Rightarrow>
                 (pindex \<times> int \<times> bool \<times> u64 list) option" where
  "pop_loop [] p freed over popped = Some (p, freed, over, popped)"
| "pop_loop (h # hs) p freed over popped =
     (case pops (px_acked p) h of
        None \<Rightarrow> None
      | Some False \<Rightarrow> Some (p, freed, over, popped)
      | Some True \<Rightarrow> pop_loop hs (touch (p\<lparr>px_head := hs\<rparr>)) (freed + fb_Bytes h)
                       (over \<or> fb_Oversized h) (popped @ [fb_ID h]))"

definition popCoveredLocked :: "pindex \<Rightarrow> (pindex \<times> int \<times> bool \<times> u64 list) option" where
  "popCoveredLocked p = pop_loop (px_head p) p 0 False []"

definition ack_table :: "pindex \<Rightarrow> string \<Rightarrow> position \<Rightarrow> pindex option" where
  "ack_table p tbl pos =
     (case map_of (px_acked p) tbl of
        None \<Rightarrow> Some (touch (p\<lparr>px_acked := gm_put tbl pos (px_acked p)\<rparr>))
      | Some cur \<Rightarrow>
          map_option (\<lambda>adv. if adv then touch (p\<lparr>px_acked := gm_put tbl pos (px_acked p)\<rparr>) else p)
            (advances pos cur))"

definition px_Truncate :: "pindex \<Rightarrow> string \<Rightarrow> position \<Rightarrow> (pindex \<times> int \<times> bool \<times> u64 list) option" where
  "px_Truncate p tbl pos = Option.bind (ack_table p tbl pos) popCoveredLocked"

fun take_marker :: "u64 \<Rightarrow> fbatch list \<Rightarrow> (fbatch \<times> fbatch list) option" where
  "take_marker i [] = None"
| "take_marker i (h # hs) =
     (if fb_ID h = i \<and> fb_Marker h then Some (h, hs)
      else map_option (\<lambda>(m, rest). (m, h # rest)) (take_marker i hs))"

definition px_ReleaseMarker :: "pindex \<Rightarrow> u64 \<Rightarrow> (pindex \<times> int \<times> bool \<times> u64 list) option" where
  "px_ReleaseMarker p i =
     (let (p1, freed, over, popped) =
        (case take_marker i (px_head p) of
           None \<Rightarrow> (p, 0, False, [])
         | Some (h, hs) \<Rightarrow> (touch (p\<lparr>px_head := hs\<rparr>), fb_Bytes h, fb_Oversized h, [fb_ID h]))
      in map_option (\<lambda>(p2, f, ov, pp). (p2, freed + f, over \<or> ov, popped @ pp)) (popCoveredLocked p1))"

definition px_Holds :: "pindex \<Rightarrow> u64 \<Rightarrow> bool" where
  "px_Holds p i = (\<exists>h\<in>set (px_head p). fb_ID h = i)"

definition MinHeldID :: "pindex \<Rightarrow> u64" where
  "MinHeldID p = foldl (\<lambda>m h. if m = 0 \<or> fb_ID h < m then fb_ID h else m) 0 (px_head p)"

definition MaxHeldID :: "pindex \<Rightarrow> u64" where
  "MaxHeldID p = foldl (\<lambda>m h. if fb_ID h > m then fb_ID h else m) 0 (px_head p)"

definition px_Held :: "pindex \<Rightarrow> fbatch list" where
  "px_Held p = px_head p"

definition px_Clear :: "pindex \<Rightarrow> pindex" where
  "px_Clear p = p\<lparr>px_head := []\<rparr>"

subsection \<open>\<open>Indexes\<close>\<close>

type_synonym indexes = "(string, pindex) gomap"

definition ix_Of :: "indexes \<Rightarrow> string \<Rightarrow> pindex option" where
  "ix_Of x w = map_of x w"

definition ix_Set :: "indexes \<Rightarrow> string \<Rightarrow> pindex \<Rightarrow> indexes" where
  "ix_Set x w idx = gm_put w idx x"

definition ix_Delete :: "indexes \<Rightarrow> string \<Rightarrow> indexes" where
  "ix_Delete x w = gm_del w x"

definition ix_Snapshot :: "indexes \<Rightarrow> indexes" where
  "ix_Snapshot x = map (\<lambda>(k, v). (k, v)) x"

definition ix_InFlight :: "indexes \<Rightarrow> string \<Rightarrow> nat" where
  "ix_InFlight x w = (case ix_Of x w of None \<Rightarrow> 0 | Some idx \<Rightarrow> PositionIndex_InFlight idx)"

section \<open>What an ack releases\<close>

text \<open>
  The specification: a batch may leave when it is not a marker and its table is acknowledged at or
  beyond its position, strictly beyond for a partial batch.
\<close>

definition releasable :: "(string, position) gomap \<Rightarrow> fbatch \<Rightarrow> bool" where
  "releasable acked h \<longleftrightarrow>
     \<not> fb_Marker h \<and>
     (\<exists>cur. map_of acked (fb_Table h) = Some cur \<and>
        (\<forall>high. fb_High h = Some high \<longrightarrow>
           pos_le high cur \<and> (fb_Partial h \<longrightarrow> \<not> pos_le cur high)))"

definition px_kind :: "pos_kind \<Rightarrow> pindex \<Rightarrow> bool" where
  "px_kind k p \<longleftrightarrow>
     gm_wf (px_acked p) \<and>
     (\<forall>(t, pos)\<in>set (px_acked p). of_kind k pos) \<and>
     (\<forall>h\<in>set (px_head p). \<forall>high. fb_High h = Some high \<longrightarrow> of_kind k high)"

lemma touch_simps [simp]:
  "px_head (touch p) = px_head p" "px_acked (touch p) = px_acked p" "px_runID (touch p) = px_runID p"
  "px_dirty (touch p)" "px_gen (touch p) = px_gen p + 1"
  by (simp_all add: touch_def)

lemma advances_kind:
  "of_kind k a \<Longrightarrow> of_kind k b \<Longrightarrow> advances a b = Some (pos_le b a \<and> \<not> pos_le a b)"
  using pk.compare_pos [of k a b] pk.compare_inc [of k a b] pk.compare_total [of k a b]
  by (auto simp: advances_def)

lemma covered_kind: "of_kind k a \<Longrightarrow> of_kind k b \<Longrightarrow> covered a b = Some (pos_le a b)"
  using pk.compare_pos [of k a b] pk.compare_inc [of k a b] pk.compare_total [of k a b]
  by (auto simp: covered_def not_less)

lemma px_kind_acked: "px_kind k p \<Longrightarrow> map_of (px_acked p) t = Some pos \<Longrightarrow> of_kind k pos"
  by (auto simp: px_kind_def dest!: map_of_SomeD)

lemma pops_releasable:
  assumes "px_kind k p" "\<forall>high. fb_High h = Some high \<longrightarrow> of_kind k high"
  shows "pops (px_acked p) h = Some (releasable (px_acked p) h)"
proof (cases "fb_High h")
  case None
  then show ?thesis by (auto simp: pops_def releasable_def gm_has_def)
next
  case (Some high)
  show ?thesis
  proof (cases "map_of (px_acked p) (fb_Table h)")
    case None
    with Some show ?thesis by (simp add: pops_def releasable_def)
  next
    case cur: (Some cur)
    with assms Some have "of_kind k high" "of_kind k cur" by (auto dest: px_kind_acked)
    with Some cur show ?thesis
      by (auto simp: pops_def releasable_def covered_kind advances_kind split: bool.splits)
  qed
qed

lemma pop_loop_spec:
  assumes "px_kind k p" "\<forall>h\<in>set hs. \<forall>high. fb_High h = Some high \<longrightarrow> of_kind k high" "px_head p = hs"
  shows "\<exists>p'. pop_loop hs p freed over popped =
      Some (p', freed + sum_list (map fb_Bytes (takeWhile (releasable (px_acked p)) hs)),
            over \<or> (\<exists>h\<in>set (takeWhile (releasable (px_acked p)) hs). fb_Oversized h),
            popped @ map fb_ID (takeWhile (releasable (px_acked p)) hs)) \<and>
      px_head p' = dropWhile (releasable (px_acked p)) hs \<and> px_acked p' = px_acked p \<and>
      px_runID p' = px_runID p \<and>
      px_gen p' = px_gen p + of_nat (length (takeWhile (releasable (px_acked p)) hs)) \<and>
      px_dirty p' = (px_dirty p \<or> takeWhile (releasable (px_acked p)) hs \<noteq> [])"
  using assms
proof (induction hs arbitrary: p freed over popped)
  case (Cons h hs)
  let ?p = "touch (p\<lparr>px_head := hs\<rparr>)"
  have pops: "pops (px_acked p) h = Some (releasable (px_acked p) h)"
    using Cons.prems by (intro pops_releasable) auto
  have k: "px_kind k ?p" using Cons.prems by (auto simp: px_kind_def)
  from Cons.IH [OF k, of "freed + fb_Bytes h" "over \<or> fb_Oversized h" "popped @ [fb_ID h]"] Cons.prems
  show ?case
    by (auto simp: pops algebra_simps)
qed simp

lemma ack_table_spec:
  assumes "px_kind k p" "of_kind k pos"
  obtains p1 where "ack_table p tbl pos = Some p1" "px_kind k p1" "px_head p1 = px_head p"
    "\<forall>t old. map_of (px_acked p) t = Some old \<longrightarrow> (\<exists>new. map_of (px_acked p1) t = Some new \<and> pos_le old new)"
    "\<exists>new. map_of (px_acked p1) tbl = Some new \<and> (pos_le pos new \<or> \<not> pos_le new pos)"
proof (cases "map_of (px_acked p) tbl")
  case None
  let ?p1 = "touch (p\<lparr>px_acked := gm_put tbl pos (px_acked p)\<rparr>)"
  have "px_kind k ?p1" using assms
    by (auto simp: px_kind_def gm_wf_lookup [OF gm_wf_put] gm_wf_lookup split: if_splits)
  moreover have "\<exists>new. map_of (px_acked ?p1) t = Some new \<and> pos_le old new"
    if "map_of (px_acked p) t = Some old" for t old
    using that None pk.le_refl [of k old] px_kind_acked [OF assms(1) that] by auto
  moreover have "ack_table p tbl pos = Some ?p1" using None by (simp add: ack_table_def)
  ultimately show ?thesis using pk.le_refl [OF assms(2)] that [of ?p1] by simp
next
  case (Some cur)
  then have K: "of_kind k cur" using assms(1) by (rule px_kind_acked [rotated])
  let ?adv = "pos_le cur pos \<and> \<not> pos_le pos cur"
  let ?p1 = "if ?adv then touch (p\<lparr>px_acked := gm_put tbl pos (px_acked p)\<rparr>) else p"
  have "px_kind k ?p1" using assms
    by (auto simp: px_kind_def gm_wf_lookup [OF gm_wf_put] gm_wf_lookup split: if_splits)
  moreover have "ack_table p tbl pos = Some ?p1"
    using Some advances_kind [OF assms(2) K] by (simp add: ack_table_def)
  moreover have "\<exists>new. map_of (px_acked ?p1) t = Some new \<and> pos_le old new"
    if "map_of (px_acked p) t = Some old" for t old
    using that Some pk.le_refl [of k old] px_kind_acked [OF assms(1) that] by auto
  moreover have "\<exists>new. map_of (px_acked ?p1) tbl = Some new \<and> (pos_le pos new \<or> \<not> pos_le new pos)"
    using Some pk.le_refl [OF assms(2)] by auto
  ultimately show ?thesis using that [of ?p1] by simp
qed

lemma px_kind_drop:
  "px_kind k p \<Longrightarrow> px_acked p' = px_acked p \<Longrightarrow> set (px_head p') \<subseteq> set (px_head p) \<Longrightarrow> px_kind k p'"
  by (auto simp: px_kind_def)

lemma popCovered_spec:
  assumes "px_kind k p"
  obtains p' where
    "popCoveredLocked p = Some (p', sum_list (map fb_Bytes (takeWhile (releasable (px_acked p)) (px_head p))),
        \<exists>h\<in>set (takeWhile (releasable (px_acked p)) (px_head p)). fb_Oversized h,
        map fb_ID (takeWhile (releasable (px_acked p)) (px_head p)))"
    "px_head p' = dropWhile (releasable (px_acked p)) (px_head p)" "px_acked p' = px_acked p" "px_kind k p'"
proof -
  have "\<forall>h\<in>set (px_head p). \<forall>high. fb_High h = Some high \<longrightarrow> of_kind k high"
    using assms by (simp add: px_kind_def)
  from pop_loop_spec [OF assms this refl, of 0 False "[]"] obtain p' where p':
    "pop_loop (px_head p) p 0 False [] =
      Some (p', sum_list (map fb_Bytes (takeWhile (releasable (px_acked p)) (px_head p))),
        \<exists>h\<in>set (takeWhile (releasable (px_acked p)) (px_head p)). fb_Oversized h,
        map fb_ID (takeWhile (releasable (px_acked p)) (px_head p)))"
    "px_head p' = dropWhile (releasable (px_acked p)) (px_head p)" "px_acked p' = px_acked p"
    by auto
  moreover have "px_kind k p'"
    using assms p'(3) by (rule px_kind_drop) (auto simp: p'(2) dest: set_dropWhileD)
  ultimately show ?thesis using that by (simp add: popCoveredLocked_def)
qed

section \<open>The dirty flag\<close>

datatype index_op =
    OpAdd fbatch
  | OpRemove u64
  | OpTruncate string position
  | OpReleaseMarker u64

fun apply_op :: "pindex \<Rightarrow> index_op \<Rightarrow> pindex option" where
  "apply_op p (OpAdd b) = Some (px_Add p b)"
| "apply_op p (OpRemove i) = Some (fst (px_Remove p i))"
| "apply_op p (OpTruncate t pos) = map_option fst (px_Truncate p t pos)"
| "apply_op p (OpReleaseMarker i) = map_option fst (px_ReleaseMarker p i)"

fun apply_ops :: "pindex \<Rightarrow> index_op list \<Rightarrow> pindex option" where
  "apply_ops p [] = Some p"
| "apply_ops p (x # xs) = Option.bind (apply_op p x) (\<lambda>q. apply_ops q xs)"

text \<open>\<open>moved p q n\<close>: \<open>n\<close> mutations lead from \<open>p\<close> to \<open>q\<close>, each counted and marked dirty.\<close>

definition moved :: "pindex \<Rightarrow> pindex \<Rightarrow> nat \<Rightarrow> bool" where
  "moved p q n \<longleftrightarrow> px_gen q = px_gen p + of_nat n \<and> (n = 0 \<longrightarrow> q = p) \<and> (n > 0 \<longrightarrow> px_dirty q)"

lemma moved_refl: "moved p p 0"
  by (simp add: moved_def)

lemma moved_trans: "moved p q m \<Longrightarrow> moved q r n \<Longrightarrow> moved p r (m + n)"
  by (auto simp: moved_def algebra_simps)

lemma moved_touch: "px_gen p' = px_gen p \<Longrightarrow> moved p (touch p') (Suc 0)"
  by (simp add: moved_def)

lemma pop_loop_moved:
  "pop_loop hs p freed over popped = Some (p', rest) \<Longrightarrow> px_head p = hs \<Longrightarrow>
     \<exists>n. moved p p' n \<and> n + length (px_head p') = length hs"
proof (induction hs p freed over popped rule: pop_loop.induct)
  case (1 p freed over popped)
  then show ?case using moved_refl by auto
next
  case (2 h hs p freed over popped)
  let ?q = "touch (p\<lparr>px_head := hs\<rparr>)"
  consider "pops (px_acked p) h = Some False" | "pops (px_acked p) h = Some True"
    using "2.prems" by (auto split: option.splits bool.splits)
  then show ?case
  proof cases
    case 1
    with "2.prems" show ?thesis using moved_refl by (auto intro!: exI [of _ 0])
  next
    case two: 2
    with "2.IH" [OF two] "2.prems" obtain n where "moved ?q p' n" "n + length (px_head p') = length hs"
      by auto
    moreover have "moved p ?q 1" by (simp add: moved_touch)
    ultimately show ?thesis using moved_trans [of p ?q 1 p' n] by (intro exI [of _ "1 + n"]) auto
  qed
qed

lemma popCovered_moved:
  "popCoveredLocked p = Some (p', rest) \<Longrightarrow> \<exists>n. moved p p' n \<and> n + length (px_head p') = length (px_head p)"
  unfolding popCoveredLocked_def by (rule pop_loop_moved) simp_all

lemma remove_id_length: "remove_id i hs = Some hs' \<Longrightarrow> Suc (length hs') = length hs"
  by (induction hs arbitrary: hs') (auto split: if_splits)

lemma take_marker_length: "take_marker i hs = Some (m, hs') \<Longrightarrow> Suc (length hs') = length hs"
  by (induction hs arbitrary: hs') (auto split: if_splits)

lemma ack_table_moved:
  "ack_table p t pos = Some p1 \<Longrightarrow> (\<exists>n\<le>1. moved p p1 n) \<and> px_head p1 = px_head p"
  using moved_refl [of p] moved_touch [of "p\<lparr>px_acked := gm_put t pos (px_acked p)\<rparr>" p]
  by (auto simp: ack_table_def split: option.splits if_splits)

lemma apply_op_moved:
  assumes "apply_op p x = Some q"
  shows "\<exists>n. moved p q n \<and> n + length (px_head q) \<le> length (px_head p) + 2"
proof (cases x)
  case (OpAdd b)
  have "moved p (px_Add p b) 1" unfolding px_Add_def by (simp add: moved_touch)
  with OpAdd assms show ?thesis by (intro exI [of _ 1]) (auto simp: px_Add_def)
next
  case (OpRemove i)
  show ?thesis
  proof (cases "remove_id i (px_head p)")
    case None
    with OpRemove assms show ?thesis
      by (intro exI [of _ 0]) (auto simp: px_Remove_def moved_refl)
  next
    case (Some hs)
    with OpRemove assms have "q = touch (p\<lparr>px_head := hs\<rparr>)" by (simp add: px_Remove_def)
    with remove_id_length [OF Some] show ?thesis
      by (intro exI [of _ 1]) (auto simp: moved_touch)
  qed
next
  case (OpTruncate t pos)
  with assms obtain p1 rest where a: "ack_table p t pos = Some p1" and c: "popCoveredLocked p1 = Some (q, rest)"
    by (auto simp: px_Truncate_def bind_eq_Some_conv)
  from ack_table_moved [OF a] obtain m where m: "m \<le> 1" "moved p p1 m" "px_head p1 = px_head p" by auto
  from popCovered_moved [OF c] obtain n where "moved p1 q n" "n + length (px_head q) = length (px_head p1)" by auto
  with m moved_trans [OF m(2)] show ?thesis by (intro exI [of _ "m + n"]) auto
next
  case (OpReleaseMarker i)
  show ?thesis
  proof (cases "take_marker i (px_head p)")
    case None
    with OpReleaseMarker assms obtain rest where "popCoveredLocked p = Some (q, rest)"
      by (auto simp: px_ReleaseMarker_def)
    from popCovered_moved [OF this] show ?thesis by auto
  next
    case (Some mh)
    obtain h hs where mh: "mh = (h, hs)" by force
    let ?p1 = "touch (p\<lparr>px_head := hs\<rparr>)"
    from Some mh OpReleaseMarker assms obtain rest where c: "popCoveredLocked ?p1 = Some (q, rest)"
      by (auto simp: px_ReleaseMarker_def)
    from popCovered_moved [OF c] obtain n where n: "moved ?p1 q n" "n + length (px_head q) = length hs" by auto
    have "moved p ?p1 1" by (simp add: moved_touch)
    from moved_trans [OF this n(1)] n(2) take_marker_length [of i "px_head p" h hs] Some mh
    show ?thesis by (intro exI [of _ "1 + n"]) auto
  qed
qed

lemma apply_ops_moved:
  "apply_ops p xs = Some q \<Longrightarrow>
     \<exists>n. moved p q n \<and> n + length (px_head q) \<le> length (px_head p) + 2 * length xs"
proof (induction p xs rule: apply_ops.induct)
  case (1 p)
  then show ?case using moved_refl by (intro exI [of _ 0]) auto
next
  case (2 p x xs)
  then obtain r where r: "apply_op p x = Some r" "apply_ops r xs = Some q"
    by (auto simp: bind_eq_Some_conv)
  from apply_op_moved [OF r(1)] obtain m where m: "moved p r m" "m + length (px_head r) \<le> length (px_head p) + 2"
    by auto
  from "2.IH" [OF r] obtain n where "moved r q n" "n + length (px_head q) \<le> length (px_head r) + 2 * length xs"
    by auto
  with m moved_trans [OF m(1)] show ?case by (intro exI [of _ "m + n"]) auto
qed

lemma px_Truncate_spec:
  assumes "px_kind k p" "of_kind k pos"
  shows "\<exists>p' released. px_Truncate p tbl pos =
           Some (p', sum_list (map fb_Bytes released), \<exists>h\<in>set released. fb_Oversized h, map fb_ID released) \<and>
         px_kind k p' \<and> px_head p = released @ px_head p' \<and>
         (\<forall>h\<in>set released. releasable (px_acked p') h) \<and>
         (px_head p' \<noteq> [] \<longrightarrow> \<not> releasable (px_acked p') (hd (px_head p'))) \<and>
         (\<forall>t old. map_of (px_acked p) t = Some old \<longrightarrow>
            (\<exists>new. map_of (px_acked p') t = Some new \<and> pos_le old new))"
proof -
  obtain p1 where p1: "ack_table p tbl pos = Some p1" "px_kind k p1" "px_head p1 = px_head p"
    "\<forall>t old. map_of (px_acked p) t = Some old \<longrightarrow> (\<exists>new. map_of (px_acked p1) t = Some new \<and> pos_le old new)"
    "\<exists>new. map_of (px_acked p1) tbl = Some new \<and> (pos_le pos new \<or> \<not> pos_le new pos)"
    by (rule ack_table_spec [OF assms, of tbl])
  obtain p' where p': "popCoveredLocked p1 =
      Some (p', sum_list (map fb_Bytes (takeWhile (releasable (px_acked p1)) (px_head p1))),
        \<exists>h\<in>set (takeWhile (releasable (px_acked p1)) (px_head p1)). fb_Oversized h,
        map fb_ID (takeWhile (releasable (px_acked p1)) (px_head p1)))"
    "px_head p' = dropWhile (releasable (px_acked p1)) (px_head p1)" "px_acked p' = px_acked p1" "px_kind k p'"
    by (rule popCovered_spec [OF p1(2)])
  let ?rel = "takeWhile (releasable (px_acked p1)) (px_head p1)"
  have "px_head p = ?rel @ px_head p'" by (simp add: p' p1)
  moreover have "\<forall>h\<in>set ?rel. releasable (px_acked p') h" by (auto simp: p' dest: set_takeWhileD)
  moreover have "px_head p' \<noteq> [] \<longrightarrow> \<not> releasable (px_acked p') (hd (px_head p'))"
    by (auto simp: p' hd_dropWhile)
  ultimately show ?thesis
    using p1 p' by (intro exI [of _ p'] exI [of _ ?rel]) (simp add: px_Truncate_def)
qed

lemma take_marker_bytes:
  "take_marker i hs = Some (m, hs') \<Longrightarrow>
     sum_list (map fb_Bytes hs) = fb_Bytes m + sum_list (map fb_Bytes hs') \<and> set hs' \<subseteq> set hs \<and> m \<in> set hs"
  by (induction hs arbitrary: hs') (auto split: if_splits)

text \<open>A marker's ack conserves bytes: what it reports is what left the window.\<close>

lemma px_ReleaseMarker_spec:
  assumes "px_kind k p" "\<forall>h\<in>set (px_head p). 0 \<le> fb_Bytes h"
  shows "\<exists>p' freed over popped. px_ReleaseMarker p i = Some (p', freed, over, popped) \<and> px_kind k p' \<and>
           0 \<le> freed \<and> sum_list (map fb_Bytes (px_head p)) = freed + sum_list (map fb_Bytes (px_head p')) \<and>
           set (px_head p') \<subseteq> set (px_head p)"
proof -
  define r where "r = (case take_marker i (px_head p) of
      None \<Rightarrow> (p, 0, False, [])
    | Some (h, hs) \<Rightarrow> (touch (p\<lparr>px_head := hs\<rparr>), fb_Bytes h, fb_Oversized h, [fb_ID h]))"
  obtain p1 f1 o1 i1 where r: "r = (p1, f1, o1, i1)" by (cases r)
  have p1: "px_kind k p1" "0 \<le> f1" "sum_list (map fb_Bytes (px_head p)) = f1 + sum_list (map fb_Bytes (px_head p1))"
    "set (px_head p1) \<subseteq> set (px_head p)"
    using r assms by (auto simp: r_def px_kind_def split: option.splits dest!: take_marker_bytes)
  let ?rel = "takeWhile (releasable (px_acked p1)) (px_head p1)"
  obtain p' where p': "popCoveredLocked p1 =
      Some (p', sum_list (map fb_Bytes ?rel), \<exists>h\<in>set ?rel. fb_Oversized h, map fb_ID ?rel)"
    "px_head p' = dropWhile (releasable (px_acked p1)) (px_head p1)" "px_acked p' = px_acked p1" "px_kind k p'"
    by (rule popCovered_spec [OF p1(1)])
  have "px_head p1 = ?rel @ px_head p'" by (simp add: p')
  then have "sum_list (map fb_Bytes (px_head p1)) = sum_list (map fb_Bytes ?rel) + sum_list (map fb_Bytes (px_head p'))"
    by (metis map_append sum_list_append)
  moreover have "0 \<le> sum_list (map fb_Bytes ?rel)"
    using p1(4) assms(2) by (intro sum_list_nonneg) (auto dest: set_takeWhileD)
  moreover have "set (px_head p') \<subseteq> set (px_head p1)" by (auto simp: p' dest: set_dropWhileD)
  moreover have "px_ReleaseMarker p i = Some (p', f1 + sum_list (map fb_Bytes ?rel), o1 \<or> (\<exists>h\<in>set ?rel. fb_Oversized h), i1 @ map fb_ID ?rel)"
    using p'(1) by (simp add: px_ReleaseMarker_def r_def [symmetric] r)
  ultimately show ?thesis
    using p1 p'(4)
    by (intro exI [of _ p'] exI [of _ "f1 + sum_list (map fb_Bytes ?rel)"]
        exI [of _ "o1 \<or> (\<exists>h\<in>set ?rel. fb_Oversized h)"] exI [of _ "i1 @ map fb_ID ?rel"] conjI)
      auto
qed

section \<open>Properties\<close>

text \<open>
  The acknowledged position of every table after an ack at \<open>pos\<close> for \<open>tbl\<close>: the table's first ack
  is taken as it is, a later one only when it lies strictly beyond, and no other table moves.
\<close>

definition acked_after :: "(string, position) gomap \<Rightarrow> string \<Rightarrow> position \<Rightarrow> string \<Rightarrow> position option" where
  "acked_after acked tbl pos t =
     (if t \<noteq> tbl then map_of acked t
      else case map_of acked tbl of
             None \<Rightarrow> Some pos
           | Some cur \<Rightarrow> Some (if pos_le cur pos \<and> \<not> pos_le pos cur then pos else cur))"

lemma ack_table_acked:
  assumes "px_kind k p" "of_kind k pos" "ack_table p tbl pos = Some p1"
  shows "map_of (px_acked p1) t = acked_after (px_acked p) tbl pos t"
proof (cases "map_of (px_acked p) tbl")
  case None
  with assms(3) show ?thesis by (auto simp: ack_table_def acked_after_def)
next
  case (Some cur)
  from Some assms(3) advances_kind [OF assms(2) px_kind_acked [OF assms(1) Some]]
  show ?thesis by (auto simp: ack_table_def acked_after_def)
qed

lemma px_Truncate_acked:
  assumes "px_kind k p" "of_kind k pos" "px_Truncate p tbl pos = Some (p', r)"
  shows "map_of (px_acked p') t = acked_after (px_acked p) tbl pos t"
proof -
  obtain p1 where p1: "ack_table p tbl pos = Some p1" "px_kind k p1"
    by (rule ack_table_spec [OF assms(1,2), of tbl])
  obtain p2 r2 where "popCoveredLocked p1 = Some (p2, r2)" "px_acked p2 = px_acked p1"
    by (rule popCovered_spec [OF p1(2)])
  with assms(3) p1(1) have "px_acked p' = px_acked p1" by (simp add: px_Truncate_def)
  with ack_table_acked [OF assms(1,2) p1(1)] show ?thesis by simp
qed

text \<open>
  C26: an ack at \<open>pos\<close> for a table moves that table's acknowledged position, and no other, to
  \<open>pos\<close> when it is the first or lies strictly beyond the one held, and then releases exactly the
  longest prefix of the worker's window whose batches the acknowledged positions cover: never a
  snapshot marker, never a batch beyond its table's ack, a partial batch only strictly before it.
  The bytes, ids and oversized flag it reports are those of the released batches, the order of
  the rest is kept, and acknowledged positions only move forward.
\<close>

theorem Truncate_releases_covered_prefix:
  assumes "px_kind k p" "of_kind k pos"
  shows "\<exists>p' released. px_Truncate p tbl pos =
           Some (p', sum_list (map fb_Bytes released), \<exists>h\<in>set released. fb_Oversized h, map fb_ID released) \<and>
         px_kind k p' \<and> px_head p = released @ px_head p' \<and>
         (\<forall>t. map_of (px_acked p') t = acked_after (px_acked p) tbl pos t) \<and>
         (\<forall>h\<in>set released. releasable (px_acked p') h) \<and>
         (px_head p' \<noteq> [] \<longrightarrow> \<not> releasable (px_acked p') (hd (px_head p'))) \<and>
         (\<forall>t old. map_of (px_acked p) t = Some old \<longrightarrow>
            (\<exists>new. map_of (px_acked p') t = Some new \<and> pos_le old new))"
proof -
  from px_Truncate_spec [OF assms, of tbl] obtain p' released where r:
    "px_Truncate p tbl pos =
       Some (p', sum_list (map fb_Bytes released), \<exists>h\<in>set released. fb_Oversized h, map fb_ID released)"
    "px_kind k p'" "px_head p = released @ px_head p'"
    "\<forall>h\<in>set released. releasable (px_acked p') h"
    "px_head p' \<noteq> [] \<longrightarrow> \<not> releasable (px_acked p') (hd (px_head p'))"
    "\<forall>t old. map_of (px_acked p) t = Some old \<longrightarrow> (\<exists>new. map_of (px_acked p') t = Some new \<and> pos_le old new)"
    by (elim exE conjE) (rule that)
  have "\<forall>t. map_of (px_acked p') t = acked_after (px_acked p) tbl pos t"
    using px_Truncate_acked [OF assms r(1)] by blast
  with r show ?thesis by (intro exI [of _ p'] exI [of _ released] conjI)
qed

definition sample_batch :: "u64 \<Rightarrow> u64 \<Rightarrow> int \<Rightarrow> fbatch" where
  "sample_batch i l n =
     \<lparr>fb_ID = i, fb_Table = ''t'', fb_High = Some (PLSN l), fb_Bytes = n, fb_Oversized = False,
      fb_Marker = False, fb_Partial = False\<rparr>"

definition sample_index :: pindex where
  "sample_index = (NewPositionIndex ''run'')\<lparr>px_head := [sample_batch 1 5 7, sample_batch 2 9 8]\<rparr>"

theorem Truncate_releases_covered_prefix_witness:
  "\<exists>p'. px_Truncate sample_index ''t'' (PLSN 6) = Some (p', 7, False, [1]) \<and> px_head p' = [sample_batch 2 9 8]"
proof -
  have "px_kind KLSN sample_index" "of_kind KLSN (PLSN 6)"
    by (simp_all add: px_kind_def sample_index_def NewPositionIndex_def sample_batch_def)
  from Truncate_releases_covered_prefix [OF this, of "''t''"]
  have "\<exists>r. px_Truncate sample_index ''t'' (PLSN 6) = Some r" by (elim exE conjE) (rule exI)
  moreover have "map_option (\<lambda>(p', freed, over, ids). (freed, over, ids, px_head p'))
      (px_Truncate sample_index ''t'' (PLSN 6)) = Some (7, False, [1], [sample_batch 2 9 8])"
    by code_simp
  ultimately show ?thesis by auto
qed

text \<open>
  The dirty flag never hides a change from the checkpoint writer: if, after a manifest was
  taken and any operations ran beside the write, \<open>MarkClean\<close> with the manifest's generation leaves
  the index clean, then the manifest written is still the index's manifest.
\<close>

theorem checkpoint_never_stale:
  assumes "apply_ops p ops = Some q" "length (px_head p) + 2 * length ops < 2 ^ 64"
    "\<not> px_Dirty (MarkClean q (snd (Manifest p)))"
  shows "fst (Manifest q) = fst (Manifest p)"
proof -
  from apply_ops_moved [OF assms(1)] obtain n where n: "moved p q n" "n < 2 ^ 64"
    using assms(2) by fastforce
  have "n = 0"
  proof (rule ccontr)
    assume "n \<noteq> 0"
    with n have "px_dirty q" "px_gen q = px_gen p + of_nat n" by (auto simp: moved_def)
    moreover have "(of_nat n :: u64) \<noteq> 0"
      using \<open>n \<noteq> 0\<close> n(2) by (simp add: word_of_nat_eq_0_iff nat_dvd_not_less)
    ultimately show False using assms(3) by (simp add: MarkClean_def Manifest_def px_Dirty_def)
  qed
  with n show ?thesis by (simp add: moved_def)
qed

theorem checkpoint_never_stale_witness:
  "fst (Manifest (the (apply_ops sample_index [OpRemove 77]))) = fst (Manifest sample_index)"
proof -
  have run: "apply_ops sample_index [OpRemove 77] = Some sample_index"
    by (simp add: px_Remove_def sample_index_def sample_batch_def NewPositionIndex_def)
  moreover have "length (px_head sample_index) + 2 * length [OpRemove 77] < 2 ^ 64"
    by (simp add: sample_index_def)
  moreover have "\<not> px_Dirty (MarkClean sample_index (snd (Manifest sample_index)))"
    by (simp add: px_Dirty_def MarkClean_def Manifest_def)
  ultimately have "fst (Manifest sample_index) = fst (Manifest sample_index)"
    by (rule checkpoint_never_stale)
  with run show ?thesis by simp
qed

end
