(* ===== verification/Confirmed.thy ===== *)
theory Confirmed
  imports Position_Index
begin

text \<open>
  \<open>internal/confirmed\<close>: the committed position of each worker, the last position sent for each
  table, the rule that turns them into the position reported to the source, and the handling of a
  worker's ack. A worker registered without a position is \<open>Some None\<close> in the map. The order of Go's
  map iteration is the order of the association list, and the lemmas hold for all of them.
\<close>

section \<open>Committed positions\<close>

record positions =
  byWorker :: "(string, position option) gomap"
  lastPos :: "position option"
  lastAt :: "int option"

definition Positions_zero :: positions where
  "Positions_zero = \<lparr>byWorker = [], lastPos = None, lastAt = None\<rparr>"

definition set_worker :: "positions \<Rightarrow> string \<Rightarrow> position option \<Rightarrow> positions" where
  "set_worker p w pos = p\<lparr>byWorker := gm_put w pos (byWorker p)\<rparr>"

definition Record :: "positions \<Rightarrow> string \<Rightarrow> position option \<Rightarrow> positions" where
  "Record p w pos = (case pos of None \<Rightarrow> p | Some _ \<Rightarrow> set_worker p w pos)"

definition Baseline :: "positions \<Rightarrow> string \<Rightarrow> position option \<Rightarrow> positions" where
  "Baseline p w pos = set_worker p w pos"

definition Seed :: "positions \<Rightarrow> string \<Rightarrow> position option \<Rightarrow> positions" where
  "Seed p w pos = (if gm_has (byWorker p) w then p else set_worker p w pos)"

definition Forget :: "positions \<Rightarrow> string \<Rightarrow> positions" where
  "Forget p w = p\<lparr>byWorker := gm_del w (byWorker p)\<rparr>"

definition Of_worker :: "positions \<Rightarrow> string \<Rightarrow> position option" where
  "Of_worker p w = gm_at None (byWorker p) w"

definition Has_worker :: "positions \<Rightarrow> string \<Rightarrow> bool" where
  "Has_worker p w = gm_has (byWorker p) w"

definition Len_workers :: "positions \<Rightarrow> nat" where
  "Len_workers p = length (byWorker p)"

text \<open>
  The first loop of \<open>Min\<close>: the positions of the owing workers and whether there was one, or
  \<open>None\<close> when an owing worker has no position, where the code returns nil.
\<close>

fun scan_owing :: "(string, bool) gomap \<Rightarrow> (string, position option) gomap \<Rightarrow>
                   position list \<Rightarrow> bool \<Rightarrow> (position list \<times> bool) option" where
  "scan_owing owing [] vals anyOwing = Some (vals, anyOwing)"
| "scan_owing owing ((name, pos) # rest) vals anyOwing =
     (if \<not> gm_at False owing name then scan_owing owing rest vals anyOwing
      else case pos of
             None \<Rightarrow> None
           | Some q \<Rightarrow> scan_owing owing rest (vals @ [q]) True)"

fun scan_all :: "(string, position option) gomap \<Rightarrow> position list \<Rightarrow> position list option" where
  "scan_all [] vals = Some vals"
| "scan_all ((name, pos) # rest) vals =
     (case pos of None \<Rightarrow> None | Some q \<Rightarrow> scan_all rest (vals @ [q]))"

definition Positions_Min ::
    "positions \<Rightarrow> (string, bool) gomap \<Rightarrow> position option \<Rightarrow> (safe_err, position option) res" where
  "Positions_Min p owing dispatched =
     (if byWorker p = [] then Ok None
      else case scan_owing owing (byWorker p) [] False of
             None \<Rightarrow> Ok None
           | Some (vals, anyOwing) \<Rightarrow>
               if \<not> anyOwing \<and> dispatched \<noteq> None then Ok dispatched
               else if \<not> anyOwing then
                 (case scan_all (byWorker p) vals of
                    None \<Rightarrow> Ok None
                  | Some vals' \<Rightarrow> MinSafe vals')
               else MinSafe vals)"

text \<open>\<open>StalledSince\<close>, with the panic of \<open>Compare\<close> as \<open>None\<close>; \<open>lastAt\<close> is \<open>None\<close> for the zero time.\<close>

definition note_progress :: "positions \<Rightarrow> position option \<Rightarrow> int \<Rightarrow> positions option" where
  "note_progress p pos now =
     (case pos of
        None \<Rightarrow> Some p
      | Some q \<Rightarrow>
          (case lastPos p of
             None \<Rightarrow> Some (p\<lparr>lastPos := Some q, lastAt := Some now\<rparr>)
           | Some old \<Rightarrow>
               map_option (\<lambda>c. if c \<noteq> Incomparable \<and> c > 0
                               then p\<lparr>lastPos := Some q, lastAt := Some now\<rparr> else p)
                 (Compare q old)))"

definition StalledSince :: "positions \<Rightarrow> position option \<Rightarrow> bool \<Rightarrow> int \<Rightarrow> (positions \<times> int option) option" where
  "StalledSince p pos owing now =
     map_option (\<lambda>p1. let p2 = (if \<not> owing then p1\<lparr>lastAt := Some now\<rparr>
                                else if lastAt p1 = None then p1\<lparr>lastAt := Some now\<rparr> else p1)
                      in (p2, lastAt p2))
       (note_progress p pos now)"

section \<open>Sent positions\<close>

type_synonym sent = "(string, string) gomap"

definition Note_sent :: "sent \<Rightarrow> string \<Rightarrow> string \<Rightarrow> sent" where
  "Note_sent s table pos = (if pos = [] then s else gm_put table pos s)"

definition Of_table :: "sent \<Rightarrow> string \<Rightarrow> string" where
  "Of_table s table = gm_at [] s table"

datatype frontier_err = IncomparableError position position

text \<open>
  \<open>Frontier\<close>'s loop: \<open>parse\<close> is the source's parser, \<open>None\<close> its error; the tables it refuses are
  collected, as the code hands them to its callback.
\<close>

fun frontier_from :: "(string \<Rightarrow> position option) \<Rightarrow> sent \<Rightarrow> position option \<Rightarrow> string list \<Rightarrow>
                      (frontier_err, position option \<times> string list) res" where
  "frontier_from parse [] best skipped = Ok (best, skipped)"
| "frontier_from parse ((table, str) # rest) best skipped =
     (case parse str of
        None \<Rightarrow> frontier_from parse rest best (skipped @ [table])
      | Some p \<Rightarrow>
          (case best of
             None \<Rightarrow> frontier_from parse rest (Some p) skipped
           | Some b \<Rightarrow>
               (case Compare p b of
                  None \<Rightarrow> Panic
                | Some cmp \<Rightarrow>
                    if cmp = Incomparable then Err (IncomparableError b p)
                    else if cmp > 0 then frontier_from parse rest (Some p) skipped
                    else frontier_from parse rest best skipped)))"

definition Frontier :: "(string \<Rightarrow> position option) \<Rightarrow> sent \<Rightarrow>
                        (frontier_err, position option \<times> string list) res" where
  "Frontier parse s = frontier_from parse s None []"

section \<open>Acks\<close>

record ack =
  ack_Table :: string
  ack_Position :: string
  ack_MarkerID :: u64
  ack_Epoch :: u64

datatype ack_outcome =
    AckCommitted
  | AckMarker
  | AckStale
  | AckStaleMarker
  | AckUnparsable
  | AckNoWindow

text \<open>
  \<open>AckHost\<close>: the coordinator as an ack sees it, as functions on its state. A release that panics
  is \<open>None\<close>.
\<close>

record 'h ack_host =
  ParsePosition :: "'h \<Rightarrow> string \<Rightarrow> position option"
  Staged :: "'h \<Rightarrow> string \<Rightarrow> bool"
  Superseded :: "'h \<Rightarrow> string \<Rightarrow> u64 \<Rightarrow> bool"
  ReleaseMarker :: "'h \<Rightarrow> string \<Rightarrow> u64 \<Rightarrow> 'h option"
  Release :: "'h \<Rightarrow> string \<Rightarrow> string \<Rightarrow> position \<Rightarrow> ('h \<times> bool) option"

definition OnAck :: "'h ack_host \<Rightarrow> positions \<Rightarrow> 'h \<Rightarrow> string \<Rightarrow> ack \<Rightarrow> (positions \<times> 'h \<times> ack_outcome) option" where
  "OnAck H p h worker a =
     (if ack_MarkerID a \<noteq> 0 \<and> ack_Position a = [] then
        if Staged H h (ack_Table a) \<and> Superseded H h worker (ack_Epoch a)
        then Some (p, h, AckStaleMarker)
        else map_option (\<lambda>h'. (p, h', AckMarker)) (ReleaseMarker H h worker (ack_MarkerID a))
      else case ParsePosition H h (ack_Position a) of
             None \<Rightarrow> Some (p, h, AckUnparsable)
           | Some pos \<Rightarrow>
               let stg = Staged H h (ack_Table a) in
               if stg \<and> Superseded H h worker (ack_Epoch a) then Some (p, h, AckStale)
               else map_option
                 (\<lambda>(h', ok). if \<not> ok then (p, h', AckNoWindow)
                             else (if \<not> stg then Record p worker (Some pos) else p, h', AckCommitted))
                 (Release H h worker (ack_Table a) pos))"

record load =
  ld_Name :: string
  ld_Queued :: bool

fun owing_loads :: "(string \<Rightarrow> nat) \<Rightarrow> load list \<Rightarrow> (string, bool) gomap \<Rightarrow> (string, bool) gomap" where
  "owing_loads inFlight [] owing = owing"
| "owing_loads inFlight (w # ws) owing =
     owing_loads inFlight ws
       (if ld_Queued w \<or> inFlight (ld_Name w) > 0 then gm_put (ld_Name w) True owing else owing)"

definition Owing :: "load list \<Rightarrow> (string \<Rightarrow> nat) \<Rightarrow> string list \<Rightarrow> (string, bool) gomap" where
  "Owing workers inFlight bufferedOwners =
     foldl (\<lambda>owing name. gm_put name True owing) (owing_loads inFlight workers []) bufferedOwners"

section \<open>The confirmed position\<close>

definition positions_kind :: "pos_kind \<Rightarrow> positions \<Rightarrow> bool" where
  "positions_kind k p \<longleftrightarrow>
     gm_wf (byWorker p) \<and> (\<forall>(w, pos)\<in>set (byWorker p). \<forall>q. pos = Some q \<longrightarrow> of_kind k q)"

definition owes :: "(string, bool) gomap \<Rightarrow> string \<Rightarrow> bool" where
  "owes owing w = gm_at False owing w"

lemma scan_owing_Some:
  "scan_owing owing m vals any = Some (vals', any') \<Longrightarrow>
     set vals' = set vals \<union> {q. \<exists>w. (w, Some q) \<in> set m \<and> owes owing w} \<and>
     any' = (any \<or> (\<exists>(w, pos)\<in>set m. owes owing w)) \<and>
     (\<forall>(w, pos)\<in>set m. owes owing w \<longrightarrow> pos \<noteq> None)"
proof (induction owing m vals any rule: scan_owing.induct)
  case (2 owing name pos rest vals any)
  show ?case
  proof (cases "owes owing name")
    case False
    with 2 show ?thesis by (auto simp: owes_def)
  next
    case True
    then obtain q where q: "pos = Some q" using "2.prems" by (auto simp: owes_def split: option.splits)
    with True "2.prems" have "scan_owing owing rest (vals @ [q]) True = Some (vals', any')"
      by (simp add: owes_def)
    with True q "2.IH"(2) [of q] show ?thesis by (auto simp: owes_def)
  qed
qed auto

lemma scan_owing_None:
  "scan_owing owing m vals any = None \<longleftrightarrow> (\<exists>w. (w, None) \<in> set m \<and> owes owing w)"
  by (induction owing m vals any rule: scan_owing.induct) (auto simp: owes_def split: option.splits)

lemma scan_all_Some:
  "scan_all m vals = Some vals' \<Longrightarrow>
     set vals' = set vals \<union> {q. \<exists>w. (w, Some q) \<in> set m} \<and> (\<forall>(w, pos)\<in>set m. pos \<noteq> None)"
  by (induction m vals rule: scan_all.induct) (auto split: option.splits)

lemma registered_lookup:
  "positions_kind k p \<Longrightarrow> (w, pos) \<in> set (byWorker p) \<longleftrightarrow> map_of (byWorker p) w = Some pos"
  by (simp add: positions_kind_def gm_wf_lookup)

text \<open>What the confirmed position may be: a lower bound of every owing worker's commit.\<close>

lemma Positions_Min_Some:
  assumes k: "positions_kind k p" and m: "Positions_Min p owing dispatched = Ok (Some m)"
  shows "(\<exists>w. Has_worker p w \<and> owes owing w) \<and>
           (\<forall>w. Has_worker p w \<and> owes owing w \<longrightarrow> (\<exists>q. Of_worker p w = Some q \<and> pos_le m q)) \<or>
         (\<forall>w. Has_worker p w \<longrightarrow> \<not> owes owing w) \<and> dispatched = Some m \<or>
         (\<forall>w. Has_worker p w \<longrightarrow> \<not> owes owing w) \<and> dispatched = None \<and>
           (\<forall>w. Has_worker p w \<longrightarrow> (\<exists>q. Of_worker p w = Some q \<and> pos_le m q))"
proof -
  obtain vals any where scan: "scan_owing owing (byWorker p) [] False = Some (vals, any)"
    using m by (auto simp: Positions_Min_def split: option.splits if_splits)
  note sc = scan_owing_Some [OF scan]
  have reg: "Has_worker p w \<longleftrightarrow> (\<exists>pos. (w, pos) \<in> set (byWorker p))" for w
    by (auto simp: Has_worker_def gm_has_def registered_lookup [OF k])
  have of: "Of_worker p w = pos" if "(w, pos) \<in> set (byWorker p)" for w pos
    using that by (simp add: Of_worker_def gm_at_def registered_lookup [OF k])
  have kinds: "of_kind k q" if "(w, Some q) \<in> set (byWorker p)" for w q
    using k that by (auto simp: positions_kind_def)
  consider (owing) "any" "MinSafe vals = Ok (Some m)"
    | (idle) "\<not> any" "dispatched = Some m"
    | (base) vals' where "\<not> any" "dispatched = None" "scan_all (byWorker p) vals = Some vals'" "MinSafe vals' = Ok (Some m)"
    using m scan by (auto simp: Positions_Min_def split: option.splits if_splits)
  then show ?thesis
  proof cases
    case owing
    have "\<forall>v\<in>set vals. of_kind k v" using sc kinds by auto
    from pk.minsafe_glb(2) [OF owing(2) this] have le: "\<forall>v\<in>set vals. pos_le m v" .
    have "\<exists>q. Of_worker p w = Some q \<and> pos_le m q" if "Has_worker p w" "owes owing w" for w
    proof -
      from that(1) obtain pos where mem: "(w, pos) \<in> set (byWorker p)" using reg by blast
      with that(2) sc obtain q where "pos = Some q" by fastforce
      with mem that(2) sc le of [OF mem] show ?thesis by auto
    qed
    moreover have "\<exists>w. Has_worker p w \<and> owes owing w" using sc owing(1) reg by auto
    ultimately show ?thesis by blast
  next
    case idle
    then show ?thesis using sc reg by auto
  next
    case base
    from scan_all_Some [OF base(3)] have sa: "set vals' = set vals \<union> {q. \<exists>w. (w, Some q) \<in> set (byWorker p)}"
      "\<forall>(w, pos)\<in>set (byWorker p). pos \<noteq> None" by auto
    have "\<forall>v\<in>set vals'. of_kind k v" using sa(1) sc kinds by auto
    from pk.minsafe_glb(2) [OF base(4) this] have le: "\<forall>v\<in>set vals'. pos_le m v" .
    have "\<exists>q. Of_worker p w = Some q \<and> pos_le m q" if "Has_worker p w" for w
    proof -
      from that obtain pos where mem: "(w, pos) \<in> set (byWorker p)" using reg by blast
      with sa(2) obtain q where "pos = Some q" by fastforce
      with mem sa(1) le of [OF mem] show ?thesis by auto
    qed
    then show ?thesis using base sc reg by auto
  qed
qed

lemma Positions_Min_no_panic:
  assumes "positions_kind k p"
  shows "Positions_Min p owing dispatched \<noteq> Panic"
proof -
  have kinds: "of_kind k q" if "(w, Some q) \<in> set (byWorker p)" for w q
    using assms that by (auto simp: positions_kind_def)
  have "MinSafe vals \<noteq> Panic" if "scan_owing owing (byWorker p) [] False = Some (vals, any)" for vals any
    using scan_owing_Some [OF that] kinds by (intro pk.minsafe_no_panic [of _ k]) auto
  moreover have "MinSafe vals' \<noteq> Panic"
    if "scan_owing owing (byWorker p) [] False = Some (vals, any)" "scan_all (byWorker p) vals = Some vals'" for vals any vals'
    using scan_owing_Some [OF that(1)] scan_all_Some [OF that(2)] kinds
    by (intro pk.minsafe_no_panic [of _ k]) auto
  ultimately show ?thesis
    by (auto simp: Positions_Min_def split: option.splits)
qed

lemma Positions_Min_held:
  assumes "positions_kind k p" "Has_worker p w" "owes owing w" "Of_worker p w = None"
  shows "Positions_Min p owing dispatched = Ok None"
proof -
  have "(w, None) \<in> set (byWorker p)"
    using assms by (auto simp: Has_worker_def gm_has_def Of_worker_def gm_at_def registered_lookup
        split: option.splits)
  with assms(3) have "scan_owing owing (byWorker p) [] False = None"
    by (auto simp: scan_owing_None)
  then show ?thesis by (simp add: Positions_Min_def)
qed

subsection \<open>Who owes\<close>

lemma owing_loads_at:
  "gm_at False (owing_loads inFlight ws owing) w \<longleftrightarrow>
     gm_at False owing w \<or> (\<exists>l\<in>set ws. ld_Name l = w \<and> (ld_Queued l \<or> inFlight w > 0))"
  by (induction inFlight ws owing rule: owing_loads.induct) auto

lemma foldl_gm_put_True:
  "gm_at False (foldl (\<lambda>owing name. gm_put name True owing) m names) w \<longleftrightarrow> w \<in> set names \<or> gm_at False m w"
  by (induction names arbitrary: m) auto

lemma Owing_iff:
  "owes (Owing ws inFlight buffered) w \<longleftrightarrow>
     w \<in> set buffered \<or> (\<exists>l\<in>set ws. ld_Name l = w \<and> (ld_Queued l \<or> inFlight w > 0))"
  by (simp add: owes_def Owing_def foldl_gm_put_True owing_loads_at)

section \<open>The frontier\<close>

text \<open>The positions the loop still has to take into account, the best so far included.\<close>

definition candidates :: "(string \<Rightarrow> position option) \<Rightarrow> sent \<Rightarrow> position option \<Rightarrow> position set" where
  "candidates parse s best = {b. best = Some b} \<union> {p. \<exists>t str. (t, str) \<in> set s \<and> parse str = Some p}"

lemma candidates_Cons:
  "candidates parse ((t, str) # rest) best =
     (case parse str of None \<Rightarrow> candidates parse rest best | Some p \<Rightarrow> insert p (candidates parse rest best))"
  by (cases "parse str") (auto simp: candidates_def)

lemma candidates_best: "candidates parse s (Some b) = insert b (candidates parse s None)"
  by (auto simp: candidates_def)

lemma frontier_from_spec:
  assumes "frontier_from parse s best skipped = Ok (r, sk)"
    "\<forall>p\<in>candidates parse s best. of_kind k p"
  shows "(\<forall>p\<in>candidates parse s best. \<exists>f. r = Some f \<and> pos_le p f) \<and>
         (\<forall>f. r = Some f \<longrightarrow> f \<in> candidates parse s best)"
  using assms
proof (induction parse s best skipped rule: frontier_from.induct)
  case (1 parse best skipped)
  then show ?case by (auto simp: candidates_def intro: pk.le_refl)
next
  case (2 parse table str rest best skipped)
  show ?case
  proof (cases "parse str")
    case None
    with "2.prems" "2.IH"(1) [OF None] show ?thesis by (simp add: candidates_Cons)
  next
    case p: (Some p)
    show ?thesis
    proof (cases best)
      case None
      with p "2.prems" "2.IH"(2) [OF p None] show ?thesis by (simp add: candidates_Cons candidates_best)
    next
      case b: (Some b)
      have K: "of_kind k p" "of_kind k b" using "2.prems"(2) p b by (auto simp: candidates_def)
      then obtain c where c: "Compare p b = Some c" using pk.compare_total by blast
      with "2.prems"(1) p b have ni: "c \<noteq> Incomparable" by auto
      show ?thesis
      proof (cases "c > 0")
        case True
        have le: "pos_le b p"
          using pk.compare_pos [OF K c] pk.compare_inc [OF K c] True ni by blast
        have rec: "frontier_from parse rest (Some p) skipped = Ok (r, sk)"
          using "2.prems"(1) p b c ni True by simp
        have sub: "candidates parse rest (Some p) \<subseteq> candidates parse ((table, str) # rest) best"
          using p by (auto simp: candidates_def)
        have IH: "(\<forall>q\<in>candidates parse rest (Some p). \<exists>f. r = Some f \<and> pos_le q f) \<and>
            (\<forall>f. r = Some f \<longrightarrow> f \<in> candidates parse rest (Some p))"
          using "2.IH"(3) [OF p b c ni True rec] "2.prems"(2) sub by blast
        then obtain f where f: "r = Some f" "pos_le p f" "f \<in> candidates parse rest (Some p)"
          by (auto simp: candidates_def)
        with sub "2.prems"(2) have "of_kind k f" by blast
        with le f K have "pos_le b f" by (blast intro: pk.le_trans)
        with IH f sub p b show ?thesis by (auto simp: candidates_def)
      next
        case False
        have le: "pos_le p b" using pk.compare_pos [OF K c] False by blast
        have rec: "frontier_from parse rest best skipped = Ok (r, sk)"
          using "2.prems"(1) p b c ni False by simp
        have sub: "candidates parse rest best \<subseteq> candidates parse ((table, str) # rest) best"
          by (auto simp: candidates_def)
        have IH: "(\<forall>q\<in>candidates parse rest best. \<exists>f. r = Some f \<and> pos_le q f) \<and>
            (\<forall>f. r = Some f \<longrightarrow> f \<in> candidates parse rest best)"
          using "2.IH"(4) [OF p b c ni False rec] "2.prems"(2) sub by blast
        then obtain f where f: "r = Some f" "pos_le b f" "f \<in> candidates parse rest best"
          using b by (auto simp: candidates_def)
        with sub "2.prems"(2) have "of_kind k f" by blast
        with le f K have "pos_le p f" by (blast intro: pk.le_trans)
        with IH f sub p b show ?thesis by (auto simp: candidates_def)
      qed
    qed
  qed
qed

lemma frontier_from_no_panic:
  "\<forall>p\<in>candidates parse s best. of_kind k p \<Longrightarrow> frontier_from parse s best skipped \<noteq> Panic"
proof (induction parse s best skipped rule: frontier_from.induct)
  case (2 parse table str rest best skipped)
  show ?case
  proof (cases "parse str")
    case None
    with 2 show ?thesis by (simp add: candidates_Cons)
  next
    case p: (Some p)
    show ?thesis
    proof (cases best)
      case None
      with 2 p show ?thesis by (simp add: candidates_Cons candidates_best)
    next
      case b: (Some b)
      have "of_kind k p" "of_kind k b" using "2.prems" p b by (auto simp: candidates_def)
      then obtain c where "Compare p b = Some c" using pk.compare_total by blast
      with 2 p b show ?thesis by (simp add: candidates_Cons candidates_best)
    qed
  qed
qed simp

text \<open>
  The walk order matters when two tables' positions are incomparable and a third contains both:
  meeting the third first gives it, meeting the incomparable pair first gives none.
\<close>

lemma Frontier_depends_on_order:
  "Frontier (\<lambda>s. Some (POffsets [(t, [(0, 1)]). t \<leftarrow> split_on CHR '','' s])) [(''c'', ''x,y''), (''a'', ''x''), (''b'', ''y'')]
     = Ok (Some (POffsets [(''x'', [(0, 1)]), (''y'', [(0, 1)])]), []) \<and>
   Frontier (\<lambda>s. Some (POffsets [(t, [(0, 1)]). t \<leftarrow> split_on CHR '','' s])) [(''a'', ''x''), (''b'', ''y''), (''c'', ''x,y'')]
     = Err (IncomparableError (POffsets [(''x'', [(0, 1)])]) (POffsets [(''y'', [(0, 1)])]))"
  by code_simp

section \<open>What an ack relies on\<close>

text \<open>
  The contract between \<open>OnAck\<close> and its host: positions it parses are of the pipeline's kind, and a
  release neither panics nor breaks the host's invariant, and changes nothing when it reports that
  the worker has no window.
\<close>

locale ack_window =
  fixes H :: "'h ack_host" and inv :: "'h \<Rightarrow> bool" and pos_ok :: "position \<Rightarrow> bool"
  assumes parse_ok: "inv h \<Longrightarrow> ParsePosition H h s = Some q \<Longrightarrow> pos_ok q"
    and marker_ok: "inv h \<Longrightarrow> \<exists>h'. ReleaseMarker H h w i = Some h' \<and> inv h'"
    and release_ok: "inv h \<Longrightarrow> pos_ok q \<Longrightarrow>
          \<exists>h' ok. Release H h w t q = Some (h', ok) \<and> inv h' \<and> (\<not> ok \<longrightarrow> h' = h)"
begin

lemma onack_total:
  assumes "inv h"
  shows "\<exists>p' h' out. OnAck H p h w a = Some (p', h', out) \<and> inv h'"
proof (cases "ack_MarkerID a \<noteq> 0 \<and> ack_Position a = []")
  case True
  with assms marker_ok [OF assms, of w "ack_MarkerID a"] show ?thesis
    by (auto simp: OnAck_def)
next
  case no_marker: False
  show ?thesis
  proof (cases "ParsePosition H h (ack_Position a)")
    case None
    with no_marker assms show ?thesis by (auto simp: OnAck_def)
  next
    case (Some q)
    from release_ok [OF assms parse_ok [OF assms Some], of w "ack_Table a"] obtain h' ok
      where "Release H h w (ack_Table a) q = Some (h', ok)" "inv h'" by blast
    with no_marker Some assms show ?thesis by (auto simp: OnAck_def Let_def)
  qed
qed

lemma onack_effect:
  assumes "inv h" "OnAck H p h w a = Some (p', h', out)"
  shows "(out \<in> {AckStale, AckStaleMarker, AckUnparsable, AckNoWindow} \<longrightarrow> p' = p \<and> h' = h) \<and>
         (out = AckMarker \<longrightarrow> p' = p \<and> ReleaseMarker H h w (ack_MarkerID a) = Some h') \<and>
         (out = AckCommitted \<longrightarrow> (\<exists>q. ParsePosition H h (ack_Position a) = Some q \<and>
            Release H h w (ack_Table a) q = Some (h', True) \<and>
            (Staged H h (ack_Table a) \<longrightarrow> \<not> Superseded H h w (ack_Epoch a) \<and> p' = p) \<and>
            (\<not> Staged H h (ack_Table a) \<longrightarrow> p' = Record p w (Some q))))"
proof (cases "ack_MarkerID a \<noteq> 0 \<and> ack_Position a = []")
  case True
  with assms(2) show ?thesis by (auto simp: OnAck_def split: if_splits)
next
  case no_marker: False
  show ?thesis
  proof (cases "ParsePosition H h (ack_Position a)")
    case None
    with no_marker assms(2) show ?thesis by (auto simp: OnAck_def)
  next
    case (Some q)
    from release_ok [OF assms(1) parse_ok [OF assms(1) Some], of w "ack_Table a"] obtain h1 ok
      where "Release H h w (ack_Table a) q = Some (h1, ok)" "\<not> ok \<longrightarrow> h1 = h" by blast
    with no_marker Some assms(2) show ?thesis
      by (auto simp: OnAck_def Let_def split: if_splits)
  qed
qed

end

section \<open>Properties\<close>

text \<open>
  C8: the position reported to the source never passes the commit of a worker that holds data not
  yet durable: whichever batch is queued, in flight or buffered, the confirmed position is at or
  before what its worker has committed, and there is none while that worker has committed nothing.
\<close>

theorem confirmed_held_back_by_owing:
  assumes "positions_kind k p" "Has_worker p w"
    "w \<in> set buffered \<or> (\<exists>l\<in>set loads. ld_Name l = w \<and> (ld_Queued l \<or> ix_InFlight x w > 0))"
  shows "Positions_Min p (Owing loads (ix_InFlight x) buffered) d \<noteq> Panic \<and>
         (Of_worker p w = None \<longrightarrow> Positions_Min p (Owing loads (ix_InFlight x) buffered) d = Ok None) \<and>
         (\<forall>m. Positions_Min p (Owing loads (ix_InFlight x) buffered) d = Ok (Some m) \<longrightarrow>
            (\<exists>q. Of_worker p w = Some q \<and> pos_le m q))"
proof (intro conjI allI impI)
  have owes: "owes (Owing loads (ix_InFlight x) buffered) w"
    using assms(3) by (simp add: Owing_iff)
  show "Positions_Min p (Owing loads (ix_InFlight x) buffered) d \<noteq> Panic"
    using assms(1) by (rule Positions_Min_no_panic)
  show "Positions_Min p (Owing loads (ix_InFlight x) buffered) d = Ok None" if "Of_worker p w = None"
    using Positions_Min_held [OF assms(1,2) owes that] .
  show "\<exists>q. Of_worker p w = Some q \<and> pos_le m q"
    if "Positions_Min p (Owing loads (ix_InFlight x) buffered) d = Ok (Some m)" for m
    using Positions_Min_Some [OF assms(1) that] owes assms(2) by blast
qed

theorem confirmed_held_back_by_owing_witness:
  "Positions_Min \<lparr>byWorker = [(''w1'', Some (PLSN 7)), (''w2'', Some (PLSN 4))], lastPos = None, lastAt = None\<rparr>
     (Owing [\<lparr>ld_Name = ''w2'', ld_Queued = True\<rparr>] (ix_InFlight []) []) (Some (PLSN 9)) = Ok (Some (PLSN 4)) \<and>
   pos_le (PLSN 4) (PLSN 4)"
proof -
  let ?p = "\<lparr>byWorker = [(''w1'', Some (PLSN 7)), (''w2'', Some (PLSN 4))], lastPos = None, lastAt = None\<rparr>"
  let ?o = "Owing [\<lparr>ld_Name = ''w2'', ld_Queued = True\<rparr>] (ix_InFlight []) []"
  have "positions_kind KLSN ?p" "Has_worker ?p ''w2''"
    by (simp_all add: positions_kind_def Has_worker_def gm_has_def)
  moreover have min: "Positions_Min ?p ?o (Some (PLSN 9)) = Ok (Some (PLSN 4))" by code_simp
  ultimately have "\<exists>q. Of_worker ?p ''w2'' = Some q \<and> pos_le (PLSN 4) q"
    using confirmed_held_back_by_owing [of KLSN ?p "''w2''" "[]" "[\<lparr>ld_Name = ''w2'', ld_Queued = True\<rparr>]" "[]" "Some (PLSN 9)"]
    by auto
  then have "pos_le (PLSN 4) (PLSN 4)" by (simp add: Of_worker_def gm_at_def)
  with min show ?thesis by simp
qed

text \<open>
  The frontier, the position an idle pipeline may be confirmed at, is one of the tables' last
  sent positions and contains all of them; it is absent only when nothing that parses was sent,
  and computing it never panics.
\<close>

theorem Frontier_greatest_sent:
  assumes "\<forall>q\<in>candidates parse s None. of_kind k q"
  shows "Frontier parse s \<noteq> Panic \<and>
         (\<forall>f sk. Frontier parse s = Ok (Some f, sk) \<longrightarrow>
            f \<in> candidates parse s None \<and> (\<forall>q\<in>candidates parse s None. pos_le q f)) \<and>
         (\<forall>sk. Frontier parse s = Ok (None, sk) \<longrightarrow> candidates parse s None = {})"
  using frontier_from_no_panic [OF assms, of "[]"] frontier_from_spec [OF _ assms, of "[]"]
  unfolding Frontier_def by fastforce

definition sample_parse :: "string \<Rightarrow> position option" where
  "sample_parse s = (if s = ''lo'' then Some (PLSN 4) else if s = ''hi'' then Some (PLSN 9) else None)"

definition sample_sent :: sent where
  "sample_sent = [(''a'', ''lo''), (''b'', ''hi''), (''c'', ''bad'')]"

theorem Frontier_greatest_sent_witness:
  "Frontier sample_parse sample_sent = Ok (Some (PLSN 9), [''c'']) \<and> pos_le (PLSN 4) (PLSN 9)"
proof -
  have "\<forall>q\<in>candidates sample_parse sample_sent None. of_kind KLSN q"
    by (auto simp: candidates_def sample_parse_def split: if_splits)
  note F = Frontier_greatest_sent [OF this]
  have eval: "Frontier sample_parse sample_sent = Ok (Some (PLSN 9), [''c''])" by code_simp
  with F have "\<forall>q\<in>candidates sample_parse sample_sent None. pos_le q (PLSN 9)" by blast
  moreover have "PLSN 4 \<in> candidates sample_parse sample_sent None"
    unfolding candidates_def
    by (rule UnI2, rule CollectI, rule exI [of _ "''a''"], rule exI [of _ "''lo''"])
      (simp add: sample_parse_def sample_sent_def)
  ultimately have "pos_le (PLSN 4) (PLSN 9)" by (rule bspec)
  with eval show ?thesis by (rule conjI)
qed

end
