(* ===== verification/Flow.thy ===== *)
theory Flow
  imports Budget Confirmed Markers
begin

text \<open>
  The coordinator's side of flow control: what \<open>internal/coordinator\<close> does with the budget, the
  in-flight indexes, the markers and the sent lists when a batch is queued (\<open>enqueue.go\<close>), when an
  ack arrives (\<open>confirmed.go\<close>, \<open>snapshot.go\<close>) and when a staged cycle commits (\<open>staged.go\<close>). The
  state is the part of \<open>Coordinator\<close> these functions touch. The lemmas show that the budget's charge
  of a worker is always the bytes of its window plus what is acquired and not yet registered: an
  ack, a marker ack, a delivery and a cancelled delivery all keep the books.
\<close>

section \<open>State\<close>

record 'v flow =
  fl_budget :: budget
  fl_index :: indexes
  fl_sentList :: "(string, u64 list) gomap"
  fl_epoch :: "(string, u64) gomap"
  fl_queue :: "(string, (u64 \<times> bool) list) gomap"
  fl_sent :: sent
  fl_markers :: "'v markers"
  fl_stages :: bool
  fl_owners :: "(string, string list) gomap"

text \<open>\<open>ParsePosition\<close> of the four sources: each parses its own kind, a plugin's is opaque.\<close>

definition source_ParsePosition :: "pos_kind \<Rightarrow> string \<Rightarrow> position option" where
  "source_ParsePosition k s =
     (case k of
        KLSN \<Rightarrow> (case ParseLSN s of Ok l \<Rightarrow> Some (PLSN l) | _ \<Rightarrow> None)
      | KGTID \<Rightarrow> (case ParseGTID s of Ok g \<Rightarrow> Some (PGTID g) | _ \<Rightarrow> None)
      | KOffsets \<Rightarrow> (case ParseOffsets s of Ok os \<Rightarrow> Some (POffsets os) | _ \<Rightarrow> None)
      | KString \<Rightarrow> Some (PString s))"

definition dropSent :: "u64 list \<Rightarrow> u64 list \<Rightarrow> u64 list" where
  "dropSent sl ids = (if ids = [] then sl else filter (\<lambda>i. i \<notin> set ids) sl)"

definition recordSent :: "u64 list \<Rightarrow> u64 \<times> bool \<Rightarrow> u64 list" where
  "recordSent sl qb = (if snd qb then sl else sl @ [fst qb])"

text \<open>
  The tail the three releasing functions share: freed bytes back to the budget, the oversized slot
  when an oversized batch left, the popped ids off the sent list of a registered worker.
\<close>

definition give_back :: "'v flow \<Rightarrow> string \<Rightarrow> int \<Rightarrow> bool \<Rightarrow> u64 list \<Rightarrow> 'v flow" where
  "give_back f w freed over popped =
     (let b1 = (if freed > 0 then Budget_Release (fl_budget f) w freed else fl_budget f);
          b2 = (if over then ClearOversized b1 w else b1)
      in f\<lparr>fl_budget := b2,
           fl_sentList := (case map_of (fl_sentList f) w of
                             None \<Rightarrow> fl_sentList f
                           | Some sl \<Rightarrow> gm_put w (dropSent sl popped) (fl_sentList f))\<rparr>)"

definition host_Release :: "'v flow \<Rightarrow> string \<Rightarrow> string \<Rightarrow> position \<Rightarrow> ('v flow \<times> bool) option" where
  "host_Release f w tbl pos =
     (case ix_Of (fl_index f) w of
        None \<Rightarrow> Some (f, False)
      | Some idx \<Rightarrow>
          map_option (\<lambda>(idx', freed, over, popped).
              (give_back (f\<lparr>fl_index := gm_put w idx' (fl_index f)\<rparr>) w freed over popped, True))
            (px_Truncate idx tbl pos))"

definition onMarkerAck :: "'v flow \<Rightarrow> string \<Rightarrow> u64 \<Rightarrow> 'v flow option" where
  "onMarkerAck f w i =
     (case ix_Of (fl_index f) w of
        None \<Rightarrow> Some f
      | Some idx \<Rightarrow>
          (let f1 = f\<lparr>fl_markers := RecordCursor (fl_markers f) w i\<rparr> in
           map_option (\<lambda>(idx', freed, over, popped).
               give_back (f1\<lparr>fl_index := gm_put w idx' (fl_index f1)\<rparr>) w freed over popped)
             (px_ReleaseMarker idx i)))"

definition isStagedTable :: "'v flow \<Rightarrow> string \<Rightarrow> bool" where
  "isStagedTable f target = (fl_stages f \<and> length (gm_at [] (fl_owners f) target) > 1)"

definition supersededEpoch :: "'v flow \<Rightarrow> string \<Rightarrow> u64 \<Rightarrow> bool" where
  "supersededEpoch f w epoch =
     (case map_of (fl_epoch f) w of None \<Rightarrow> False | Some e \<Rightarrow> e \<noteq> epoch)"

definition coord_host :: "pos_kind \<Rightarrow> 'v flow ack_host" where
  "coord_host k =
     \<lparr>ParsePosition = (\<lambda>f. source_ParsePosition k),
      Staged = isStagedTable,
      Superseded = supersededEpoch,
      ReleaseMarker = onMarkerAck,
      Release = host_Release\<rparr>"

lemma coord_host_sel:
  "ParsePosition (coord_host k) f = source_ParsePosition k" "Staged (coord_host k) = isStagedTable"
  "Superseded (coord_host k) = supersededEpoch" "ReleaseMarker (coord_host k) = onMarkerAck"
  "Release (coord_host k) = host_Release"
  by (simp_all add: coord_host_def)

text \<open>\<open>releaseCommittedCycles\<close>: the same release for every owner of the table.\<close>

fun release_owners :: "'v flow \<Rightarrow> string list \<Rightarrow> string \<Rightarrow> position \<Rightarrow> 'v flow option" where
  "release_owners f [] tbl pos = Some f"
| "release_owners f (w # ws) tbl pos =
     Option.bind (host_Release f w tbl pos) (\<lambda>(f', _). release_owners f' ws tbl pos)"

definition releaseCommittedCycles :: "'v flow \<Rightarrow> string \<Rightarrow> position \<Rightarrow> 'v flow option" where
  "releaseCommittedCycles f tbl pos = release_owners f (gm_at [] (fl_owners f) tbl) tbl pos"

section \<open>Queueing a batch\<close>

record delivery =
  dl_ID :: u64
  dl_Table :: string
  dl_Closes :: bool
  dl_Partial :: bool
  dl_Bytes :: int
  dl_SnapshotRows :: bool
  dl_Pos :: string

definition releaseUndelivered :: "'v flow \<Rightarrow> string \<Rightarrow> int \<Rightarrow> 'v flow" where
  "releaseUndelivered f w n =
     (let b = Budget_Release (fl_budget f) w n in
      f\<lparr>fl_budget := (if IsOversized b n then ClearOversized b w else b)\<rparr>)"

definition flight_batch :: "'v flow \<Rightarrow> delivery \<Rightarrow> position option \<Rightarrow> fbatch" where
  "flight_batch f d high =
     \<lparr>fb_ID = dl_ID d, fb_Table = dl_Table d, fb_High = high, fb_Bytes = dl_Bytes d,
      fb_Oversized = IsOversized (fl_budget f) (dl_Bytes d), fb_Marker = dl_Closes d,
      fb_Partial = dl_Partial d\<rparr>"

definition register_batch :: "'v flow \<Rightarrow> string \<Rightarrow> delivery \<Rightarrow> position option \<Rightarrow> 'v flow" where
  "register_batch f w d high =
     (if dl_SnapshotRows d then f
      else case ix_Of (fl_index f) w of
             None \<Rightarrow> f
           | Some idx \<Rightarrow> f\<lparr>fl_index := gm_put w (px_Add idx (flight_batch f d high)) (fl_index f)\<rparr>)"

definition unregister_batch :: "'v flow \<Rightarrow> string \<Rightarrow> delivery \<Rightarrow> 'v flow" where
  "unregister_batch f w d =
     (case ix_Of (fl_index f) w of
        None \<Rightarrow> f
      | Some idx \<Rightarrow> f\<lparr>fl_index := gm_put w (fst (px_Remove idx (dl_ID d))) (fl_index f)\<rparr>)"

datatype deliver_out = Delivered | BadPosition | SendCancelled

text \<open>
  \<open>deliverBatch\<close>; \<open>sent_ok\<close> is which arm of the \<open>select\<close> ran: the queue took the batch, or the
  context was done first. Delivery is one step here: the code registers the batch, waits in the \<open>select\<close>
  and then notes or undoes, and what an ack does to the index during that wait is not modelled.
\<close>

definition deliverBatch :: "pos_kind \<Rightarrow> 'v flow \<Rightarrow> string \<Rightarrow> delivery \<Rightarrow> bool \<Rightarrow> 'v flow \<times> deliver_out" where
  "deliverBatch k f w d sent_ok =
     (let parsed = (if dl_Pos d = [] then Some None
                    else map_option Some (source_ParsePosition k (dl_Pos d)))
      in case parsed of
           None \<Rightarrow> (if dl_SnapshotRows d then f else releaseUndelivered f w (dl_Bytes d), BadPosition)
         | Some high \<Rightarrow>
             (let f1 = register_batch f w d high in
              if sent_ok then
                (let f2 = f1\<lparr>fl_queue := gm_put w (gm_at [] (fl_queue f1) w @ [(dl_ID d, dl_SnapshotRows d)])
                                            (fl_queue f1)\<rparr>
                 in (if dl_SnapshotRows d then f2
                     else f2\<lparr>fl_sent := Note_sent (fl_sent f2) (dl_Table d) (dl_Pos d)\<rparr>, Delivered))
              else (if dl_SnapshotRows d then f1
                    else releaseUndelivered (unregister_batch f1 w d) w (dl_Bytes d), SendCancelled)))"

section \<open>The books\<close>

definition window_bytes :: "indexes \<Rightarrow> string \<Rightarrow> int" where
  "window_bytes x w = (case ix_Of x w of None \<Rightarrow> 0 | Some idx \<Rightarrow> sum_list (map fb_Bytes (px_head idx)))"

text \<open>
  \<open>flow_ok k extra f\<close>: positions are of kind \<open>k\<close>, batches have non-negative sizes, and every worker's
  charge is its window plus \<open>extra w\<close>, the bytes acquired for batches not registered yet.
\<close>

definition flow_ok :: "pos_kind \<Rightarrow> (string \<Rightarrow> int) \<Rightarrow> 'v flow \<Rightarrow> bool" where
  "flow_ok k extra f \<longleftrightarrow>
     gm_wf (fl_index f) \<and>
     (\<forall>(w, idx)\<in>set (fl_index f). px_kind k idx \<and> (\<forall>h\<in>set (px_head idx). 0 \<le> fb_Bytes h)) \<and>
     (\<forall>w. 0 \<le> extra w) \<and>
     (\<forall>w. Budget_InFlight (fl_budget f) w = window_bytes (fl_index f) w + extra w)"

lemma flow_ok_index:
  assumes "flow_ok k extra f" "ix_Of (fl_index f) w = Some idx"
  shows "px_kind k idx" "\<forall>h\<in>set (px_head idx). 0 \<le> fb_Bytes h"
  using assms by (auto simp: flow_ok_def ix_Of_def dest!: map_of_SomeD)

lemma source_ParsePosition_kind: "source_ParsePosition k s = Some q \<Longrightarrow> of_kind k q"
  by (cases k) (auto simp: source_ParsePosition_def ParseGTID_wf ParseOffsets_wf split: res.splits)

lemma Budget_InFlight_Release:
  assumes "n \<le> Budget_InFlight b w"
  shows "Budget_InFlight (Budget_Release b w n) v
           = (if v = w then Budget_InFlight b w - n else Budget_InFlight b v)"
  using Budget_Release_books(1) [of b w _ n v] assms by (simp add: Budget_InFlight_def)

lemma Budget_InFlight_Clear [simp]: "Budget_InFlight (ClearOversized b w) v = Budget_InFlight b v"
  by (simp add: Budget_InFlight_def ClearOversized_def)

lemma give_back_index [simp]: "fl_index (give_back f w freed over popped) = fl_index f"
  by (simp add: give_back_def Let_def)

lemma give_back_charge:
  assumes "0 \<le> freed" "freed \<le> Budget_InFlight (fl_budget f) w"
  shows "Budget_InFlight (fl_budget (give_back f w freed over popped)) v
           = (if v = w then Budget_InFlight (fl_budget f) w - freed else Budget_InFlight (fl_budget f) v)"
  using assms by (auto simp: give_back_def Let_def Budget_InFlight_Release)

lemma sum_bytes_nonneg: "\<forall>h\<in>set hs. 0 \<le> fb_Bytes h \<Longrightarrow> 0 \<le> sum_list (map fb_Bytes hs)"
  by (induction hs) auto

text \<open>Replacing a worker's window and giving back what left it keeps the books.\<close>

lemma flow_ok_replace:
  assumes ok: "flow_ok k extra f" and idx: "ix_Of (fl_index f) w = Some idx"
    and new: "px_kind k idx'" "\<forall>h\<in>set (px_head idx'). 0 \<le> fb_Bytes h"
    and freed: "0 \<le> freed" "sum_list (map fb_Bytes (px_head idx)) = freed + sum_list (map fb_Bytes (px_head idx'))"
    and f': "fl_index f' = gm_put w idx' (fl_index f)" "fl_budget f' = fl_budget f"
  shows "flow_ok k extra (give_back f' w freed over popped)"
proof -
  have charge: "Budget_InFlight (fl_budget f) v = window_bytes (fl_index f) v + extra v" "0 \<le> extra v" for v
    using ok by (simp_all add: flow_ok_def)
  have "window_bytes (fl_index f) w = freed + sum_list (map fb_Bytes (px_head idx'))"
    using idx freed(2) by (simp add: window_bytes_def)
  moreover have "0 \<le> sum_list (map fb_Bytes (px_head idx'))" using new(2) by (rule sum_bytes_nonneg)
  ultimately have "freed \<le> Budget_InFlight (fl_budget f') w"
    using charge [of w] f'(2) by simp
  note gb = give_back_charge [OF freed(1) this]
  have win: "window_bytes (gm_put w idx' (fl_index f)) v =
      (if v = w then sum_list (map fb_Bytes (px_head idx')) else window_bytes (fl_index f) v)" for v
    by (simp add: window_bytes_def ix_Of_def)
  have wf: "gm_wf (fl_index f)" using ok by (simp add: flow_ok_def)
  have each: "px_kind k j \<and> (\<forall>h\<in>set (px_head j). 0 \<le> fb_Bytes h)"
    if "(v, j) \<in> set (gm_put w idx' (fl_index f))" for v j
  proof (cases "v = w")
    case True
    with that wf new show ?thesis by (simp add: gm_wf_lookup [OF gm_wf_put [OF wf]])
  next
    case False
    with that have "ix_Of (fl_index f) v = Some j" by (simp add: gm_wf_lookup [OF gm_wf_put [OF wf]] ix_Of_def)
    from flow_ok_index [OF ok this] show ?thesis by blast
  qed
  then have all: "\<forall>(v, j)\<in>set (gm_put w idx' (fl_index f)). px_kind k j \<and> (\<forall>h\<in>set (px_head j). 0 \<le> fb_Bytes h)"
    by blast
  moreover have "window_bytes (fl_index f) w - freed = sum_list (map fb_Bytes (px_head idx'))"
    using idx freed(2) by (simp add: window_bytes_def)
  ultimately show ?thesis
    using wf charge gb by (simp add: flow_ok_def f' win all)
qed

lemma host_Release_ok:
  assumes ok: "flow_ok k extra f" and q: "of_kind k q"
  shows "\<exists>f' b. host_Release f w t q = Some (f', b) \<and> flow_ok k extra f' \<and> (\<not> b \<longrightarrow> f' = f)"
proof (cases "ix_Of (fl_index f) w")
  case None
  with ok show ?thesis by (intro exI [of _ f] exI [of _ False]) (simp add: host_Release_def)
next
  case (Some idx)
  note idx = flow_ok_index [OF ok Some]
  from px_Truncate_spec [OF idx(1) q, of t] obtain idx' rel where tr:
    "px_Truncate idx t q = Some (idx', sum_list (map fb_Bytes rel), \<exists>h\<in>set rel. fb_Oversized h, map fb_ID rel)"
    "px_kind k idx'" and hd: "px_head idx = rel @ px_head idx'" by (elim exE conjE) (rule that)
  let ?f = "give_back (f\<lparr>fl_index := gm_put w idx' (fl_index f)\<rparr>) w (sum_list (map fb_Bytes rel))
      (\<exists>h\<in>set rel. fb_Oversized h) (map fb_ID rel)"
  have "flow_ok k extra ?f"
    using idx(2) hd tr(2) by (intro flow_ok_replace [OF ok Some]) (auto intro: sum_bytes_nonneg)
  moreover have "host_Release f w t q = Some (?f, True)"
    using Some tr(1) by (simp add: host_Release_def)
  ultimately show ?thesis by blast
qed

lemma onMarkerAck_ok:
  assumes ok: "flow_ok k extra f"
  shows "\<exists>f'. onMarkerAck f w i = Some f' \<and> flow_ok k extra f'"
proof (cases "ix_Of (fl_index f) w")
  case None
  with ok show ?thesis by (simp add: onMarkerAck_def)
next
  case (Some idx)
  note idx = flow_ok_index [OF ok Some]
  from px_ReleaseMarker_spec [OF idx, of i] obtain idx' freed over popped where rm:
    "px_ReleaseMarker idx i = Some (idx', freed, over, popped)" "px_kind k idx'" "0 \<le> freed"
    "sum_list (map fb_Bytes (px_head idx)) = freed + sum_list (map fb_Bytes (px_head idx'))"
    "set (px_head idx') \<subseteq> set (px_head idx)" by blast
  let ?f = "give_back (f\<lparr>fl_markers := RecordCursor (fl_markers f) w i, fl_index := gm_put w idx' (fl_index f)\<rparr>)
      w freed over popped"
  have "flow_ok k extra ?f"
    using idx(2) rm by (intro flow_ok_replace [OF ok Some]) auto
  moreover have "onMarkerAck f w i = Some ?f"
    using Some rm(1) by (simp add: onMarkerAck_def Let_def)
  ultimately show ?thesis by blast
qed

text \<open>The coordinator provides what \<open>OnAck\<close> relies on, whatever is acquired and not registered.\<close>

interpretation coord: ack_window "coord_host k" "flow_ok k extra" "of_kind k" for k extra
  by unfold_locales
    (simp_all add: coord_host_def source_ParsePosition_kind onMarkerAck_ok host_Release_ok)

lemma release_owners_ok:
  "flow_ok k extra f \<Longrightarrow> of_kind k q \<Longrightarrow> \<exists>f'. release_owners f ws t q = Some f' \<and> flow_ok k extra f'"
proof (induction ws arbitrary: f)
  case (Cons w ws)
  from host_Release_ok [OF Cons.prems, of w t] obtain f1 b
    where "host_Release f w t q = Some (f1, b)" "flow_ok k extra f1" by blast
  with Cons.IH [OF _ Cons.prems(2)] show ?case by simp
qed simp

section \<open>Deliveries\<close>

lemma window_bytes_put:
  "window_bytes (gm_put w idx x) v = (if v = w then sum_list (map fb_Bytes (px_head idx)) else window_bytes x v)"
  by (simp add: window_bytes_def ix_Of_def)

lemma px_kind_Add:
  "px_kind k idx \<Longrightarrow> \<forall>q. high = Some q \<longrightarrow> of_kind k q \<Longrightarrow> px_kind k (px_Add idx (flight_batch f d high))"
  by (auto simp: px_kind_def px_Add_def flight_batch_def)

lemma remove_id_append:
  "\<forall>h\<in>set hs. fb_ID h \<noteq> i \<Longrightarrow> fb_ID b = i \<Longrightarrow> remove_id i (hs @ [b]) = Some hs"
  by (induction hs) auto

lemma Remove_Add_head:
  assumes "\<not> px_Holds idx (dl_ID d)"
  shows "px_head (fst (px_Remove (px_Add idx (flight_batch f d high)) (dl_ID d))) = px_head idx"
    "px_acked (fst (px_Remove (px_Add idx (flight_batch f d high)) (dl_ID d))) = px_acked idx"
  using assms remove_id_append [of "px_head idx" "dl_ID d" "flight_batch f d high"]
  by (auto simp: px_Remove_def px_Add_def px_Holds_def flight_batch_def)

lemma releaseUndelivered_index [simp]: "fl_index (releaseUndelivered f w n) = fl_index f"
  by (simp add: releaseUndelivered_def Let_def)

lemma releaseUndelivered_charge:
  "n \<le> Budget_InFlight (fl_budget f) w \<Longrightarrow>
     Budget_InFlight (fl_budget (releaseUndelivered f w n)) v
       = (if v = w then Budget_InFlight (fl_budget f) w - n else Budget_InFlight (fl_budget f) v)"
  by (auto simp: releaseUndelivered_def Let_def Budget_InFlight_Release)

lemma flow_ok_put:
  assumes ok: "flow_ok k extra f" and new: "px_kind k idx'" "\<forall>h\<in>set (px_head idx'). 0 \<le> fb_Bytes h"
    and books: "\<forall>v. 0 \<le> extra' v"
      "\<forall>v. Budget_InFlight (fl_budget f') v = window_bytes (gm_put w idx' (fl_index f)) v + extra' v"
    and f': "fl_index f' = gm_put w idx' (fl_index f)"
  shows "flow_ok k extra' f'"
proof -
  have wf: "gm_wf (fl_index f)" using ok by (simp add: flow_ok_def)
  have "px_kind k j \<and> (\<forall>h\<in>set (px_head j). 0 \<le> fb_Bytes h)"
    if "(v, j) \<in> set (gm_put w idx' (fl_index f))" for v j
  proof (cases "v = w")
    case True
    with that new show ?thesis by (simp add: gm_wf_lookup [OF gm_wf_put [OF wf]])
  next
    case False
    with that have "ix_Of (fl_index f) v = Some j" by (simp add: gm_wf_lookup [OF gm_wf_put [OF wf]] ix_Of_def)
    from flow_ok_index [OF ok this] show ?thesis by blast
  qed
  with wf books f' show ?thesis by (auto simp: flow_ok_def)
qed

lemma deliverBatch_books:
  assumes ok: "flow_ok k extra f" and idx: "ix_Of (fl_index f) w = Some idx"
    and new: "\<not> px_Holds idx (dl_ID d)" and n: "0 \<le> dl_Bytes d" "dl_Bytes d \<le> extra w"
    and rows: "\<not> dl_SnapshotRows d"
  shows "flow_ok k (extra(w := extra w - dl_Bytes d)) (fst (deliverBatch k f w d sent_ok))"
proof -
  let ?extra = "extra(w := extra w - dl_Bytes d)"
  have charge: "Budget_InFlight (fl_budget f) v = window_bytes (fl_index f) v + extra v" "0 \<le> extra v" for v
    using ok by (simp_all add: flow_ok_def)
  note i = flow_ok_index [OF ok idx]
  have win0: "0 \<le> window_bytes (fl_index f) w"
    using sum_bytes_nonneg [OF i(2)] by (simp add: window_bytes_def idx)
  then have le: "dl_Bytes d \<le> Budget_InFlight (fl_budget f) w" using charge [of w] n by simp
  consider (bad) "dl_Pos d \<noteq> []" "source_ParsePosition k (dl_Pos d) = None"
    | (good) high where "(if dl_Pos d = [] then Some None else map_option Some (source_ParsePosition k (dl_Pos d))) = Some high"
    by (cases "dl_Pos d = []"; cases "source_ParsePosition k (dl_Pos d)") auto
  then show ?thesis
  proof cases
    case bad
    then have "fst (deliverBatch k f w d sent_ok) = releaseUndelivered f w (dl_Bytes d)"
      by (simp add: deliverBatch_def rows Let_def)
    with ok charge n le show ?thesis
      by (simp add: flow_ok_def releaseUndelivered_charge)
  next
    case good
    let ?b = "flight_batch f d high" and ?add = "px_Add idx (flight_batch f d high)"
    have high: "\<forall>q. high = Some q \<longrightarrow> of_kind k q"
      using good source_ParsePosition_kind by (auto split: if_splits)
    have add: "px_kind k ?add" "px_head ?add = px_head idx @ [?b]" "fb_Bytes ?b = dl_Bytes d"
      using i(1) high by (simp_all add: px_kind_Add) (simp_all add: px_Add_def flight_batch_def)
    have reg: "register_batch f w d high = f\<lparr>fl_index := gm_put w ?add (fl_index f)\<rparr>"
      by (simp add: register_batch_def rows idx)
    show ?thesis
    proof (cases sent_ok)
      case True
      show ?thesis
      proof (rule flow_ok_put [OF ok add(1)])
        show "\<forall>h\<in>set (px_head ?add). 0 \<le> fb_Bytes h" using i(2) n add by auto
        show "\<forall>v. 0 \<le> ?extra v" using charge n by simp
        show "fl_index (fst (deliverBatch k f w d sent_ok)) = gm_put w ?add (fl_index f)"
          using True good by (simp add: deliverBatch_def rows reg Let_def)
        have "fl_budget (fst (deliverBatch k f w d sent_ok)) = fl_budget f"
          using True good by (simp add: deliverBatch_def rows reg Let_def)
        then show "\<forall>v. Budget_InFlight (fl_budget (fst (deliverBatch k f w d sent_ok))) v
            = window_bytes (gm_put w ?add (fl_index f)) v + ?extra v"
          using charge add by (simp add: window_bytes_put) (simp add: window_bytes_def idx)
      qed
    next
      case False
      let ?rem = "fst (px_Remove ?add (dl_ID d))"
      note rem = Remove_Add_head [OF new, of f high]
      have un: "unregister_batch (register_batch f w d high) w d
          = f\<lparr>fl_index := gm_put w ?rem (fl_index f)\<rparr>"
        by (simp add: unregister_batch_def reg ix_Of_def)
      have out: "fst (deliverBatch k f w d sent_ok)
          = releaseUndelivered (f\<lparr>fl_index := gm_put w ?rem (fl_index f)\<rparr>) w (dl_Bytes d)"
        using False good by (simp add: deliverBatch_def rows un Let_def)
      have kind: "px_kind k ?rem" by (rule px_kind_drop [OF i(1)]) (simp_all add: rem)
      show ?thesis
      proof (rule flow_ok_put [OF ok kind])
        show "\<forall>h\<in>set (px_head ?rem). 0 \<le> fb_Bytes h" using i(2) rem by simp
        show "\<forall>v. 0 \<le> ?extra v" using charge n by simp
        show "fl_index (fst (deliverBatch k f w d sent_ok)) = gm_put w ?rem (fl_index f)"
          by (simp add: out)
        show "\<forall>v. Budget_InFlight (fl_budget (fst (deliverBatch k f w d sent_ok))) v
            = window_bytes (gm_put w ?rem (fl_index f)) v + ?extra v"
          using charge le rem(1)
          by (simp add: out releaseUndelivered_charge window_bytes_put) (simp add: window_bytes_def idx)
      qed
    qed
  qed
qed

lemma charge_batch_books:
  assumes "flow_ok k extra f" "0 \<le> n"
  shows "flow_ok k (extra(w := extra w + n)) (f\<lparr>fl_budget := charge_batch (fl_budget f) w n\<rparr>)"
  using assms by (simp add: flow_ok_def Budget_InFlight_def charge_batch_def)

section \<open>Properties\<close>

text \<open>
  C15: the books balance through every path a batch can take. Starting from a coordinator whose
  budget charges each worker its window plus what is acquired and not registered, acquiring a
  batch's bytes and delivering it leaves the charge with the batch in the window, or gone when
  the position does not parse or the send is cancelled; and handling an ack never panics and
  releases from the budget exactly what leaves the window.
\<close>

theorem flow_books_balance:
  assumes "flow_ok k extra f" "ix_Of (fl_index f) w = Some idx" "\<not> px_Holds idx (dl_ID d)"
    "0 \<le> dl_Bytes d" "\<not> dl_SnapshotRows d"
  shows "flow_ok k extra (fst (deliverBatch k (f\<lparr>fl_budget := charge_batch (fl_budget f) w (dl_Bytes d)\<rparr>) w d sent_ok)) \<and>
         (\<exists>p' f' out. OnAck (coord_host k) p f v a = Some (p', f', out) \<and> flow_ok k extra f')"
proof
  let ?f = "f\<lparr>fl_budget := charge_batch (fl_budget f) w (dl_Bytes d)\<rparr>"
  let ?x = "extra(w := extra w + dl_Bytes d)"
  have ok: "flow_ok k ?x ?f" using assms(1,4) by (rule charge_batch_books)
  have "0 \<le> extra w" using assms(1) by (simp add: flow_ok_def)
  then have "flow_ok k (?x(w := ?x w - dl_Bytes d)) (fst (deliverBatch k ?f w d sent_ok))"
    using assms by (intro deliverBatch_books [OF ok, of w idx]) simp_all
  then show "flow_ok k extra (fst (deliverBatch k ?f w d sent_ok))" by simp
  show "\<exists>p' f' out. OnAck (coord_host k) p f v a = Some (p', f', out) \<and> flow_ok k extra f'"
    using assms(1) by (rule coord.onack_total)
qed

definition sample_flow :: "unit flow" where
  "sample_flow =
     \<lparr>fl_budget = NewBudget 100 10, fl_index = [(''w1'', NewPositionIndex ''run'')], fl_sentList = [],
      fl_epoch = [], fl_queue = [], fl_sent = [],
      fl_markers = \<lparr>ms_queued = [], ms_lost = [], ms_cursor = []\<rparr>, fl_stages = False, fl_owners = []\<rparr>"

definition sample_delivery :: delivery where
  "sample_delivery =
     \<lparr>dl_ID = 1, dl_Table = ''t'', dl_Closes = False, dl_Partial = False, dl_Bytes = 7,
      dl_SnapshotRows = False, dl_Pos = ''0/5''\<rparr>"

theorem flow_books_balance_witness:
  "flow_ok KLSN (\<lambda>_. 0) (fst (deliverBatch KLSN
     (sample_flow\<lparr>fl_budget := charge_batch (fl_budget sample_flow) ''w1'' 7\<rparr>) ''w1'' sample_delivery True))"
proof -
  have "flow_ok KLSN (\<lambda>_. 0) sample_flow"
    by (auto simp: flow_ok_def sample_flow_def px_kind_def NewPositionIndex_def Budget_InFlight_def NewBudget_def
        window_bytes_def ix_Of_def)
  moreover have "ix_Of (fl_index sample_flow) ''w1'' = Some (NewPositionIndex ''run'')"
    by (simp add: sample_flow_def ix_Of_def)
  moreover have "\<not> px_Holds (NewPositionIndex ''run'') (dl_ID sample_delivery)" "0 \<le> dl_Bytes sample_delivery"
      "\<not> dl_SnapshotRows sample_delivery" "dl_Bytes sample_delivery = 7"
    by (simp_all add: px_Holds_def NewPositionIndex_def sample_delivery_def)
  ultimately show ?thesis
    using flow_books_balance [of KLSN "\<lambda>_. 0" sample_flow "''w1''" "NewPositionIndex ''run''" sample_delivery True]
    by simp
qed

text \<open>
  Only a commit moves a worker's confirmed position. A stale, unparsable or windowless ack
  changes nothing at all; an ack on a staged table releases the window and records no position;
  on any other table it records exactly the acknowledged position.
\<close>

theorem OnAck_records_only_commits:
  assumes "flow_ok k extra f" "OnAck (coord_host k) p f w a = Some (p', f', out)"
  shows "(out \<in> {AckStale, AckStaleMarker, AckUnparsable, AckNoWindow} \<longrightarrow> p' = p \<and> f' = f) \<and>
         (out = AckMarker \<longrightarrow> p' = p) \<and>
         (out = AckCommitted \<longrightarrow> (\<exists>q. source_ParsePosition k (ack_Position a) = Some q \<and>
            host_Release f w (ack_Table a) q = Some (f', True) \<and>
            (isStagedTable f (ack_Table a) \<longrightarrow> \<not> supersededEpoch f w (ack_Epoch a) \<and> p' = p) \<and>
            (\<not> isStagedTable f (ack_Table a) \<longrightarrow> Of_worker p' w = Some q)))"
proof -
  note E = coord.onack_effect [OF assms, unfolded coord_host_sel]
  have "Of_worker p' w = Some q" if "p' = Record p w (Some q)" for q
    by (simp add: that Of_worker_def Record_def set_worker_def)
  note rec = this
  show ?thesis
  proof (intro conjI impI)
    assume "out \<in> {AckStale, AckStaleMarker, AckUnparsable, AckNoWindow}"
    with conjunct1 [OF E] show "p' = p" "f' = f" by blast+
  next
    assume "out = AckMarker"
    with E show "p' = p" by simp
  next
    assume "out = AckCommitted"
    with E obtain q where q: "source_ParsePosition k (ack_Position a) = Some q"
      "host_Release f w (ack_Table a) q = Some (f', True)"
      "isStagedTable f (ack_Table a) \<longrightarrow> \<not> supersededEpoch f w (ack_Epoch a) \<and> p' = p"
      "\<not> isStagedTable f (ack_Table a) \<longrightarrow> p' = Record p w (Some q)" by auto
    then have "\<not> isStagedTable f (ack_Table a) \<longrightarrow> Of_worker p' w = Some q" using rec by simp
    with q(1,2,3) show "\<exists>q. source_ParsePosition k (ack_Position a) = Some q \<and>
        host_Release f w (ack_Table a) q = Some (f', True) \<and>
        (isStagedTable f (ack_Table a) \<longrightarrow> \<not> supersededEpoch f w (ack_Epoch a) \<and> p' = p) \<and>
        (\<not> isStagedTable f (ack_Table a) \<longrightarrow> Of_worker p' w = Some q)"
      by (intro exI [of _ q] conjI)
  qed
qed

definition sample_ack :: ack where
  "sample_ack = \<lparr>ack_Table = ''t'', ack_Position = LSN_String 5, ack_MarkerID = 0, ack_Epoch = 0\<rparr>"

theorem OnAck_records_only_commits_witness:
  "\<exists>p' f'. OnAck (coord_host KLSN) Positions_zero sample_flow ''w1'' sample_ack = Some (p', f', AckCommitted) \<and>
    Of_worker p' ''w1'' = Some (PLSN 5)"
proof -
  have ok: "flow_ok KLSN (\<lambda>_. 0) sample_flow"
    by (auto simp: flow_ok_def sample_flow_def px_kind_def NewPositionIndex_def Budget_InFlight_def NewBudget_def
        window_bytes_def ix_Of_def)
  have pos: "source_ParsePosition KLSN (ack_Position sample_ack) = Some (PLSN 5)"
    by (simp add: source_ParsePosition_def sample_ack_def ParseLSN_String)
  have st: "\<not> isStagedTable sample_flow (ack_Table sample_ack)"
    by (simp add: isStagedTable_def sample_flow_def)
  have "\<exists>f'. host_Release sample_flow ''w1'' (ack_Table sample_ack) (PLSN 5) = Some (f', True)"
    by (simp add: host_Release_def sample_flow_def ix_Of_def px_Truncate_def ack_table_def NewPositionIndex_def
        popCoveredLocked_def)
  then obtain f' where rel: "host_Release sample_flow ''w1'' (ack_Table sample_ack) (PLSN 5) = Some (f', True)" ..
  have "ack_MarkerID sample_ack = 0" by (simp add: sample_ack_def)
  with pos st rel have out: "OnAck (coord_host KLSN) Positions_zero sample_flow ''w1'' sample_ack
      = Some (Record Positions_zero ''w1'' (Some (PLSN 5)), f', AckCommitted)"
    by (simp add: OnAck_def coord_host_sel)
  from OnAck_records_only_commits [OF ok out] pos st
  have "Of_worker (Record Positions_zero ''w1'' (Some (PLSN 5))) ''w1'' = Some (PLSN 5)" by simp
  with out show ?thesis by blast
qed

end
