(* ===== verification/Staged_Cycles.thy ===== *)
theory Staged_Cycles
  imports Position_Fold
begin

text \<open>
  \<open>internal/staged/cycles.go\<close>, \<open>commit.go\<close> and \<open>deliver.go\<close>: the commit cycles of partitioned tables. A
  cycle is opened for the owners a batch was sent to, collects their deliveries and commits when all
  have arrived and every earlier cycle of its table has. A nil tracker is \<open>None\<close>; the mutex makes each
  operation atomic. The sink, the generations and the fan-out passes are a host record; fault
  injection and logging are not modelled.

  The tracker refines one queue of cycles per table: opening appends, delivering fills in and pops the
  complete prefix. The lemmas show that cycles commit in the order they were sent, each with one
  delivery of every owner, and that a failed commit ends its table's commits.
\<close>

section \<open>Cycles\<close>

record table_ref =
  tr_Target :: string
  tr_Owner :: string

record cycle =
  cy_Ref :: table_ref
  cy_Seq :: u64
  cy_expected :: nat
  cy_Owners :: "(string, bool) gomap"
  cy_delivered :: "(string, bool) gomap"
  cy_Descriptors :: "string list"
  cy_Positions :: "string list"
  cy_BatchPos :: string
  cy_Window :: bool
  cy_Lost :: bool
  cy_State :: string
  cy_Pending :: "u32 list option"

type_synonym cycle_key = "string \<times> u64"

record cycles =
  cs_open :: "(cycle_key, cycle) gomap"
  cs_done :: "(cycle_key, cycle) gomap"
  cs_order :: "(string, u64 list) gomap"
  cs_poisoned :: "(string, bool) gomap"

definition New_cycles :: cycles where
  "New_cycles = \<lparr>cs_open = [], cs_done = [], cs_order = [], cs_poisoned = []\<rparr>"

definition Poison :: "cycles option \<Rightarrow> string \<Rightarrow> cycles option" where
  "Poison s t = map_option (\<lambda>c. c\<lparr>cs_poisoned := gm_put t True (cs_poisoned c)\<rparr>) s"

definition IsPoisoned :: "cycles option \<Rightarrow> string \<Rightarrow> bool" where
  "IsPoisoned s t = (case s of None \<Rightarrow> False | Some c \<Rightarrow> gm_at False (cs_poisoned c) t)"

definition new_cycle :: "table_ref \<Rightarrow> u64 \<Rightarrow> string list \<Rightarrow> string \<Rightarrow> cycle" where
  "new_cycle ref sq owners batchPos =
     \<lparr>cy_Ref = ref, cy_Seq = sq, cy_expected = length owners,
      cy_Owners = foldl (\<lambda>m p. gm_put p True m) [] owners, cy_delivered = [],
      cy_Descriptors = [], cy_Positions = [], cy_BatchPos = batchPos,
      cy_Window = False, cy_Lost = False, cy_State = [], cy_Pending = None\<rparr>"

definition expect_locked :: "cycles \<Rightarrow> table_ref \<Rightarrow> u64 \<Rightarrow> string list \<Rightarrow> string \<Rightarrow> cycles" where
  "expect_locked c ref sq owners batchPos =
     (let k = (tr_Target ref, sq)
      in if gm_has (cs_open c) k then c
         else c\<lparr>cs_open := gm_put k (new_cycle ref sq owners batchPos) (cs_open c),
                cs_order := gm_put (tr_Target ref) (gm_at [] (cs_order c) (tr_Target ref) @ [sq]) (cs_order c)\<rparr>)"

definition ExpectAt :: "cycles option \<Rightarrow> table_ref \<Rightarrow> u64 \<Rightarrow> string list \<Rightarrow> string \<Rightarrow> cycles option" where
  "ExpectAt s ref sq owners batchPos =
     (case s of
        None \<Rightarrow> None
      | Some c \<Rightarrow> Some (if owners = [] then c else expect_locked c ref sq owners batchPos))"

definition Expect :: "cycles option \<Rightarrow> table_ref \<Rightarrow> u64 \<Rightarrow> string list \<Rightarrow> cycles option" where
  "Expect s ref sq owners = ExpectAt s ref sq owners []"

text \<open>\<open>ExpectWindow\<close> takes the lock twice: once in \<open>Expect\<close>, once to mark the cycle.\<close>

definition mark_window :: "cycles option \<Rightarrow> table_ref \<Rightarrow> u64 \<Rightarrow> cycles option" where
  "mark_window s ref sq =
     map_option (\<lambda>c.
       case map_of (cs_open c) (tr_Target ref, sq) of
         None \<Rightarrow> c
       | Some cy \<Rightarrow> c\<lparr>cs_open := gm_put (tr_Target ref, sq) (cy\<lparr>cy_Window := True\<rparr>) (cs_open c)\<rparr>) s"

definition ExpectWindow :: "cycles option \<Rightarrow> table_ref \<Rightarrow> u64 \<Rightarrow> string list \<Rightarrow> cycles option" where
  "ExpectWindow s ref sq owners = mark_window (Expect s ref sq owners) ref sq"

definition MarkLost :: "cycles option \<Rightarrow> table_ref \<Rightarrow> u64 \<Rightarrow> cycles option" where
  "MarkLost s ref sq =
     map_option (\<lambda>c.
       case map_of (cs_open c) (tr_Target ref, sq) of
         None \<Rightarrow> c
       | Some cy \<Rightarrow>
           if \<not> gm_at False (cy_Owners cy) (tr_Owner ref) \<or> gm_at False (cy_delivered cy) (tr_Owner ref) then c
           else c\<lparr>cs_open := gm_put (tr_Target ref, sq) (cy\<lparr>cy_Lost := True\<rparr>) (cs_open c)\<rparr>) s"

fun drain_run :: "string \<Rightarrow> u64 list \<Rightarrow> (cycle_key, cycle) gomap \<Rightarrow> cycle list \<times> u64 list \<times> (cycle_key, cycle) gomap" where
  "drain_run t [] dn = ([], [], dn)"
| "drain_run t (q # qs) dn =
     (case map_of dn (t, q) of
        None \<Rightarrow> ([], q # qs, dn)
      | Some cy \<Rightarrow> (case drain_run t qs (gm_del (t, q) dn) of (out, rest, dn') \<Rightarrow> (cy # out, rest, dn')))"

definition drainLocked :: "cycles \<Rightarrow> string \<Rightarrow> cycles \<times> cycle list" where
  "drainLocked c t =
     (case drain_run t (gm_at [] (cs_order c) t) (cs_done c) of
        (out, rest, dn) \<Rightarrow>
          (c\<lparr>cs_done := dn, cs_order := (if rest = [] then gm_del t (cs_order c) else gm_put t rest (cs_order c))\<rparr>, out))"

definition accept :: "cycle \<Rightarrow> string \<Rightarrow> string \<Rightarrow> string \<Rightarrow> string \<Rightarrow> u32 list option \<Rightarrow> cycle" where
  "accept cy owner desc pos state pending =
     (let cy1 = (if owner \<noteq> [] then cy\<lparr>cy_delivered := gm_put owner True (cy_delivered cy)\<rparr> else cy);
          cy2 = cy1\<lparr>cy_Descriptors := cy_Descriptors cy1 @ [desc], cy_Positions := cy_Positions cy1 @ [pos]\<rparr>;
          cy3 = (if state \<noteq> [] then cy2\<lparr>cy_State := state\<rparr> else cy2)
      in if pending \<noteq> None then cy3\<lparr>cy_Pending := pending\<rparr> else cy3)"

definition refuses :: "cycle \<Rightarrow> string \<Rightarrow> bool" where
  "refuses cy owner \<longleftrightarrow>
     owner \<noteq> [] \<and> (\<not> gm_at False (cy_Owners cy) owner \<or> gm_at False (cy_delivered cy) owner)"

definition single_cycle :: "table_ref \<Rightarrow> string \<Rightarrow> string \<Rightarrow> string \<Rightarrow> u32 list option \<Rightarrow> cycle" where
  "single_cycle ref desc pos state pending =
     \<lparr>cy_Ref = ref, cy_Seq = 0, cy_expected = 1, cy_Owners = [], cy_delivered = [],
      cy_Descriptors = [desc], cy_Positions = [pos], cy_BatchPos = [],
      cy_Window = False, cy_Lost = False, cy_State = state, cy_Pending = pending\<rparr>"

definition deliver_locked :: "cycles \<Rightarrow> table_ref \<Rightarrow> u64 \<Rightarrow> string \<Rightarrow> string \<Rightarrow> string \<Rightarrow> u32 list option \<Rightarrow>
                              cycles \<times> cycle list \<times> bool" where
  "deliver_locked c ref sq desc pos state pending =
     (let k = (tr_Target ref, sq)
      in case map_of (cs_open c) k of
           None \<Rightarrow> if sq \<noteq> 0 then (c, [], False) else (c, [single_cycle ref desc pos state pending], True)
         | Some cy \<Rightarrow>
             if refuses cy (tr_Owner ref) then (c, [], True)
             else
               (let cy' = accept cy (tr_Owner ref) desc pos state pending
                in if length (cy_Descriptors cy') < cy_expected cy'
                   then (c\<lparr>cs_open := gm_put k cy' (cs_open c)\<rparr>, [], True)
                   else (case drainLocked (c\<lparr>cs_open := gm_del k (cs_open c), cs_done := gm_put k cy' (cs_done c)\<rparr>)
                                 (tr_Target ref) of
                           (c', out) \<Rightarrow> (c', out, True))))"

definition Deliver :: "cycles option \<Rightarrow> table_ref \<Rightarrow> u64 \<Rightarrow> string \<Rightarrow> string \<Rightarrow> string \<Rightarrow> u32 list option \<Rightarrow>
                       cycles option \<times> cycle list \<times> bool" where
  "Deliver s ref sq desc pos state pending =
     (case s of
        None \<Rightarrow> (None, [], False)
      | Some c \<Rightarrow> (case deliver_locked c ref sq desc pos state pending of (c', out, known) \<Rightarrow> (Some c', out, known)))"

definition OpenFor :: "cycles option \<Rightarrow> table_ref \<Rightarrow> nat" where
  "OpenFor s ref = (case s of None \<Rightarrow> 0 | Some c \<Rightarrow> length (gm_at [] (cs_order c) (tr_Target ref)))"

definition OpenForBreakdown :: "cycles option \<Rightarrow> table_ref \<Rightarrow> nat \<times> nat" where
  "OpenForBreakdown s ref =
     (case s of
        None \<Rightarrow> (0, 0)
      | Some c \<Rightarrow> (length (filter (\<lambda>(k, cy). fst k = tr_Target ref) (cs_open c)),
                   length (filter (\<lambda>(k, cy). fst k = tr_Target ref) (cs_done c))))"

definition OpenSeqs :: "cycles option \<Rightarrow> table_ref \<Rightarrow> u64 list" where
  "OpenSeqs s ref =
     (case s of
        None \<Rightarrow> []
      | Some c \<Rightarrow> filter (\<lambda>q. gm_has (cs_open c) (tr_Target ref, q) \<or> gm_has (cs_done c) (tr_Target ref, q))
                   (gm_at [] (cs_order c) (tr_Target ref)))"

definition TotalOpen :: "cycles option \<Rightarrow> nat" where
  "TotalOpen s = (case s of None \<Rightarrow> 0 | Some c \<Rightarrow> length (cs_open c) + length (cs_done c))"

section \<open>Committing\<close>

datatype commit_err = CommitPositionErr | CommitSinkErr

definition MinSafePosition :: "(string \<Rightarrow> position option) \<Rightarrow> string list \<Rightarrow> (commit_err, string) res" where
  "MinSafePosition parse positions =
     (case those (map parse (filter (\<lambda>s. s \<noteq> []) positions)) of
        None \<Rightarrow> Err CommitPositionErr
      | Some vals \<Rightarrow>
          (case MinSafe vals of
             Ok None \<Rightarrow> Ok []
           | Ok (Some best) \<Rightarrow> Ok (pos_String best)
           | Err e \<Rightarrow> Err CommitPositionErr
           | Panic \<Rightarrow> Panic))"

definition CommitPosition :: "(string \<Rightarrow> position option) \<Rightarrow> cycle \<Rightarrow> (commit_err, string) res" where
  "CommitPosition parse cy =
     (if cy_Window cy then Ok []
      else if cy_BatchPos cy \<noteq> [] then Ok (cy_BatchPos cy)
      else MinSafePosition parse (cy_Positions cy))"

record staged_delivery =
  sd_Table :: string
  sd_Seq :: u64
  sd_Epoch :: u64
  sd_Descriptor :: string
  sd_Position :: string
  sd_SnapshotState :: string
  sd_SnapshotPending :: "u32 list option"
  sd_WindowLost :: bool

record 'h commit_host =
  ch_Epoch :: "'h \<Rightarrow> string \<Rightarrow> u64 option"
  ch_ParsePosition :: "string \<Rightarrow> position option"
  ch_DropWindow :: "'h \<Rightarrow> string \<Rightarrow> u64 \<Rightarrow> bool \<Rightarrow> 'h \<times> bool"
  ch_CommitStaged :: "'h \<Rightarrow> table_ref \<Rightarrow> string list \<Rightarrow> string \<Rightarrow> 'h \<times> bool"
  ch_Committed :: "'h \<Rightarrow> cycle \<Rightarrow> position \<Rightarrow> 'h option"
  ch_Fail :: "'h \<Rightarrow> commit_err \<Rightarrow> 'h"

text \<open>One commit; \<open>Ok\<close> is a nil error. \<open>ch_Committed\<close> is \<open>None\<close> where it panics.\<close>

definition commitLocked :: "'h commit_host \<Rightarrow> 'h \<Rightarrow> cycle \<Rightarrow> 'h \<times> (commit_err, unit) res" where
  "commitLocked H h cy =
     (case (if cy_Window cy then ch_DropWindow H h (tr_Target (cy_Ref cy)) (cy_Seq cy) (cy_Lost cy) else (h, False)) of
        (h1, dropped) \<Rightarrow>
          if dropped then (h1, Ok ())
          else
            (case CommitPosition (ch_ParsePosition H) cy of
               Err e \<Rightarrow> (h1, Err e)
             | Panic \<Rightarrow> (h1, Panic)
             | Ok pos \<Rightarrow>
                 (case ch_CommitStaged H h1 (cy_Ref cy) (cy_Descriptors cy) pos of
                    (h2, ok) \<Rightarrow>
                      if \<not> ok then (h2, Err CommitSinkErr)
                      else if pos = [] then (h2, Ok ())
                      else (case ch_ParsePosition H pos of
                              None \<Rightarrow> (h2, Ok ())
                            | Some p \<Rightarrow> (case ch_Committed H h2 cy p of
                                           None \<Rightarrow> (h2, Panic)
                                         | Some h3 \<Rightarrow> (h3, Ok ()))))))"

fun commit_run :: "'h commit_host \<Rightarrow> 'h \<Rightarrow> cycles option \<Rightarrow> string \<Rightarrow> cycle list \<Rightarrow> 'h \<times> cycles option" where
  "commit_run H h s t [] = (h, s)"
| "commit_run H h s t (cy # cys) =
     (case commitLocked H h cy of
        (h1, Ok u) \<Rightarrow> commit_run H h1 s t cys
      | (h1, Err e) \<Rightarrow> (ch_Fail H h1 e, Poison s t)
      | (h1, Panic) \<Rightarrow> (h1, s))"

definition OnDelivery :: "'h commit_host \<Rightarrow> 'h \<Rightarrow> cycles option \<Rightarrow> string \<Rightarrow> staged_delivery \<Rightarrow> 'h \<times> cycles option" where
  "OnDelivery H h s worker d =
     (case ch_Epoch H h worker of
        None \<Rightarrow> (h, s)
      | Some epoch \<Rightarrow>
          if sd_Epoch d \<noteq> epoch then (h, s)
          else if IsPoisoned s (sd_Table d) then (h, s)
          else
            (let ref = \<lparr>tr_Target = sd_Table d, tr_Owner = worker\<rparr>;
                 s1 = (if sd_WindowLost d then MarkLost s ref (sd_Seq d) else s)
             in case Deliver s1 ref (sd_Seq d) (sd_Descriptor d) (sd_Position d) (sd_SnapshotState d) (sd_SnapshotPending d) of
                  (s2, committable, known) \<Rightarrow> commit_run H h s2 (sd_Table d) committable))"

definition Commit :: "'h commit_host \<Rightarrow> 'h \<Rightarrow> cycles option \<Rightarrow> cycle \<Rightarrow> 'h \<times> (commit_err, unit) res" where
  "Commit H h s cy =
     (if IsPoisoned s (tr_Target (cy_Ref cy)) then (h, Ok ()) else commitLocked H h cy)"

section \<open>The invariant\<close>

definition ord_of :: "cycles \<Rightarrow> string \<Rightarrow> u64 list" where
  "ord_of c t = gm_at [] (cs_order c) t"

definition head_open :: "cycles \<Rightarrow> string \<Rightarrow> bool" where
  "head_open c t \<longleftrightarrow> (case ord_of c t of [] \<Rightarrow> True | q # qs \<Rightarrow> gm_has (cs_open c) (t, q))"

text \<open>\<open>queue_wf\<close>: a table's send order lists its open and complete cycles, each once. \<open>cyc_wf\<close>: also, the
  complete ones at its head have been handed out.\<close>

definition queue_wf :: "cycles \<Rightarrow> bool" where
  "queue_wf c \<longleftrightarrow>
     (\<forall>t. distinct (ord_of c t)) \<and>
     (\<forall>t q. q \<in> set (ord_of c t) \<longleftrightarrow> gm_has (cs_open c) (t, q) \<or> gm_has (cs_done c) (t, q)) \<and>
     (\<forall>k. \<not> (gm_has (cs_open c) k \<and> gm_has (cs_done c) k))"

definition cyc_wf :: "cycles \<Rightarrow> bool" where
  "cyc_wf c \<longleftrightarrow> queue_wf c \<and> (\<forall>t. head_open c t)"

lemma cyc_wf_New: "cyc_wf New_cycles"
  by (simp add: cyc_wf_def queue_wf_def head_open_def ord_of_def New_cycles_def)

lemma takeWhile_disjoint: "distinct xs \<Longrightarrow> set (takeWhile P xs) \<inter> set (dropWhile P xs) = {}"
  by (induction xs) (auto dest: set_takeWhileD set_dropWhileD)

lemma drain_run_spec:
  "distinct qs \<Longrightarrow> drain_run t qs dn = (out, rest, dn') \<Longrightarrow>
     out = map (\<lambda>q. the (map_of dn (t, q))) (takeWhile (\<lambda>q. gm_has dn (t, q)) qs) \<and>
     rest = dropWhile (\<lambda>q. gm_has dn (t, q)) qs \<and>
     map_of dn' = (\<lambda>k. if fst k = t \<and> snd k \<in> set (takeWhile (\<lambda>q. gm_has dn (t, q)) qs) then None else map_of dn k)"
proof (induction qs arbitrary: dn out rest dn')
  case (Cons q qs)
  show ?case
  proof (cases "map_of dn (t, q)")
    case None
    with Cons.prems show ?thesis by (auto simp: gm_has_def)
  next
    case (Some cy)
    obtain out1 rest1 dn1 where run: "drain_run t qs (gm_del (t, q) dn) = (out1, rest1, dn1)" by (metis prod_cases3)
    have others: "takeWhile (\<lambda>p. gm_has (gm_del (t, q) dn) (t, p)) qs = takeWhile (\<lambda>p. gm_has dn (t, p)) qs"
      "dropWhile (\<lambda>p. gm_has (gm_del (t, q) dn) (t, p)) qs = dropWhile (\<lambda>p. gm_has dn (t, p)) qs"
      using Cons.prems(1) by (auto intro!: takeWhile_cong dropWhile_cong)
    have map_eq: "map (\<lambda>p. the (map_of (gm_del (t, q) dn) (t, p))) (takeWhile (\<lambda>p. gm_has dn (t, p)) qs)
        = map (\<lambda>p. the (map_of dn (t, p))) (takeWhile (\<lambda>p. gm_has dn (t, p)) qs)"
      using Cons.prems(1) by (auto dest: set_takeWhileD)
    have dist: "distinct qs" using Cons.prems(1) by simp
    note IH = Cons.IH [OF dist run, unfolded others map_eq]
    have "out = cy # out1" "rest = rest1" "dn' = dn1" using Cons.prems(2) Some run by simp_all
    with IH Some show ?thesis by (auto simp: gm_has_def fun_eq_iff)
  qed
qed simp

lemma ord_of_drain:
  "drain_run t (ord_of c t) (cs_done c) = (out, rest, dn) \<Longrightarrow>
     ord_of (fst (drainLocked c t)) t' = (if t' = t then rest else ord_of c t')"
  by (auto simp: drainLocked_def ord_of_def)

lemma drainLocked_spec:
  assumes wf: "queue_wf c" and heads: "\<forall>t'. t' \<noteq> t \<longrightarrow> head_open c t'" and run: "drainLocked c t = (c', out)"
  shows "cyc_wf c'" "cs_open c' = cs_open c" "cs_poisoned c' = cs_poisoned c"
    "out = map (\<lambda>q. the (map_of (cs_done c) (t, q))) (takeWhile (\<lambda>q. gm_has (cs_done c) (t, q)) (ord_of c t))"
    "ord_of c' t = dropWhile (\<lambda>q. gm_has (cs_done c) (t, q)) (ord_of c t)"
    "t' \<noteq> t \<Longrightarrow> ord_of c' t' = ord_of c t'"
    "map_of (cs_done c') k = (if fst k = t \<and> snd k \<in> set (takeWhile (\<lambda>q. gm_has (cs_done c) (t, q)) (ord_of c t))
        then None else map_of (cs_done c) k)"
proof -
  let ?P = "\<lambda>q. gm_has (cs_done c) (t, q)"
  obtain out1 rest dn where d: "drain_run t (ord_of c t) (cs_done c) = (out1, rest, dn)" by (metis prod_cases3)
  have dist: "distinct (ord_of c t)" using wf by (simp add: queue_wf_def)
  note spec = drain_run_spec [OF dist d]
  have c': "c' = fst (drainLocked c t)" "out = out1"
    using run d by (auto simp: drainLocked_def ord_of_def)
  have op: "cs_open c' = cs_open c" "cs_poisoned c' = cs_poisoned c" "cs_done c' = dn"
    using run d by (auto simp: drainLocked_def ord_of_def)
  show "cs_open c' = cs_open c" "cs_poisoned c' = cs_poisoned c" by (rule op)+
  show out: "out = map (\<lambda>q. the (map_of (cs_done c) (t, q))) (takeWhile ?P (ord_of c t))" using spec c'(2) by simp
  have ords: "ord_of c' t' = (if t' = t then dropWhile ?P (ord_of c t) else ord_of c t')" for t'
    using ord_of_drain [OF d] spec c'(1) by simp
  then show "ord_of c' t = dropWhile ?P (ord_of c t)" "t' \<noteq> t \<Longrightarrow> ord_of c' t' = ord_of c t'" by simp_all
  have dn: "map_of (cs_done c') = (\<lambda>k. if fst k = t \<and> snd k \<in> set (takeWhile ?P (ord_of c t)) then None
      else map_of (cs_done c) k)"
    using spec op by simp
  then show "map_of (cs_done c') k = (if fst k = t \<and> snd k \<in> set (takeWhile ?P (ord_of c t)) then None
      else map_of (cs_done c) k)" by simp
  have split: "set (takeWhile ?P (ord_of c t)) \<inter> set (dropWhile ?P (ord_of c t)) = {}"
    "set (ord_of c t) = set (takeWhile ?P (ord_of c t)) \<union> set (dropWhile ?P (ord_of c t))"
    by (rule takeWhile_disjoint [OF dist], metis set_append takeWhile_dropWhile_id)
  have "queue_wf c'"
    unfolding queue_wf_def
  proof (intro conjI allI)
    show "distinct (ord_of c' t')" for t' using wf ords [of t'] by (simp add: queue_wf_def)
    show "q \<in> set (ord_of c' t') \<longleftrightarrow> gm_has (cs_open c') (t', q) \<or> gm_has (cs_done c') (t', q)" for t' q
    proof (cases "t' = t")
      case False
      then show ?thesis using wf ords [of t'] by (simp add: queue_wf_def gm_has_def op(1) dn)
    next
      case True
      have "gm_has (cs_open c) (t, q) \<Longrightarrow> q \<notin> set (takeWhile ?P (ord_of c t))"
        using wf by (auto simp: queue_wf_def dest: set_takeWhileD)
      moreover have "q \<in> set (ord_of c t) \<longleftrightarrow> gm_has (cs_open c) (t, q) \<or> gm_has (cs_done c) (t, q)"
        using wf by (simp add: queue_wf_def)
      ultimately show ?thesis
        using True split ords [of t] by (auto simp: gm_has_def op(1) dn)
    qed
    show "\<not> (gm_has (cs_open c') k \<and> gm_has (cs_done c') k)" for k
      using wf by (cases k) (auto simp: queue_wf_def gm_has_def op(1) dn)
  qed
  moreover have "head_open c' t'" for t'
  proof (cases "t' = t")
    case False
    then have "head_open c t'" using heads by blast
    then show ?thesis using False ords [of t'] op(1) by (auto simp: head_open_def split: list.splits)
  next
    case True
    show ?thesis
    proof (cases "dropWhile ?P (ord_of c t)")
      case Nil
      then have "ord_of c' t' = []" using True ords [of t] by (simp only: if_True refl)
      then show ?thesis by (simp add: head_open_def)
    next
      case (Cons q qs)
      then have "\<not> ?P q" "q \<in> set (ord_of c t)"
        by (auto simp: dropWhile_eq_Cons_conv) (metis Cons list.set_intros(1) set_dropWhileD)
      then show ?thesis using True Cons ords [of t] wf by (simp add: head_open_def op(1) queue_wf_def)
    qed
  qed
  ultimately show "cyc_wf c'" by (simp add: cyc_wf_def)
qed

lemma gm_has_keep: "gm_has m k \<Longrightarrow> gm_has (gm_put k v m) k' \<longleftrightarrow> gm_has m k'"
  by auto

lemma cyc_wf_cong:
  assumes "ord_of c1 = ord_of c" "gm_has (cs_open c1) = gm_has (cs_open c)" "cs_done c1 = cs_done c"
  shows "cyc_wf c1 = cyc_wf c"
  unfolding cyc_wf_def queue_wf_def head_open_def assms ..

lemma cyc_wf_refill:
  assumes "cyc_wf c" "gm_has (cs_open c) k"
  shows "cyc_wf (c\<lparr>cs_open := gm_put k cy (cs_open c)\<rparr>)"
proof -
  have "gm_has (gm_put k cy (cs_open c)) = gm_has (cs_open c)"
    using assms(2) by (intro ext) (rule gm_has_keep)
  then show ?thesis
    using assms(1) by (subst cyc_wf_cong [of _ c]) (simp_all add: fun_eq_iff ord_of_def del: gm_has_put)
qed

lemma cyc_wf_expect:
  assumes wf: "cyc_wf c" and fresh: "sq \<notin> set (ord_of c (tr_Target ref))"
  shows "cyc_wf (expect_locked c ref sq owners batchPos)"
    "ord_of (expect_locked c ref sq owners batchPos) t = ord_of c t @ (if t = tr_Target ref then [sq] else [])"
proof -
  have no: "\<not> gm_has (cs_open c) (tr_Target ref, sq)" "\<not> gm_has (cs_done c) (tr_Target ref, sq)"
    using wf fresh by (auto simp: cyc_wf_def queue_wf_def)
  have ords: "ord_of (expect_locked c ref sq owners batchPos) t = ord_of c t @ (if t = tr_Target ref then [sq] else [])" for t
    using no by (simp add: expect_locked_def ord_of_def)
  then show "ord_of (expect_locked c ref sq owners batchPos) t = ord_of c t @ (if t = tr_Target ref then [sq] else [])" .
  have has: "gm_has (cs_open (expect_locked c ref sq owners batchPos)) k \<longleftrightarrow> k = (tr_Target ref, sq) \<or> gm_has (cs_open c) k"
    "cs_done (expect_locked c ref sq owners batchPos) = cs_done c" for k
    using no by (auto simp: expect_locked_def)
  have heads: "head_open c t'" for t' using wf by (simp add: cyc_wf_def)
  have "head_open (expect_locked c ref sq owners batchPos) t'" for t'
    using heads [of t'] by (cases "ord_of c t'") (auto simp: head_open_def ords has)
  moreover have "queue_wf (expect_locked c ref sq owners batchPos)"
    using wf no fresh by (auto simp: queue_wf_def cyc_wf_def ords has)
  ultimately show "cyc_wf (expect_locked c ref sq owners batchPos)" by (simp add: cyc_wf_def)
qed

section \<open>The tracker refines a queue of cycles\<close>

text \<open>An abstract queue: the cycles of a table in send order, each complete or not.\<close>

type_synonym cqueue = "(u64 \<times> cycle \<times> bool) list"

definition q_expect :: "u64 \<Rightarrow> cycle \<Rightarrow> cqueue \<Rightarrow> cqueue" where
  "q_expect sq cy q = q @ [(sq, cy, False)]"

definition q_fill :: "u64 \<Rightarrow> cycle \<Rightarrow> cqueue \<Rightarrow> cqueue" where
  "q_fill sq cy q = map (\<lambda>(s, x, b). if s = sq then (s, cy, length (cy_Descriptors cy) \<ge> cy_expected cy) else (s, x, b)) q"

definition q_pop :: "cqueue \<Rightarrow> cqueue \<times> cycle list" where
  "q_pop q = (dropWhile (\<lambda>(s, x, b). b) q, map (\<lambda>(s, x, b). x) (takeWhile (\<lambda>(s, x, b). b) q))"

definition entry :: "cycles \<Rightarrow> string \<Rightarrow> u64 \<Rightarrow> u64 \<times> cycle \<times> bool" where
  "entry c t q =
     (case map_of (cs_open c) (t, q) of
        Some cy \<Rightarrow> (q, cy, False)
      | None \<Rightarrow> (q, the (map_of (cs_done c) (t, q)), True))"

definition queue_of :: "cycles \<Rightarrow> string \<Rightarrow> cqueue" where
  "queue_of c t = map (entry c t) (ord_of c t)"

lemma queue_of_New: "queue_of New_cycles t = []"
  by (simp add: queue_of_def ord_of_def New_cycles_def)

lemma queue_of_expect:
  assumes "cyc_wf c" "sq \<notin> set (ord_of c (tr_Target ref))"
  shows "queue_of (expect_locked c ref sq owners batchPos) t =
    (if t = tr_Target ref then q_expect sq (new_cycle ref sq owners batchPos) (queue_of c t) else queue_of c t)"
proof -
  have no: "\<not> gm_has (cs_open c) (tr_Target ref, sq)"
    using assms by (auto simp: cyc_wf_def queue_wf_def)
  then have e: "entry (expect_locked c ref sq owners batchPos) t q
      = (if t = tr_Target ref \<and> q = sq then (sq, new_cycle ref sq owners batchPos, False) else entry c t q)" for q
    by (simp add: entry_def expect_locked_def split: option.split)
  show ?thesis
    unfolding queue_of_def cyc_wf_expect(2) [OF assms]
    using assms(2) e by (cases "t = tr_Target ref") (auto simp: q_expect_def)
qed

lemma takeWhile_map_entry:
  "takeWhile (\<lambda>(s, x, b). b) (map (entry c t) qs) = map (entry c t) (takeWhile (\<lambda>q. \<not> gm_has (cs_open c) (t, q)) qs)"
  "dropWhile (\<lambda>(s, x, b). b) (map (entry c t) qs) = map (entry c t) (dropWhile (\<lambda>q. \<not> gm_has (cs_open c) (t, q)) qs)"
proof -
  have "(case entry c t q of (s, x, b) \<Rightarrow> b) \<longleftrightarrow> \<not> gm_has (cs_open c) (t, q)" for q
    by (simp add: entry_def gm_has_def split: option.split)
  then have "(\<lambda>(s, x, b). b) \<circ> entry c t = (\<lambda>q. \<not> gm_has (cs_open c) (t, q))" by (intro ext) simp
  then show "takeWhile (\<lambda>(s, x, b). b) (map (entry c t) qs) = map (entry c t) (takeWhile (\<lambda>q. \<not> gm_has (cs_open c) (t, q)) qs)"
    "dropWhile (\<lambda>(s, x, b). b) (map (entry c t) qs) = map (entry c t) (dropWhile (\<lambda>q. \<not> gm_has (cs_open c) (t, q)) qs)"
    by (simp_all only: takeWhile_map dropWhile_map)
qed

text \<open>Draining a tracker pops the complete prefix of its queue.\<close>

lemma queue_of_drain:
  assumes wf: "queue_wf c" and heads: "\<forall>t'. t' \<noteq> t \<longrightarrow> head_open c t'" and run: "drainLocked c t = (c', out)"
  shows "(queue_of c' t, out) = q_pop (queue_of c t)" "t' \<noteq> t \<Longrightarrow> queue_of c' t' = queue_of c t'"
proof -
  note spec = drainLocked_spec [OF wf heads run]
  have iff: "gm_has (cs_done c) (t, q) \<longleftrightarrow> \<not> gm_has (cs_open c) (t, q)" if "q \<in> set (ord_of c t)" for q
    using wf that by (auto simp: queue_wf_def)
  have tw: "takeWhile (\<lambda>q. gm_has (cs_done c) (t, q)) (ord_of c t) = takeWhile (\<lambda>q. \<not> gm_has (cs_open c) (t, q)) (ord_of c t)"
    and dw: "dropWhile (\<lambda>q. gm_has (cs_done c) (t, q)) (ord_of c t) = dropWhile (\<lambda>q. \<not> gm_has (cs_open c) (t, q)) (ord_of c t)"
    by - (rule takeWhile_cong [OF refl iff], assumption, rule dropWhile_cong [OF refl iff], assumption)
  have "distinct (ord_of c t)" using wf by (simp add: queue_wf_def)
  then have disj: "set (takeWhile (\<lambda>q. gm_has (cs_done c) (t, q)) (ord_of c t)) \<inter> set (ord_of c' t) = {}"
    unfolding spec(5) by (rule takeWhile_disjoint)
  have e: "entry c' t' q = entry c t' q" if "q \<in> set (ord_of c' t')" for t' q
  proof -
    have "map_of (cs_done c') (t', q) = map_of (cs_done c) (t', q)"
      unfolding spec(7) using that disj by auto
    then show ?thesis by (simp only: entry_def spec(2))
  qed
  have "map (entry c' t) (ord_of c' t) = map (entry c t) (ord_of c' t)" using e by simp
  then have q: "queue_of c' t = map (entry c t) (dropWhile (\<lambda>q. \<not> gm_has (cs_open c) (t, q)) (ord_of c t))"
    unfolding queue_of_def spec(5) dw by simp
  have "map (\<lambda>(s, x, b). x) (map (entry c t) (takeWhile (\<lambda>q. \<not> gm_has (cs_open c) (t, q)) (ord_of c t))) = out"
    unfolding spec(4) tw map_map
    by (rule map_cong [OF refl]) (auto simp: entry_def gm_has_def dest!: set_takeWhileD)
  with q show "(queue_of c' t, out) = q_pop (queue_of c t)"
    unfolding q_pop_def queue_of_def takeWhile_map_entry by simp
  show "t' \<noteq> t \<Longrightarrow> queue_of c' t' = queue_of c t'"
    unfolding queue_of_def using e [of _ t'] spec(6) [of t'] by simp
qed

lemma fill_entry:
  "(case entry c t q of (s, x, b) \<Rightarrow> if s = sq then (s, cy, d) else (s, x, b)) = (if q = sq then (sq, cy, d) else entry c t q)"
  by (simp add: entry_def split: option.split)

lemma queue_of_refill:
  assumes "\<And>t' q. entry c1 t' q = (if t' = t \<and> q = sq then (sq, cy, cy_expected cy \<le> length (cy_Descriptors cy)) else entry c t' q)"
    and "\<And>t'. ord_of c1 t' = ord_of c t'"
  shows "queue_of c1 t' = (if t' = t then q_fill sq cy (queue_of c t) else queue_of c t')"
  by (simp add: queue_of_def q_fill_def assms fill_entry)

lemma queue_of_fill:
  assumes "map_of (cs_open c) (t, sq) = Some cy0" "length (cy_Descriptors cy) < cy_expected cy"
  shows "queue_of (c\<lparr>cs_open := gm_put (t, sq) cy (cs_open c)\<rparr>) t' = (if t' = t then q_fill sq cy (queue_of c t) else queue_of c t')"
  by (rule queue_of_refill) (use assms in \<open>auto simp: ord_of_def entry_def split: option.split\<close>)

lemma queue_of_complete:
  assumes wf: "cyc_wf c" and opn: "map_of (cs_open c) (t, sq) = Some cy0" and full: "length (cy_Descriptors cy) \<ge> cy_expected cy"
    and c1: "c1 = c\<lparr>cs_open := gm_del (t, sq) (cs_open c), cs_done := gm_put (t, sq) cy (cs_done c)\<rparr>"
  shows "queue_wf c1" "\<forall>t'. t' \<noteq> t \<longrightarrow> head_open c1 t'"
    "queue_of c1 t' = (if t' = t then q_fill sq cy (queue_of c t) else queue_of c t')"
proof -
  have ords: "ord_of c1 t' = ord_of c t'" for t' by (simp add: c1 ord_of_def)
  have has: "gm_has (cs_open c1) k \<longleftrightarrow> k \<noteq> (t, sq) \<and> gm_has (cs_open c) k"
    "gm_has (cs_done c1) k \<longleftrightarrow> k = (t, sq) \<or> gm_has (cs_done c) k" for k
    by (simp_all add: c1)
  have "gm_has (cs_open c) (t, sq)" using opn by (simp add: gm_has_def)
  then show "queue_wf c1" using wf by (auto simp: queue_wf_def cyc_wf_def ords has)
  show "\<forall>t'. t' \<noteq> t \<longrightarrow> head_open c1 t'"
  proof (intro allI impI)
    fix t' assume "t' \<noteq> t"
    moreover have "head_open c t'" using wf by (simp add: cyc_wf_def)
    ultimately show "head_open c1 t'" by (auto simp: head_open_def ords has split: list.splits)
  qed
  show "queue_of c1 t' = (if t' = t then q_fill sq cy (queue_of c t) else queue_of c t')"
    by (rule queue_of_refill [OF _ ords]) (use full in \<open>auto simp: c1 entry_def split: option.split\<close>)
qed

text \<open>A delivery, on the queue of its table: fill in the cycle, then pop the complete prefix.\<close>

definition waiting :: "u64 \<Rightarrow> u64 \<times> cycle \<times> bool \<Rightarrow> bool" where
  "waiting sq e \<longleftrightarrow> fst e = sq \<and> \<not> snd (snd e)"

definition q_deliver :: "table_ref \<Rightarrow> u64 \<Rightarrow> string \<Rightarrow> string \<Rightarrow> string \<Rightarrow> u32 list option \<Rightarrow> cqueue \<Rightarrow> cqueue \<times> cycle list" where
  "q_deliver ref sq desc pos state pending q =
     (case find (waiting sq) q of
        None \<Rightarrow> (q, if sq = 0 then [single_cycle ref desc pos state pending] else [])
      | Some e \<Rightarrow>
          if refuses (fst (snd e)) (tr_Owner ref) then (q, [])
          else q_pop (q_fill sq (accept (fst (snd e)) (tr_Owner ref) desc pos state pending) q))"

lemma find_entry:
  assumes "queue_wf c"
  shows "find (waiting sq) (queue_of c t) = map_option (\<lambda>cy. (sq, cy, False)) (map_of (cs_open c) (t, sq))"
proof -
  have e: "waiting sq (entry c t q) \<longleftrightarrow> q = sq \<and> gm_has (cs_open c) (t, q)" for q
    by (auto simp: waiting_def entry_def gm_has_def split: option.split)
  have "find (waiting sq) (map (entry c t) qs)
      = (if sq \<in> set qs \<and> gm_has (cs_open c) (t, sq) then Some (entry c t sq) else None)" for qs
    by (induction qs) (auto simp: e)
  moreover have "gm_has (cs_open c) (t, sq) \<Longrightarrow> sq \<in> set (ord_of c t)"
    using assms by (simp add: queue_wf_def)
  ultimately show ?thesis
    by (cases "map_of (cs_open c) (t, sq)") (auto simp: queue_of_def entry_def gm_has_def)
qed

lemma q_pop_open: "cyc_wf c \<Longrightarrow> q_pop (queue_of c t) = (queue_of c t, [])"
proof -
  assume "cyc_wf c"
  then have "head_open c t" by (simp add: cyc_wf_def)
  then show ?thesis
    by (cases "ord_of c t") (auto simp: q_pop_def queue_of_def head_open_def entry_def gm_has_def)
qed

lemma deliver_refines:
  assumes wf: "cyc_wf c" and run: "deliver_locked c ref sq desc pos state pending = (c', out, known)"
  shows "(queue_of c' (tr_Target ref), out) = q_deliver ref sq desc pos state pending (queue_of c (tr_Target ref))
    \<and> (\<forall>t'. t' \<noteq> tr_Target ref \<longrightarrow> queue_of c' t' = queue_of c t') \<and> cyc_wf c' \<and> cs_poisoned c' = cs_poisoned c"
proof -
  let ?t = "tr_Target ref"
  have qwf: "queue_wf c" using wf by (simp add: cyc_wf_def)
  note find = find_entry [OF qwf, of sq ?t]
  show ?thesis
  proof (cases "map_of (cs_open c) (?t, sq)")
    case None
    with run have "c' = c" "out = (if sq = 0 then [single_cycle ref desc pos state pending] else [])"
      by (auto simp: deliver_locked_def split: if_splits)
    then show ?thesis using wf None by (simp add: q_deliver_def find)
  next
    case (Some cy)
    show ?thesis
    proof (cases "refuses cy (tr_Owner ref)")
      case True
      with Some run have "c' = c" "out = []" by (auto simp: deliver_locked_def)
      then show ?thesis using wf Some True by (simp add: q_deliver_def find)
    next
      case False
      define cy' where "cy' = accept cy (tr_Owner ref) desc pos state pending"
      have qd: "q_deliver ref sq desc pos state pending (queue_of c ?t) = q_pop (q_fill sq cy' (queue_of c ?t))"
        using Some False by (simp add: q_deliver_def find cy'_def)
      show ?thesis
      proof (cases "length (cy_Descriptors cy') < cy_expected cy'")
        case True
        then have c': "c' = c\<lparr>cs_open := gm_put (?t, sq) cy' (cs_open c)\<rparr>" "out = []"
          using run Some False by (simp_all add: deliver_locked_def cy'_def [symmetric] Let_def)
        have wf': "cyc_wf c'" unfolding c' by (rule cyc_wf_refill [OF wf]) (simp add: gm_has_def Some)
        note q = queue_of_fill [OF Some True]
        have "queue_of c' ?t = q_fill sq cy' (queue_of c ?t)" unfolding c' q by simp
        with q_pop_open [OF wf', of ?t] c'(2) have "(queue_of c' ?t, out) = q_pop (q_fill sq cy' (queue_of c ?t))" by simp
        moreover have "t' \<noteq> ?t \<Longrightarrow> queue_of c' t' = queue_of c t'" for t' unfolding c' q by simp
        ultimately show ?thesis using wf' c'(1) qd by simp
      next
        case full: False
        define c1 where "c1 = c\<lparr>cs_open := gm_del (?t, sq) (cs_open c), cs_done := gm_put (?t, sq) cy' (cs_done c)\<rparr>"
        have d: "drainLocked c1 ?t = (c', out)"
          using run Some False full by (simp add: deliver_locked_def cy'_def [symmetric] Let_def c1_def split: prod.splits)
        have full': "cy_expected cy' \<le> length (cy_Descriptors cy')" using full by simp
        note comp = queue_of_complete [OF wf Some full' c1_def]
        note drain = drainLocked_spec [OF comp(1,2) d]
        have "(queue_of c' ?t, out) = q_pop (q_fill sq cy' (queue_of c ?t))"
          using queue_of_drain(1) [OF comp(1,2) d] unfolding comp(3) by simp
        moreover have "t' \<noteq> ?t \<Longrightarrow> queue_of c' t' = queue_of c t'" for t'
          using queue_of_drain(2) [OF comp(1,2) d, of t'] unfolding comp(3) by simp
        moreover have "cs_poisoned c' = cs_poisoned c" using drain(3) by (simp add: c1_def)
        ultimately show ?thesis using drain(1) qd by simp
      qed
    qed
  qed
qed

section \<open>Runs of the tracker\<close>

text \<open>The share a cycle has collected: one delivery of each owner that delivered, none of another.\<close>

definition cyc_ok :: "cycle \<Rightarrow> bool" where
  "cyc_ok cy \<longleftrightarrow>
     gm_wf (cy_Owners cy) \<and> gm_wf (cy_delivered cy) \<and>
     (\<forall>w. gm_has (cy_Owners cy) w \<longrightarrow> gm_at False (cy_Owners cy) w) \<and>
     (\<forall>w. gm_has (cy_delivered cy) w \<longrightarrow> gm_at False (cy_delivered cy) w \<and> gm_has (cy_Owners cy) w) \<and>
     length (cy_Descriptors cy) = length (cy_delivered cy) \<and>
     cy_expected cy = length (cy_Owners cy)"

lemma foldl_put_owners:
  "distinct owners \<Longrightarrow> set owners \<inter> fst ` set m = {} \<Longrightarrow> gm_wf m \<Longrightarrow>
     foldl (\<lambda>m p. gm_put p True m) m owners = m @ map (\<lambda>p. (p, True)) owners"
proof (induction owners arbitrary: m)
  case (Cons p owners)
  then have "gm_put p True m = m @ [(p, True)]" by (intro gm_put_fresh) auto
  with Cons show ?case by (auto simp: gm_wf_def)
qed simp

lemma map_of_all_True: "map_of (map (\<lambda>p. (p, True)) xs) p = (if p \<in> set xs then Some True else None)"
  by (induction xs) auto

lemma cyc_ok_new:
  assumes "distinct owners"
  shows "cyc_ok (new_cycle ref sq owners bp)"
proof -
  have own: "foldl (\<lambda>m p. gm_put p True m) [] owners = map (\<lambda>p. (p, True)) owners"
    using foldl_put_owners [of owners "[]"] assms by simp
  show ?thesis
    using assms by (simp add: cyc_ok_def new_cycle_def own gm_wf_def gm_has_def gm_at_def comp_def map_of_all_True)
qed

lemma cyc_ok_accept:
  assumes ok: "cyc_ok cy" and owner: "owner \<noteq> []" "\<not> refuses cy owner"
  shows "cyc_ok (accept cy owner desc pos state pending)"
proof -
  have new: "\<not> gm_has (cy_delivered cy) owner" and mem: "gm_has (cy_Owners cy) owner"
    using ok owner by (auto simp: refuses_def cyc_ok_def gm_at_def gm_has_def split: option.splits)
  have put: "gm_put owner True (cy_delivered cy) = cy_delivered cy @ [(owner, True)]"
    using new by (intro gm_put_fresh) (force simp: gm_has_def map_of_eq_None_iff)
  have fields: "cy_Owners (accept cy owner desc pos state pending) = cy_Owners cy"
    "cy_delivered (accept cy owner desc pos state pending) = gm_put owner True (cy_delivered cy)"
    "cy_Descriptors (accept cy owner desc pos state pending) = cy_Descriptors cy @ [desc]"
    "cy_expected (accept cy owner desc pos state pending) = cy_expected cy"
    using owner(1) by (simp_all add: accept_def Let_def)
  have len: "length (gm_put owner True (cy_delivered cy)) = Suc (length (cy_delivered cy))"
    unfolding put by simp
  have del: "gm_has (gm_put owner True (cy_delivered cy)) w \<Longrightarrow>
      gm_at False (gm_put owner True (cy_delivered cy)) w \<and> gm_has (cy_Owners cy) w" for w
    using ok mem by (cases "w = owner") (simp_all add: cyc_ok_def)
  show ?thesis
    unfolding cyc_ok_def fields len using ok del by (simp add: cyc_ok_def)
qed

lemma accept_Seq: "cy_Seq (accept cy owner desc pos state pending) = cy_Seq cy"
  by (simp add: accept_def Let_def)

definition qinv :: "cqueue \<Rightarrow> bool" where
  "qinv q \<longleftrightarrow> (\<forall>(s, cy, b) \<in> set q. cy_Seq cy = s \<and> cyc_ok cy \<and> (b \<longleftrightarrow> cy_expected cy \<le> length (cy_Descriptors cy)))"

lemma qinv_fill: "qinv q \<Longrightarrow> cy_Seq cy = sq \<Longrightarrow> cyc_ok cy \<Longrightarrow> qinv (q_fill sq cy q)"
  by (auto simp: qinv_def q_fill_def split: if_splits)

lemma fst_q_fill: "map fst (q_fill sq cy q) = map fst q"
  by (auto simp: q_fill_def)

lemma fst_queue_of: "map fst (queue_of c t) = ord_of c t"
proof -
  have "fst (entry c t q) = q" for q by (simp add: entry_def split: option.split)
  then show ?thesis by (simp add: queue_of_def comp_def)
qed

lemma q_pop_inv:
  assumes "qinv q" "q_pop q = (q', out)"
  shows "qinv q' \<and> map cy_Seq out @ map fst q' = map fst q
    \<and> (\<forall>cy \<in> set out. cyc_ok cy \<and> cy_expected cy \<le> length (cy_Descriptors cy))"
  using assms
proof (induction q arbitrary: q' out)
  case (Cons e q)
  obtain s cy b where e: "e = (s, cy, b)" by (metis prod_cases3)
  show ?case
  proof (cases b)
    case True
    with Cons.prems e obtain out' where out': "q_pop q = (q', out')" "out = cy # out'" by (auto simp: q_pop_def)
    have inv: "qinv q" "cy_Seq cy = s" "cyc_ok cy" "cy_expected cy \<le> length (cy_Descriptors cy)"
      using Cons.prems(1) e True by (auto simp: qinv_def)
    show ?thesis using Cons.IH [OF inv(1) out'(1)] inv out'(2) e by simp
  next
    case False
    with Cons.prems e show ?thesis by (auto simp: q_pop_def)
  qed
qed (simp add: q_pop_def)

lemma find_waiting: "find (waiting sq) q = Some e \<Longrightarrow> e \<in> set q \<and> fst e = sq \<and> \<not> snd (snd e)"
  by (auto simp: find_Some_iff waiting_def)

lemma q_deliver_inv:
  assumes inv: "qinv q" and named: "tr_Owner ref \<noteq> []" "sq \<noteq> 0"
    and run: "q_deliver ref sq desc pos state pending q = (q', out)"
  shows "qinv q' \<and> map cy_Seq out @ map fst q' = map fst q
    \<and> (\<forall>cy \<in> set out. cyc_ok cy \<and> cy_expected cy \<le> length (cy_Descriptors cy))"
proof (cases "find (waiting sq) q")
  case None
  with run named inv show ?thesis by (auto simp: q_deliver_def)
next
  case (Some e)
  obtain s cy b where e: "e = (s, cy, b)" by (metis prod_cases3)
  have mem: "cy_Seq cy = sq" "cyc_ok cy" using find_waiting [OF Some] inv e by (auto simp: qinv_def)
  show ?thesis
  proof (cases "refuses cy (tr_Owner ref)")
    case True
    with run Some e inv show ?thesis by (auto simp: q_deliver_def)
  next
    case False
    let ?cy = "accept cy (tr_Owner ref) desc pos state pending"
    have "qinv (q_fill sq ?cy q)"
      by (rule qinv_fill [OF inv]) (use mem named False in \<open>simp_all add: accept_Seq cyc_ok_accept\<close>)
    moreover have "q_pop (q_fill sq ?cy q) = (q', out)" using run Some e False by (simp add: q_deliver_def)
    ultimately show ?thesis using q_pop_inv fst_q_fill by metis
  qed
qed

text \<open>
  What a tracker promises its user, over the queue it stands for: opening a cycle appends it,
  re-marking an open cycle replaces it, a delivery fills it in and hands out the complete prefix.
\<close>

definition cycle_books ::
  "('s \<Rightarrow> bool) \<Rightarrow> ('s \<Rightarrow> string \<Rightarrow> cqueue) \<Rightarrow> 's \<times> (string \<Rightarrow> u64 list) \<times> (string \<Rightarrow> cycle list) \<Rightarrow> bool" where
  "cycle_books good queue st =
     (case st of (s, sent, done) \<Rightarrow>
        good s \<and> (\<forall>t. qinv (queue s t) \<and> map cy_Seq (done t) @ map fst (queue s t) = sent t
          \<and> (\<forall>cy \<in> set (done t). cyc_ok cy \<and> cy_expected cy \<le> length (cy_Descriptors cy))))"

locale cycle_tracker =
  fixes good :: "'s \<Rightarrow> bool"
    and queue :: "'s \<Rightarrow> string \<Rightarrow> cqueue"
    and start :: 's
    and expect :: "'s \<Rightarrow> table_ref \<Rightarrow> u64 \<Rightarrow> string list \<Rightarrow> string \<Rightarrow> 's"
    and mark :: "'s \<Rightarrow> string \<Rightarrow> u64 \<Rightarrow> cycle \<Rightarrow> 's"
    and deliver :: "'s \<Rightarrow> table_ref \<Rightarrow> u64 \<Rightarrow> string \<Rightarrow> string \<Rightarrow> string \<Rightarrow> u32 list option \<Rightarrow> 's \<times> cycle list \<times> bool"
  assumes start_law: "good start" "queue start t = []"
    and expect_law: "good s \<Longrightarrow> sq \<notin> set (map fst (queue s (tr_Target ref))) \<Longrightarrow>
      good (expect s ref sq owners bp) \<and> queue (expect s ref sq owners bp) t =
        (if t = tr_Target ref then q_expect sq (new_cycle ref sq owners bp) (queue s t) else queue s t)"
    and mark_law: "good s \<Longrightarrow> find (waiting sq) (queue s t) = Some e \<Longrightarrow> length (cy_Descriptors cy) < cy_expected cy \<Longrightarrow>
      good (mark s t sq cy) \<and> queue (mark s t sq cy) t' = (if t' = t then q_fill sq cy (queue s t) else queue s t')"
    and deliver_law: "good s \<Longrightarrow> deliver s ref sq desc pos state pending = (s', out, known) \<Longrightarrow>
      (queue s' (tr_Target ref), out) = q_deliver ref sq desc pos state pending (queue s (tr_Target ref))
      \<and> (\<forall>t'. t' \<noteq> tr_Target ref \<longrightarrow> queue s' t' = queue s t') \<and> good s'"
begin

lemma start_books: "cycle_books good queue (start, (\<lambda>t. []), (\<lambda>t. []))"
  by (simp add: cycle_books_def start_law qinv_def)

lemma expect_books:
  assumes "cycle_books good queue (s, sent, done)" "distinct owners" "owners \<noteq> []" "sq \<notin> set (sent (tr_Target ref))"
  shows "cycle_books good queue (expect s ref sq owners bp, sent(tr_Target ref := sent (tr_Target ref) @ [sq]), done)"
proof -
  have old: "good s" "\<And>t. qinv (queue s t)" "\<And>t. map cy_Seq (done t) @ map fst (queue s t) = sent t"
    "\<And>t cy. cy \<in> set (done t) \<Longrightarrow> cyc_ok cy \<and> cy_expected cy \<le> length (cy_Descriptors cy)"
    using assms(1) by (auto simp: cycle_books_def)
  have fresh: "sq \<notin> set (map fst (queue s (tr_Target ref)))"
    using assms(4) old(3) [of "tr_Target ref"] by (metis Un_iff set_append)
  note law = expect_law [OF old(1) fresh]
  have "qinv (q_expect sq (new_cycle ref sq owners bp) q)" if "qinv q" for q
    using that cyc_ok_new [OF assms(2)] assms(3) by (auto simp: qinv_def q_expect_def new_cycle_def)
  then have "qinv (queue (expect s ref sq owners bp) t)" for t
    using law old(2) by simp
  moreover have "map cy_Seq (done t) @ map fst (queue (expect s ref sq owners bp) t)
      = (sent(tr_Target ref := sent (tr_Target ref) @ [sq])) t" for t
    using law old(3) [of t] by (auto simp: q_expect_def)
  ultimately show ?thesis using law old(4) by (auto simp: cycle_books_def)
qed

lemma mark_books:
  assumes "cycle_books good queue (s, sent, done)" "find (waiting sq) (queue s t) = Some (q, cy, b)"
    and "cy_Seq cy' = cy_Seq cy" "cyc_ok cy \<Longrightarrow> cyc_ok cy'" "cy_Descriptors cy' = cy_Descriptors cy" "cy_expected cy' = cy_expected cy"
  shows "cycle_books good queue (mark s t sq cy', sent, done)"
proof -
  have old: "good s" "\<And>t. qinv (queue s t)" "\<And>t. map cy_Seq (done t) @ map fst (queue s t) = sent t"
    "\<And>t cy. cy \<in> set (done t) \<Longrightarrow> cyc_ok cy \<and> cy_expected cy \<le> length (cy_Descriptors cy)"
    using assms(1) by (auto simp: cycle_books_def)
  have mem: "(q, cy, b) \<in> set (queue s t)" "q = sq" "\<not> b" using find_waiting [OF assms(2)] by auto
  then have cy: "cy_Seq cy = sq" "cyc_ok cy" "length (cy_Descriptors cy) < cy_expected cy"
    using old(2) [of t] by (auto simp: qinv_def)
  have law: "good (mark s t sq cy')" "\<And>t'. queue (mark s t sq cy') t' = (if t' = t then q_fill sq cy' (queue s t) else queue s t')"
    using mark_law [OF old(1) assms(2), of cy'] cy assms(5,6) by simp_all
  have "qinv (q_fill sq cy' (queue s t))"
    by (rule qinv_fill [OF old(2)]) (use cy assms(3,4) in simp_all)
  then have "qinv (queue (mark s t sq cy') t')" for t'
    using law(2) [of t'] old(2) by simp
  moreover have "map fst (queue (mark s t sq cy') t') = map fst (queue s t')" for t'
    using law(2) [of t'] fst_q_fill by simp
  ultimately show ?thesis using law(1) old(3,4) by (auto simp: cycle_books_def)
qed

lemma deliver_books:
  assumes "cycle_books good queue (s, sent, done)" "tr_Owner ref \<noteq> []" "sq \<noteq> 0"
    and run: "deliver s ref sq desc pos state pending = (s', out, known)"
  shows "cycle_books good queue (s', sent, done(tr_Target ref := done (tr_Target ref) @ out))"
proof -
  let ?t = "tr_Target ref"
  have old: "good s" "\<And>t. qinv (queue s t)" "\<And>t. map cy_Seq (done t) @ map fst (queue s t) = sent t"
    "\<And>t cy. cy \<in> set (done t) \<Longrightarrow> cyc_ok cy \<and> cy_expected cy \<le> length (cy_Descriptors cy)"
    using assms(1) by (auto simp: cycle_books_def)
  note law = deliver_law [OF old(1) run]
  have new: "qinv (queue s' ?t) \<and> map cy_Seq out @ map fst (queue s' ?t) = map fst (queue s ?t)
    \<and> (\<forall>cy \<in> set out. cyc_ok cy \<and> cy_expected cy \<le> length (cy_Descriptors cy))"
    by (rule q_deliver_inv [OF old(2) [of ?t] assms(2,3)]) (use law in simp)
  have "qinv (queue s' t)" for t using new law old(2) [of t] by (cases "t = ?t") auto
  moreover have "map cy_Seq ((done(?t := done ?t @ out)) t) @ map fst (queue s' t) = sent t" for t
    using new law old(3) [of t] by (cases "t = ?t") auto
  moreover have "cyc_ok cy \<and> cy_expected cy \<le> length (cy_Descriptors cy)" if "cy \<in> set ((done(?t := done ?t @ out)) t)" for t cy
    using that new old(4) by (cases "t = ?t") auto
  ultimately show ?thesis using law by (simp add: cycle_books_def)
qed

end

definition remark :: "cycles \<Rightarrow> string \<Rightarrow> u64 \<Rightarrow> cycle \<Rightarrow> cycles" where
  "remark c t sq cy = c\<lparr>cs_open := gm_put (t, sq) cy (cs_open c)\<rparr>"

interpretation tracker: cycle_tracker cyc_wf queue_of New_cycles expect_locked remark deliver_locked
proof (unfold_locales, goal_cases)
  case 1
  show ?case by (rule cyc_wf_New)
next
  case (2 t)
  show ?case by (rule queue_of_New)
next
  case (3 s sq ref owners bp t)
  then show ?case unfolding fst_queue_of using cyc_wf_expect(1) queue_of_expect by blast
next
  case (4 s sq t e cy t')
  then have "queue_wf s" by (simp add: cyc_wf_def)
  from 4(2) find_entry [OF this, of sq t] obtain cy0 where cy0: "map_of (cs_open s) (t, sq) = Some cy0" by auto
  have "gm_has (cs_open s) (t, sq)" by (simp add: gm_has_def cy0)
  then show ?case
    unfolding remark_def using cyc_wf_refill [OF 4(1)] queue_of_fill [OF cy0 4(3)] by simp
next
  case (5 s ref sq desc pos state pending s' out known)
  then show ?case using deliver_refines by blast
qed

section \<open>Runs\<close>

text \<open>
  The tracker under any interleaving of the coordinator's calls: batches sent to distinct owners under
  fresh sequence numbers, cycles marked as windows, deliveries by named workers, losses and
  poisonings. \<open>ExpectWindow\<close> is its two critical sections, an \<open>expect\<close> without a position and a
  \<open>window\<close> step, between which the others may run. \<open>sent\<close> and \<open>done\<close> record, per table, what was
  opened and what was handed out to commit.
\<close>

type_synonym tracker_state = "cycles \<times> (string \<Rightarrow> u64 list) \<times> (string \<Rightarrow> cycle list)"

inductive cstep :: "tracker_state \<Rightarrow> tracker_state \<Rightarrow> bool" where
  expect: "owners \<noteq> [] \<Longrightarrow> distinct owners \<Longrightarrow> sq \<notin> set (sent (tr_Target ref)) \<Longrightarrow>
     ExpectAt (Some c) ref sq owners bp = Some c' \<Longrightarrow>
     cstep (c, sent, cm) (c', sent(tr_Target ref := sent (tr_Target ref) @ [sq]), cm)"
| window: "mark_window (Some c) ref sq = Some c' \<Longrightarrow> cstep (c, sent, cm) (c', sent, cm)"
| lost: "MarkLost (Some c) ref sq = Some c' \<Longrightarrow> cstep (c, sent, cm) (c', sent, cm)"
| poison: "Poison (Some c) t = Some c' \<Longrightarrow> cstep (c, sent, cm) (c', sent, cm)"
| deliver: "tr_Owner ref \<noteq> [] \<Longrightarrow> sq \<noteq> 0 \<Longrightarrow>
     Deliver (Some c) ref sq desc pos state pending = (Some c', out, known) \<Longrightarrow>
     cstep (c, sent, cm) (c', sent, cm(tr_Target ref := cm (tr_Target ref) @ out))"

lemma books_open:
  assumes "cycle_books cyc_wf queue_of (c, sent, cm)" "map_of (cs_open c) (t, sq) = Some cy"
  shows "find (waiting sq) (queue_of c t) = Some (sq, cy, False)"
  using assms find_entry [of c sq t] by (simp add: cycle_books_def cyc_wf_def)

lemma books_remark:
  assumes "cycle_books cyc_wf queue_of (c, sent, cm)" "map_of (cs_open c) (t, sq) = Some cy"
    and "cy_Seq cy' = cy_Seq cy" "cyc_ok cy \<Longrightarrow> cyc_ok cy'" "cy_Descriptors cy' = cy_Descriptors cy" "cy_expected cy' = cy_expected cy"
  shows "cycle_books cyc_wf queue_of (c\<lparr>cs_open := gm_put (t, sq) cy' (cs_open c)\<rparr>, sent, cm)"
  using tracker.mark_books [OF assms(1) books_open [OF assms(1,2)] assms(3-6)] by (simp add: remark_def)

lemma queue_of_poisoned: "queue_of (c\<lparr>cs_poisoned := m\<rparr>) = queue_of c"
  by (simp add: queue_of_def entry_def ord_of_def fun_eq_iff split: option.splits)

lemma cyc_wf_poisoned: "cyc_wf (c\<lparr>cs_poisoned := m\<rparr>) = cyc_wf c"
  by (rule cyc_wf_cong) (simp_all add: ord_of_def fun_eq_iff)

lemma cyc_ok_flags: "cyc_ok (cy\<lparr>cy_Window := a\<rparr>) = cyc_ok cy" "cyc_ok (cy\<lparr>cy_Lost := b\<rparr>) = cyc_ok cy"
  by (simp_all add: cyc_ok_def)

lemma cstep_books: "cstep s s' \<Longrightarrow> cycle_books cyc_wf queue_of s \<Longrightarrow> cycle_books cyc_wf queue_of s'"
proof (induction rule: cstep.induct)
  case (expect owners sq sent ref c bp c' cm)
  then have "c' = expect_locked c ref sq owners bp" by (simp add: ExpectAt_def)
  then show ?case using tracker.expect_books [OF expect(5,2,1,3)] by simp
next
  case (window c ref sq c' sent cm)
  then show ?case
    by (auto simp: mark_window_def cyc_ok_flags intro!: books_remark split: option.splits)
next
  case (lost c ref sq c' sent cm)
  then show ?case
    by (auto simp: MarkLost_def cyc_ok_flags intro!: books_remark split: option.splits if_splits)
next
  case (poison c t c' sent cm)
  then show ?case by (auto simp: Poison_def cycle_books_def queue_of_poisoned cyc_wf_poisoned)
next
  case (deliver ref sq c desc pos state pending c' out known sent cm)
  then have "deliver_locked c ref sq desc pos state pending = (c', out, known)"
    by (auto simp: Deliver_def split: prod.splits)
  from tracker.deliver_books [OF deliver(4,1,2) this] show ?case .
qed

lemma csteps_books:
  "rtranclp cstep s s' \<Longrightarrow> cycle_books cyc_wf queue_of s \<Longrightarrow> cycle_books cyc_wf queue_of s'"
  by (induction rule: rtranclp_induct) (auto intro: cstep_books)

lemma cyc_ok_full:
  assumes "cyc_ok cy" "cy_expected cy \<le> length (cy_Descriptors cy)"
  shows "{w. gm_has (cy_delivered cy) w} = {w. gm_has (cy_Owners cy) w}"
    "length (cy_Descriptors cy) = length (cy_Owners cy)"
proof -
  let ?D = "fst ` set (cy_delivered cy)" and ?O = "fst ` set (cy_Owners cy)"
  have D: "{w. gm_has (cy_delivered cy) w} = ?D" and O: "{w. gm_has (cy_Owners cy) w} = ?O"
    by (auto simp: gm_has_def map_of_eq_None_iff)
  have sub: "?D \<subseteq> ?O" using assms(1) unfolding D [symmetric] O [symmetric] by (auto simp: cyc_ok_def)
  have cards: "card ?D = length (cy_delivered cy)" "card ?O = length (cy_Owners cy)"
    using assms(1) distinct_card [of "map fst (cy_delivered cy)"] distinct_card [of "map fst (cy_Owners cy)"]
    by (simp_all add: cyc_ok_def gm_wf_def)
  have len: "length (cy_Owners cy) \<le> length (cy_delivered cy)" using assms by (simp add: cyc_ok_def)
  have "card ?D \<le> card ?O" using sub by (intro card_mono) simp_all
  with cards len have eq: "card ?D = card ?O" by simp
  have "?D = ?O" by (rule card_subset_eq) (use sub eq in simp_all)
  then show "{w. gm_has (cy_delivered cy) w} = {w. gm_has (cy_Owners cy) w}" unfolding D O .
  show "length (cy_Descriptors cy) = length (cy_Owners cy)" using eq cards assms(1) by (simp add: cyc_ok_def)
qed

lemma OpenSeqs_queue: "queue_wf c \<Longrightarrow> OpenSeqs (Some c) ref = map fst (queue_of c (tr_Target ref))"
  unfolding fst_queue_of by (auto simp: OpenSeqs_def queue_wf_def ord_of_def filter_id_conv)

lemma those_SomeD: "those xs = Some ys \<Longrightarrow> xs = map Some ys"
  by (induction xs arbitrary: ys) (auto split: option.splits)

lemma those_map_all:
  "those (map parse xs) = Some vals \<Longrightarrow> (\<And>s v. parse s = Some v \<Longrightarrow> P v) \<Longrightarrow> \<forall>v\<in>set vals. P v"
  by (induction xs arbitrary: vals) (auto split: option.splits)

section \<open>Failed commits\<close>

fun commits :: "'h commit_host \<Rightarrow> 'h \<Rightarrow> cycle list \<Rightarrow> 'h option" where
  "commits H h [] = Some h"
| "commits H h (cy # cys) =
     (case commitLocked H h cy of
        (h1, Ok u) \<Rightarrow> commits H h1 cys
      | (h1, e) \<Rightarrow> None)"

lemma commit_run_append:
  "commits H h pre = Some h1 \<Longrightarrow> commit_run H h s t (pre @ cys) = commit_run H h1 s t cys"
  by (induction pre arbitrary: h) (auto split: prod.splits res.splits)

lemma IsPoisoned_Poison: "IsPoisoned (Poison (Some c) t) t"
  by (simp add: IsPoisoned_def Poison_def)

lemma OnDelivery_poisoned: "IsPoisoned s (sd_Table d) \<Longrightarrow> OnDelivery H h s w d = (h, s)"
  by (simp add: OnDelivery_def split: option.splits)

text \<open>Everything that can run after a failed commit, the host changing freely in between.\<close>

inductive sstep :: "'h commit_host \<Rightarrow> 'h \<times> cycles option \<Rightarrow> 'h \<times> cycles option \<Rightarrow> bool" for H where
  expect: "sstep H (h, s) (h, ExpectAt s ref sq owners bp)"
| window: "sstep H (h, s) (h, mark_window s ref sq)"
| lost: "sstep H (h, s) (h, MarkLost s ref sq)"
| poison: "sstep H (h, s) (h, Poison s t)"
| delivery: "sstep H (h, s) (OnDelivery H h s w d)"
| commit: "sstep H (h, s) (fst (Commit H h s cy), s)"
| host: "sstep H (h, s) (h', s)"

lemma deliver_poisoned:
  assumes "Deliver s ref sq desc pos state pending = (s', out, known)" "IsPoisoned s t"
  shows "IsPoisoned s' t"
  using assms
  by (auto simp: Deliver_def deliver_locked_def drainLocked_def IsPoisoned_def Let_def
      split: option.splits prod.splits if_splits)

lemma poison_poisoned: "IsPoisoned s t \<Longrightarrow> IsPoisoned (Poison s t') t"
  by (auto simp: Poison_def IsPoisoned_def split: option.splits)

lemma lost_poisoned: "IsPoisoned s t \<Longrightarrow> IsPoisoned (MarkLost s ref sq) t"
  by (auto simp: MarkLost_def IsPoisoned_def split: option.splits)

lemma commit_run_poisoned: "commit_run H h s t' cys = (h', s') \<Longrightarrow> IsPoisoned s t \<Longrightarrow> IsPoisoned s' t"
  by (induction cys arbitrary: h) (auto intro: poison_poisoned split: prod.splits res.splits)

lemma delivery_poisoned:
  assumes "OnDelivery H h s w d = (h', s')" "IsPoisoned s t"
  shows "IsPoisoned s' t"
proof -
  let ?ref = "\<lparr>tr_Target = sd_Table d, tr_Owner = w\<rparr>"
  let ?s1 = "if sd_WindowLost d then MarkLost s ?ref (sd_Seq d) else s"
  obtain s2 out known where dl: "Deliver ?s1 ?ref (sd_Seq d) (sd_Descriptor d) (sd_Position d)
      (sd_SnapshotState d) (sd_SnapshotPending d) = (s2, out, known)" by (metis prod_cases3)
  have "IsPoisoned ?s1 t" using assms(2) lost_poisoned by simp
  then have "IsPoisoned s2 t" by (rule deliver_poisoned [OF dl])
  moreover have "s' = s \<or> commit_run H h s2 (sd_Table d) out = (h', s')"
    using assms(1) dl by (auto simp: OnDelivery_def Let_def split: option.splits if_splits)
  ultimately show ?thesis using assms(2) commit_run_poisoned [of H h s2 "sd_Table d" out h' s' t] by auto
qed

lemma sstep_poisoned: "sstep H a b \<Longrightarrow> IsPoisoned (snd a) t \<Longrightarrow> IsPoisoned (snd b) t"
proof (induction rule: sstep.induct)
  case (expect h s ref sq owners bp)
  then show ?case
    by (auto simp: ExpectAt_def expect_locked_def IsPoisoned_def Let_def split: option.splits)
next
  case (window h s ref sq)
  then show ?case by (auto simp: mark_window_def IsPoisoned_def split: option.splits)
next
  case (delivery h s w d)
  then show ?case using delivery_poisoned [of H h s w d] by (metis prod.collapse snd_conv)
qed (simp_all add: poison_poisoned lost_poisoned)

lemma ssteps_poisoned: "rtranclp (sstep H) a b \<Longrightarrow> IsPoisoned (snd a) t \<Longrightarrow> IsPoisoned (snd b) t"
  by (induction rule: rtranclp_induct) (auto intro: sstep_poisoned)

section \<open>Properties\<close>

text \<open>
  C9: under every interleaving of sends, windows, deliveries, losses and poisonings, the cycles handed
  out for commit followed by the ones still open are exactly the batches sent to the table, in send
  order; so no cycle is skipped, repeated or overtaken. Every cycle handed out has exactly one
  delivery of each owner it was sent to.
\<close>

theorem staged_commits_in_send_order:
  assumes "rtranclp cstep (New_cycles, (\<lambda>t. []), (\<lambda>t. [])) (c, sent, cm)"
  shows "map cy_Seq (cm t) @ OpenSeqs (Some c) \<lparr>tr_Target = t, tr_Owner = w\<rparr> = sent t
    \<and> (\<forall>cy \<in> set (cm t). {o'. gm_has (cy_delivered cy) o'} = {o'. gm_has (cy_Owners cy) o'}
           \<and> length (cy_Descriptors cy) = length (cy_Owners cy) \<and> distinct (map fst (cy_delivered cy)))"
proof
  have b: "cycle_books cyc_wf queue_of (c, sent, cm)"
    by (rule csteps_books [OF assms]) (rule tracker.start_books)
  then show "map cy_Seq (cm t) @ OpenSeqs (Some c) \<lparr>tr_Target = t, tr_Owner = w\<rparr> = sent t"
    using OpenSeqs_queue [of c] by (simp add: cycle_books_def cyc_wf_def)
  have full: "cyc_ok cy \<and> cy_expected cy \<le> length (cy_Descriptors cy)" if "cy \<in> set (cm t)" for cy
    using that b by (auto simp: cycle_books_def)
  show "\<forall>cy \<in> set (cm t). {o'. gm_has (cy_delivered cy) o'} = {o'. gm_has (cy_Owners cy) o'}
      \<and> length (cy_Descriptors cy) = length (cy_Owners cy) \<and> distinct (map fst (cy_delivered cy))"
  proof
    fix cy assume "cy \<in> set (cm t)"
    from full [OF this] have ok: "cyc_ok cy" and len: "cy_expected cy \<le> length (cy_Descriptors cy)" by simp_all
    have "distinct (map fst (cy_delivered cy))" using ok unfolding cyc_ok_def gm_wf_def by blast
    with cyc_ok_full [OF ok len] show "{o'. gm_has (cy_delivered cy) o'} = {o'. gm_has (cy_Owners cy) o'}
      \<and> length (cy_Descriptors cy) = length (cy_Owners cy) \<and> distinct (map fst (cy_delivered cy))" by blast
  qed
qed

text \<open>Two batches; the second is delivered first and waits for the first.\<close>

definition two_sent :: cycles where
  "two_sent = the (ExpectAt (ExpectAt (Some New_cycles) \<lparr>tr_Target = ''t'', tr_Owner = []\<rparr> 1 [''a'', ''b''] ''p1'')
                     \<lparr>tr_Target = ''t'', tr_Owner = []\<rparr> 2 [''a''] ''p2'')"

definition second_in :: cycles where
  "second_in = the (fst (Deliver (Some two_sent) \<lparr>tr_Target = ''t'', tr_Owner = ''a''\<rparr> 2 ''d'' ''p2'' [] None))"

lemma two_sent_run:
  "rtranclp cstep (New_cycles, (\<lambda>t. []), (\<lambda>t. []))
     (second_in, ((\<lambda>t. [])(''t'' := [1]))(''t'' := [1, 2]), (\<lambda>t. [])(''t'' := []))"
proof -
  let ?r = "\<lparr>tr_Target = ''t'', tr_Owner = []\<rparr>" and ?s0 = "\<lambda>t::string. [] :: u64 list" and ?c0 = "\<lambda>t::string. [] :: cycle list"
  let ?c1 = "the (ExpectAt (Some New_cycles) ?r 1 [''a'', ''b''] ''p1'')"
  have "cstep (New_cycles, ?s0, ?c0) (?c1, ?s0(tr_Target ?r := ?s0 (tr_Target ?r) @ [1]), ?c0)"
    by (rule cstep.expect [where owners = "[''a'', ''b'']" and bp = "''p1''"]) (simp_all add: ExpectAt_def)
  moreover have "cstep (?c1, ?s0(''t'' := [1]), ?c0)
      (two_sent, (?s0(''t'' := [1]))(tr_Target ?r := (?s0(''t'' := [1])) (tr_Target ?r) @ [2]), ?c0)"
    by (rule cstep.expect [where owners = "[''a'']" and bp = "''p2''"]) (simp_all add: ExpectAt_def two_sent_def)
  moreover have "Deliver (Some two_sent) \<lparr>tr_Target = ''t'', tr_Owner = ''a''\<rparr> 2 ''d'' ''p2'' [] None = (Some second_in, [], True)"
    by code_simp
  then have "cstep (two_sent, (?s0(''t'' := [1]))(''t'' := [1, 2]), ?c0)
      (second_in, (?s0(''t'' := [1]))(''t'' := [1, 2]), ?c0(''t'' := ?c0 ''t'' @ []))"
    by - (drule cstep.deliver [rotated 2, where sent = "(?s0(''t'' := [1]))(''t'' := [1, 2])" and cm = ?c0], simp_all)
  ultimately show ?thesis
    by (simp add: converse_rtranclp_into_rtranclp)
qed

theorem staged_commits_in_send_order_witness:
  "map cy_Seq [] @ OpenSeqs (Some second_in) \<lparr>tr_Target = ''t'', tr_Owner = ''a''\<rparr> = [1, 2]"
  using staged_commits_in_send_order [OF two_sent_run, of "''t''" "''a''"] by simp

text \<open>
  C10: the tracker refines one queue per table. From a well-formed state, delivering leaves the queue
  and hands out the cycles that the queue operation does, touches no other table, keeps the
  poisoning and the invariant.
\<close>

theorem Deliver_refines_queue:
  assumes "cyc_wf c" "Deliver (Some c) ref sq desc pos state pending = (Some c', out, known)"
  shows "(queue_of c' (tr_Target ref), out) = q_deliver ref sq desc pos state pending (queue_of c (tr_Target ref))
    \<and> (t' \<noteq> tr_Target ref \<longrightarrow> queue_of c' t' = queue_of c t')
    \<and> cyc_wf c' \<and> IsPoisoned (Some c') t' = IsPoisoned (Some c) t'"
proof -
  have "deliver_locked c ref sq desc pos state pending = (c', out, known)"
    using assms(2) by (auto simp: Deliver_def split: prod.splits)
  from deliver_refines [OF assms(1) this] show ?thesis by (simp add: IsPoisoned_def)
qed

lemma two_sent_wf: "cyc_wf two_sent"
proof -
  let ?r = "\<lparr>tr_Target = ''t'', tr_Owner = []\<rparr>"
  have new: "ord_of New_cycles (tr_Target ?r) = []" by (simp add: ord_of_def New_cycles_def)
  have "cyc_wf (expect_locked New_cycles ?r 1 [''a'', ''b''] ''p1'')"
    by (rule cyc_wf_expect(1) [OF cyc_wf_New]) (simp only: new list.set empty_iff not_False_eq_True)
  then have "cyc_wf (expect_locked (expect_locked New_cycles ?r 1 [''a'', ''b''] ''p1'') ?r 2 [''a''] ''p2'')"
    by (rule cyc_wf_expect(1)) (use cyc_wf_expect(2) [OF cyc_wf_New] new in simp)
  then show ?thesis by (simp add: two_sent_def ExpectAt_def)
qed

theorem Deliver_refines_queue_witness:
  "cyc_wf second_in \<and> q_deliver \<lparr>tr_Target = ''t'', tr_Owner = ''a''\<rparr> 2 ''d'' ''p2'' [] None (queue_of two_sent ''t'')
     = (queue_of second_in ''t'', [])"
proof -
  have d: "Deliver (Some two_sent) \<lparr>tr_Target = ''t'', tr_Owner = ''a''\<rparr> 2 ''d'' ''p2'' [] None = (Some second_in, [], True)"
    by code_simp
  show ?thesis
    using Deliver_refines_queue [OF two_sent_wf d] by simp
qed

text \<open>
  C23: the first commit that fails ends its table for good. The cycles drained before it are
  committed, nothing after it is, the run is failed and the table poisoned. Whatever then runs on the
  tracker and the host, batches sent, windows, losses, deliveries of any table, commits and
  poisonings, in any order, the table stays poisoned: every later delivery for it, whoever sends it,
  changes neither the host nor the tracker, and no cycle of it is committed.
\<close>

theorem failed_commit_ends_table:
  assumes "ch_Epoch H h w = Some (sd_Epoch d)" "\<not> IsPoisoned (Some c) (sd_Table d)"
    and "Deliver (if sd_WindowLost d then MarkLost (Some c) \<lparr>tr_Target = sd_Table d, tr_Owner = w\<rparr> (sd_Seq d) else Some c)
           \<lparr>tr_Target = sd_Table d, tr_Owner = w\<rparr> (sd_Seq d) (sd_Descriptor d) (sd_Position d)
           (sd_SnapshotState d) (sd_SnapshotPending d) = (Some c', pre @ cy # post, True)"
    and "commits H h pre = Some h1" "commitLocked H h1 cy = (h2, Err e)"
    and "rtranclp (sstep H) (OnDelivery H h (Some c) w d) (h3, s3)"
  shows "OnDelivery H h (Some c) w d = (ch_Fail H h2 e, Poison (Some c') (sd_Table d))
    \<and> IsPoisoned s3 (sd_Table d)
    \<and> (\<forall>w' d'. sd_Table d' = sd_Table d \<longrightarrow> OnDelivery H h3 s3 w' d' = (h3, s3))
    \<and> (\<forall>cy'. tr_Target (cy_Ref cy') = sd_Table d \<longrightarrow> Commit H h3 s3 cy' = (h3, Ok ()))"
proof -
  have first: "OnDelivery H h (Some c) w d = (ch_Fail H h2 e, Poison (Some c') (sd_Table d))"
    using assms(1-5) by (simp add: OnDelivery_def commit_run_append Let_def)
  have "IsPoisoned s3 (sd_Table d)"
    using ssteps_poisoned [OF assms(6), of "sd_Table d"] first IsPoisoned_Poison by simp
  with first show ?thesis by (simp add: OnDelivery_poisoned Commit_def)
qed

text \<open>A host whose sink takes one commit and then fails.\<close>

definition failing_host :: "string list commit_host" where
  "failing_host = \<lparr>ch_Epoch = (\<lambda>h w. Some 7), ch_ParsePosition = (\<lambda>s. Some (PString s)),
     ch_DropWindow = (\<lambda>h t q l. (h, False)),
     ch_CommitStaged = (\<lambda>h r ds pos. (h @ [pos], length h < 1)),
     ch_Committed = (\<lambda>h cy p. Some h), ch_Fail = (\<lambda>h e. h @ [''failed''])\<rparr>"

definition last_share :: staged_delivery where
  "last_share = \<lparr>sd_Table = ''t'', sd_Seq = 1, sd_Epoch = 7, sd_Descriptor = ''d'', sd_Position = ''p1'',
     sd_SnapshotState = [], sd_SnapshotPending = None, sd_WindowLost = False\<rparr>"

definition one_left :: cycles where
  "one_left = the (fst (Deliver (Some second_in) \<lparr>tr_Target = ''t'', tr_Owner = ''b''\<rparr> 1 ''d'' ''p1'' [] None))"

definition all_in :: "cycles \<times> cycle \<times> cycle" where
  "all_in = (case Deliver (Some one_left) \<lparr>tr_Target = ''t'', tr_Owner = ''a''\<rparr> 1 ''d'' ''p1'' [] None of
     (s, out, k) \<Rightarrow> (the s, out ! 0, out ! 1))"

theorem failed_commit_ends_table_witness:
  "OnDelivery failing_host [] (Some one_left) ''a'' last_share
     = ([''p1'', ''p2'', ''failed''], Poison (Some (fst all_in)) ''t'')
   \<and> (let s = ExpectAt (Poison (Some (fst all_in)) ''t'') \<lparr>tr_Target = ''t'', tr_Owner = []\<rparr> 3 [''b''] ''p3''
      in OnDelivery failing_host [] s ''b'' (last_share\<lparr>sd_Seq := 3\<rparr>) = ([], s))"
proof -
  have f: "sd_Table last_share = ''t''" "ch_Fail failing_host [''p1'', ''p2''] CommitSinkErr = [''p1'', ''p2'', ''failed'']"
    by code_simp+
  have 1: "ch_Epoch failing_host [] ''a'' = Some (sd_Epoch last_share)" by code_simp
  have 2: "\<not> IsPoisoned (Some one_left) (sd_Table last_share)" by code_simp
  have 3: "Deliver (if sd_WindowLost last_share then MarkLost (Some one_left) \<lparr>tr_Target = sd_Table last_share, tr_Owner = ''a''\<rparr>
          (sd_Seq last_share) else Some one_left)
      \<lparr>tr_Target = sd_Table last_share, tr_Owner = ''a''\<rparr> (sd_Seq last_share)
      (sd_Descriptor last_share) (sd_Position last_share) (sd_SnapshotState last_share) (sd_SnapshotPending last_share)
      = (Some (fst all_in), [fst (snd all_in)] @ snd (snd all_in) # [], True)" by code_simp
  have 4: "commits failing_host [] [fst (snd all_in)] = Some [''p1'']" by code_simp
  have 5: "commitLocked failing_host [''p1''] (snd (snd all_in)) = ([''p1'', ''p2''], Err CommitSinkErr)" by code_simp
  let ?s = "ExpectAt (Poison (Some (fst all_in)) ''t'') \<lparr>tr_Target = ''t'', tr_Owner = []\<rparr> 3 [''b''] ''p3''"
  note first = failed_commit_ends_table [OF 1 2 3 4 5, unfolded f]
  have run: "OnDelivery failing_host [] (Some one_left) ''a'' last_share
     = ([''p1'', ''p2'', ''failed''], Poison (Some (fst all_in)) ''t'')"
    using first [of "fst (OnDelivery failing_host [] (Some one_left) ''a'' last_share)"
        "snd (OnDelivery failing_host [] (Some one_left) ''a'' last_share)"] by simp
  have "rtranclp (sstep failing_host) (OnDelivery failing_host [] (Some one_left) ''a'' last_share) ([''p1'', ''p2'', ''failed''], ?s)"
    unfolding run by (rule r_into_rtranclp) (rule sstep.expect)
  then have "rtranclp (sstep failing_host) (OnDelivery failing_host [] (Some one_left) ''a'' last_share) ([], ?s)"
    by (rule rtranclp.rtrancl_into_rtrancl) (rule sstep.host)
  from first [OF this] run f(1) show ?thesis by (simp add: Let_def)
qed

text \<open>
  The position a cycle commits never passes what its owners made durable. A snapshot window commits
  none; a cycle of one source batch commits the batch's own position; any other commits a position
  every delivered position of the cycle contains.
\<close>

theorem CommitPosition_is_safe:
  assumes "\<forall>s v. parse s = Some v \<longrightarrow> of_kind k v" "CommitPosition parse cy = Ok pos"
  shows "(cy_Window cy \<longrightarrow> pos = [])
    \<and> (\<not> cy_Window cy \<longrightarrow> cy_BatchPos cy \<noteq> [] \<longrightarrow> pos = cy_BatchPos cy)
    \<and> (\<not> cy_Window cy \<longrightarrow> cy_BatchPos cy = [] \<longrightarrow> (\<exists>s \<in> set (cy_Positions cy). s \<noteq> []) \<longrightarrow>
         (\<exists>m. pos = pos_String m \<and> (\<forall>s \<in> set (cy_Positions cy). s \<noteq> [] \<longrightarrow> (\<exists>v. parse s = Some v \<and> pos_le m v))))"
proof -
  have "cy_Window cy \<longrightarrow> pos = []" "\<not> cy_Window cy \<longrightarrow> cy_BatchPos cy \<noteq> [] \<longrightarrow> pos = cy_BatchPos cy"
    using assms(2) by (auto simp: CommitPosition_def)
  moreover have "\<not> cy_Window cy \<longrightarrow> cy_BatchPos cy = [] \<longrightarrow> (\<exists>s \<in> set (cy_Positions cy). s \<noteq> []) \<longrightarrow>
      (\<exists>m. pos = pos_String m \<and> (\<forall>s \<in> set (cy_Positions cy). s \<noteq> [] \<longrightarrow> (\<exists>v. parse s = Some v \<and> pos_le m v)))"
  proof (intro impI)
    let ?ps = "filter (\<lambda>s. s \<noteq> []) (cy_Positions cy)"
    assume "\<not> cy_Window cy" "cy_BatchPos cy = []" and ne: "\<exists>s \<in> set (cy_Positions cy). s \<noteq> []"
    with assms(2) obtain vals om where v: "those (map parse ?ps) = Some vals" "MinSafe vals = Ok om"
      and pos: "pos = (case om of None \<Rightarrow> [] | Some m \<Rightarrow> pos_String m)"
      by (auto simp: CommitPosition_def MinSafePosition_def split: option.splits res.splits)
    have vals: "map parse ?ps = map Some vals" using v(1) by (rule those_SomeD)
    have "?ps \<noteq> []" using ne by (auto simp: filter_empty_conv)
    with vals have "vals \<noteq> []" by auto
    with v(2) obtain m where m: "om = Some m" using pk.minsafe_none by (cases om) auto
    have kinds: "\<forall>p\<in>set vals. of_kind k p" by (rule those_map_all [OF v(1)]) (use assms(1) in blast)
    have le: "\<forall>p\<in>set vals. pos_le m p" using pk.minsafe_glb(2) [OF _ kinds] v(2) m by simp
    have "\<exists>v. parse s = Some v \<and> pos_le m v" if "s \<in> set (cy_Positions cy)" "s \<noteq> []" for s
    proof -
      have "parse s \<in> set (map Some vals)" using that vals [symmetric] by simp
      then show ?thesis using le by auto
    qed
    with pos m show "\<exists>m. pos = pos_String m \<and>
        (\<forall>s \<in> set (cy_Positions cy). s \<noteq> [] \<longrightarrow> (\<exists>v. parse s = Some v \<and> pos_le m v))" by auto
  qed
  ultimately show ?thesis by blast
qed

definition pg_parse :: "string \<Rightarrow> position option" where
  "pg_parse s = (case Parse (kind_name KLSN) s of Ok p \<Rightarrow> Some p | _ \<Rightarrow> None)"

lemma pg_parse_kind: "\<forall>s v. pg_parse s = Some v \<longrightarrow> of_kind KLSN v"
  using Parse_of_kind [of KLSN] by (auto simp: pg_parse_def split: res.splits)

lemma pg_parse_String: "pg_parse (LSN_String l) = Some (PLSN l)"
  by (simp add: pg_parse_def Parse_def map_res_def ParseLSN_String)

lemma LSN_String_not_Nil: "LSN_String l \<noteq> []"
  by (simp add: LSN_String_def)

definition merged_cycle :: cycle where
  "merged_cycle = (new_cycle \<lparr>tr_Target = ''t'', tr_Owner = []\<rparr> 1 [''a'', ''b''] [])
     \<lparr>cy_Positions := [LSN_String 9, [], LSN_String 5]\<rparr>"

theorem CommitPosition_is_safe_witness:
  "\<exists>m. LSN_String 5 = pos_String m \<and> pos_le m (PLSN 9)"
proof -
  have w: "\<not> cy_Window merged_cycle" "cy_BatchPos merged_cycle = []"
    "cy_Positions merged_cycle = [LSN_String 9, [], LSN_String 5]"
    by (simp_all add: merged_cycle_def new_cycle_def)
  have min: "MinSafe [PLSN 9, PLSN 5] = Ok (Some (PLSN 5))" by code_simp
  have c: "CommitPosition pg_parse merged_cycle = Ok (LSN_String 5)"
    using min by (simp add: CommitPosition_def MinSafePosition_def w LSN_String_not_Nil pg_parse_String)
  show ?thesis
    using CommitPosition_is_safe [OF pg_parse_kind c] w LSN_String_not_Nil pg_parse_String by auto
qed

end
