(* ===== verification/Staged_Commit.thy ===== *)
theory Staged_Commit
  imports Flow Snapshot_Plan Staged_Cycles
begin

text \<open>
  \<open>internal/coordinator/staged.go\<close>: the coordinator as the host of staged commits. It joins the cycle
  tracker, the fan-out passes, the confirmed positions and flow control; the sink is a function over
  its own state. The lemmas show that a worker's position is confirmed only after the sink took the
  commit that carries it, and that releasing a committed cycle keeps the budget's books.
\<close>

section \<open>The host\<close>

record ('v, 's) staged_coord =
  sc_flow :: "'v flow"
  sc_confirmed :: positions
  sc_fanout :: fanout_passes
  sc_terminate :: "commit_err option"
  sc_sink :: 's

type_synonym 's staged_sink = "'s \<Rightarrow> table_ref \<Rightarrow> string list \<Rightarrow> string \<Rightarrow> 's \<times> bool"

definition host_Epoch :: "('v, 's) staged_coord \<Rightarrow> string \<Rightarrow> u64 option" where
  "host_Epoch st worker = map_of (fl_epoch (sc_flow st)) worker"

definition host_DropWindow ::
  "('v, 's) staged_coord \<Rightarrow> string \<Rightarrow> u64 \<Rightarrow> bool \<Rightarrow> ('v, 's) staged_coord \<times> bool" where
  "host_DropWindow st target sq lost =
     (case fp_Resolve (sc_fanout st) target sq lost of
        (f, dropped) \<Rightarrow> (st\<lparr>sc_fanout := f\<rparr>, dropped))"

definition host_CommitStaged ::
  "'s staged_sink \<Rightarrow> ('v, 's) staged_coord \<Rightarrow> table_ref \<Rightarrow> string list \<Rightarrow> string \<Rightarrow> ('v, 's) staged_coord \<times> bool" where
  "host_CommitStaged snk st ref descriptors pos =
     (if \<not> fl_stages (sc_flow st) then (st, False)
      else case snk (sc_sink st) ref descriptors pos of (s, ok) \<Rightarrow> (st\<lparr>sc_sink := s\<rparr>, ok))"

definition record_owners :: "positions \<Rightarrow> (string, bool) gomap \<Rightarrow> position \<Rightarrow> positions" where
  "record_owners ps owners p = foldl (\<lambda>c (owner, _). Record c owner (Some p)) ps owners"

definition host_Committed :: "('v, 's) staged_coord \<Rightarrow> cycle \<Rightarrow> position \<Rightarrow> ('v, 's) staged_coord option" where
  "host_Committed st cy p =
     map_option (\<lambda>f. st\<lparr>sc_confirmed := record_owners (sc_confirmed st) (cy_Owners cy) p, sc_flow := f\<rparr>)
       (releaseCommittedCycles (sc_flow st) (tr_Target (cy_Ref cy)) p)"

text \<open>The terminate channel holds one error; a later one is dropped while it is pending.\<close>

definition host_Fail :: "('v, 's) staged_coord \<Rightarrow> commit_err \<Rightarrow> ('v, 's) staged_coord" where
  "host_Fail st e = st\<lparr>sc_terminate := (case sc_terminate st of None \<Rightarrow> Some e | Some e' \<Rightarrow> Some e')\<rparr>"

definition stagedHost :: "pos_kind \<Rightarrow> 's staged_sink \<Rightarrow> ('v, 's) staged_coord commit_host" where
  "stagedHost k snk =
     \<lparr>ch_Epoch = host_Epoch, ch_ParsePosition = source_ParsePosition k, ch_DropWindow = host_DropWindow,
      ch_CommitStaged = host_CommitStaged snk, ch_Committed = host_Committed, ch_Fail = host_Fail\<rparr>"

definition onStagedBatch ::
  "pos_kind \<Rightarrow> 's staged_sink \<Rightarrow> ('v, 's) staged_coord \<Rightarrow> cycles option \<Rightarrow> string \<Rightarrow> staged_delivery option \<Rightarrow>
   ('v, 's) staged_coord \<times> cycles option" where
  "onStagedBatch k snk st trk worker sb =
     (case sb of None \<Rightarrow> (st, trk) | Some d \<Rightarrow> OnDelivery (stagedHost k snk) st trk worker d)"

definition commitStagedCycle ::
  "pos_kind \<Rightarrow> 's staged_sink \<Rightarrow> ('v, 's) staged_coord \<Rightarrow> cycles option \<Rightarrow> cycle \<Rightarrow>
   ('v, 's) staged_coord \<times> (commit_err, unit) res" where
  "commitStagedCycle k snk st trk cy = Commit (stagedHost k snk) st trk cy"

lemma stagedHost_sel:
  "ch_Epoch (stagedHost k snk) = host_Epoch" "ch_ParsePosition (stagedHost k snk) = source_ParsePosition k"
  "ch_DropWindow (stagedHost k snk) = host_DropWindow" "ch_CommitStaged (stagedHost k snk) = host_CommitStaged snk"
  "ch_Committed (stagedHost k snk) = host_Committed" "ch_Fail (stagedHost k snk) = host_Fail"
  by (simp_all add: stagedHost_def)

section \<open>What is confirmed was committed\<close>

text \<open>\<open>logging\<close> adds to a sink the list of the commits it took; it changes no answer.\<close>

type_synonym commit_log = "(table_ref \<times> string list \<times> string) list"

definition logging :: "'s staged_sink \<Rightarrow> ('s \<times> commit_log) staged_sink" where
  "logging snk = (\<lambda>(s, l) ref ds pos. case snk s ref ds pos of
     (s', ok) \<Rightarrow> ((s', if ok then l @ [(ref, ds, pos)] else l), ok))"

lemma Of_worker_Record: "Of_worker (Record c w (Some p)) v = (if v = w then Some p else Of_worker c v)"
  by (simp add: Record_def set_worker_def Of_worker_def)

lemma record_owners_at:
  "Of_worker (record_owners c owners p) v = (if v \<in> fst ` set owners then Some p else Of_worker c v)"
proof (induction owners arbitrary: c)
  case (Cons o' owners)
  obtain w b where "o' = (w, b)" by (cases o')
  then show ?case using Cons.IH [of "Record c w (Some p)"] by (auto simp: record_owners_def Of_worker_Record)
qed (simp add: record_owners_def)

text \<open>
  \<open>backed k st st'\<close>: from \<open>st\<close> to \<open>st'\<close> the log of table \<open>t\<close>'s commits grew, and every confirmed
  position that changed is the position of one of the new entries.
\<close>

definition backed :: "pos_kind \<Rightarrow> ('v, 's \<times> commit_log) staged_coord \<Rightarrow> ('v, 's \<times> commit_log) staged_coord \<Rightarrow> bool" where
  "backed k st st' \<longleftrightarrow>
     (\<exists>new. snd (sc_sink st') = snd (sc_sink st) @ new \<and>
        (\<forall>w. Of_worker (sc_confirmed st') w = Of_worker (sc_confirmed st) w
           \<or> (\<exists>e \<in> set new. source_ParsePosition k (snd (snd e)) = Of_worker (sc_confirmed st') w)))"

lemma backed_refl: "snd (sc_sink st') = snd (sc_sink st) \<Longrightarrow> sc_confirmed st' = sc_confirmed st \<Longrightarrow> backed k st st'"
  by (simp add: backed_def)

lemma backed_trans:
  assumes "backed k a b" "backed k b c"
  shows "backed k a c"
proof -
  obtain n1 where n1: "snd (sc_sink b) = snd (sc_sink a) @ n1"
    "\<And>w. Of_worker (sc_confirmed b) w = Of_worker (sc_confirmed a) w
       \<or> (\<exists>e \<in> set n1. source_ParsePosition k (snd (snd e)) = Of_worker (sc_confirmed b) w)"
    using assms(1) unfolding backed_def by blast
  obtain n2 where n2: "snd (sc_sink c) = snd (sc_sink b) @ n2"
    "\<And>w. Of_worker (sc_confirmed c) w = Of_worker (sc_confirmed b) w
       \<or> (\<exists>e \<in> set n2. source_ParsePosition k (snd (snd e)) = Of_worker (sc_confirmed c) w)"
    using assms(2) unfolding backed_def by blast
  have "Of_worker (sc_confirmed c) w = Of_worker (sc_confirmed a) w
       \<or> (\<exists>e \<in> set (n1 @ n2). source_ParsePosition k (snd (snd e)) = Of_worker (sc_confirmed c) w)" for w
    using n1(2) [of w] n2(2) [of w] unfolding set_append by (metis Un_iff)
  then show ?thesis
    unfolding backed_def using n1(1) n2(1) by (intro exI [of _ "n1 @ n2"]) auto
qed

text \<open>What every committed cycle keeps: the books, and that confirmed positions are backed.\<close>

definition sc_ok :: "pos_kind \<Rightarrow> (string \<Rightarrow> int) \<Rightarrow> ('v, 's) staged_coord \<Rightarrow> bool" where
  "sc_ok k extra st \<longleftrightarrow> flow_ok k extra (sc_flow st)"

lemma host_Committed_ok:
  assumes "sc_ok k extra st" "of_kind k p"
  shows "\<exists>f. host_Committed st cy p =
      Some (st\<lparr>sc_confirmed := record_owners (sc_confirmed st) (cy_Owners cy) p, sc_flow := f\<rparr>) \<and> flow_ok k extra f"
  using release_owners_ok [of k extra "sc_flow st" p] assms
  by (fastforce simp: host_Committed_def releaseCommittedCycles_def sc_ok_def)

lemma commitLocked_after_drop:
  assumes "(if cy_Window cy then host_DropWindow st (tr_Target (cy_Ref cy)) (cy_Seq cy) (cy_Lost cy) else (st, False)) = (st1, dropped)"
  shows "commitLocked (stagedHost k snk) st cy =
    (if dropped then (st1, Ok ())
     else case CommitPosition (source_ParsePosition k) cy of
            Err e \<Rightarrow> (st1, Err e)
          | Panic \<Rightarrow> (st1, Panic)
          | Ok pos \<Rightarrow>
              (case host_CommitStaged snk st1 (cy_Ref cy) (cy_Descriptors cy) pos of
                 (st2, ok) \<Rightarrow>
                   if \<not> ok then (st2, Err CommitSinkErr)
                   else if pos = [] then (st2, Ok ())
                   else (case source_ParsePosition k pos of
                           None \<Rightarrow> (st2, Ok ())
                         | Some p \<Rightarrow> (case host_Committed st2 cy p of
                                        None \<Rightarrow> (st2, Panic)
                                      | Some st3 \<Rightarrow> (st3, Ok ())))))"
  unfolding commitLocked_def stagedHost_sel assms by simp

lemma host_CommitStaged_logging:
  assumes "sc_sink st = (s, l)" "host_CommitStaged (logging snk) st ref ds pos = (st', ok)"
  shows "sc_flow st' = sc_flow st" "sc_confirmed st' = sc_confirmed st"
    "snd (sc_sink st') = (if ok then l @ [(ref, ds, pos)] else l)"
  using assms by (auto simp: host_CommitStaged_def logging_def split: if_splits prod.splits)

lemma commitLocked_backed:
  assumes ok: "sc_ok k extra st" and run: "commitLocked (stagedHost k (logging snk)) st cy = (st', r)"
  shows "sc_ok k extra st' \<and> backed k st st' \<and> (r = Panic \<longrightarrow> CommitPosition (source_ParsePosition k) cy = Panic)"
proof -
  obtain st1 dropped where d: "(if cy_Window cy then host_DropWindow st (tr_Target (cy_Ref cy)) (cy_Seq cy) (cy_Lost cy)
      else (st, False)) = (st1, dropped)" by fastforce
  have st1: "sc_flow st1 = sc_flow st" "sc_confirmed st1 = sc_confirmed st" "sc_sink st1 = sc_sink st"
    using d by (auto simp: host_DropWindow_def split: if_splits prod.splits)
  have ok1: "sc_ok k extra st1" using ok st1 by (simp add: sc_ok_def)
  have b1: "backed k st st1" using st1 by (intro backed_refl) simp_all
  note eq = commitLocked_after_drop [OF d, of k "logging snk"]
  show ?thesis
  proof (cases "dropped \<or> (\<forall>pos. CommitPosition (source_ParsePosition k) cy \<noteq> Ok pos)")
    case True
    then have "st' = st1 \<and> (r = Panic \<longrightarrow> CommitPosition (source_ParsePosition k) cy = Panic)"
      using run unfolding eq by (auto split: res.splits if_splits)
    with ok1 b1 show ?thesis by simp
  next
    case False
    then obtain pos where pos: "CommitPosition (source_ParsePosition k) cy = Ok pos" and nd: "\<not> dropped" by auto
    obtain s l where sl: "sc_sink st1 = (s, l)" by fastforce
    obtain st2 ok' where cs: "host_CommitStaged (logging snk) st1 (cy_Ref cy) (cy_Descriptors cy) pos = (st2, ok')" by fastforce
    note st2 = host_CommitStaged_logging [OF sl cs]
    have ok2: "sc_ok k extra st2" using ok1 st2(1) by (simp add: sc_ok_def)
    have b2: "backed k st1 st2" using st2 sl by (simp add: backed_def)
    note b12 = backed_trans [OF b1 b2]
    show ?thesis
    proof (cases "ok' \<and> pos \<noteq> [] \<and> source_ParsePosition k pos \<noteq> None")
      case False
      then have "st' = st2 \<and> r \<noteq> Panic"
        using run nd pos cs unfolding eq by (auto split: option.splits if_splits)
      with ok2 b12 show ?thesis by simp
    next
      case True
      then obtain p where p: "source_ParsePosition k pos = Some p" by auto
      obtain f where f: "host_Committed st2 cy p =
          Some (st2\<lparr>sc_confirmed := record_owners (sc_confirmed st2) (cy_Owners cy) p, sc_flow := f\<rparr>)" "flow_ok k extra f"
        using host_Committed_ok [OF ok2 source_ParsePosition_kind [OF p]] by blast
      have res: "r = Ok ()" "st' = st2\<lparr>sc_confirmed := record_owners (sc_confirmed st2) (cy_Owners cy) p, sc_flow := f\<rparr>"
        using run nd pos cs p f(1) True unfolding eq by simp_all
      have "backed k st1 st'"
        using sl st2 p True unfolding backed_def res(2)
        by (intro exI [of _ "[(cy_Ref cy, cy_Descriptors cy, pos)]"]) (simp add: record_owners_at)
      with res f(2) backed_trans [OF b1] show ?thesis by (simp add: sc_ok_def)
    qed
  qed
qed

lemma MinSafePosition_no_panic: "MinSafePosition (source_ParsePosition k) ps \<noteq> Panic"
proof
  let ?ps = "filter (\<lambda>s. s \<noteq> []) ps"
  assume "MinSafePosition (source_ParsePosition k) ps = Panic"
  then obtain vals where v: "those (map (source_ParsePosition k) ?ps) = Some vals" "MinSafe vals = Panic"
    by (auto simp: MinSafePosition_def split: option.splits res.splits)
  have "\<forall>p\<in>set vals. of_kind k p" by (rule those_map_all [OF v(1) source_ParsePosition_kind])
  from pk.minsafe_no_panic [OF this] v(2) show False by simp
qed

lemma CommitPosition_no_panic: "CommitPosition (source_ParsePosition k) cy \<noteq> Panic"
  using MinSafePosition_no_panic by (simp add: CommitPosition_def)

lemma commit_run_backed:
  "sc_ok k extra st \<Longrightarrow> commit_run (stagedHost k (logging snk)) st trk t cys = (st', trk') \<Longrightarrow>
     sc_ok k extra st' \<and> backed k st st'"
proof (induction cys arbitrary: st)
  case Nil
  then show ?case by (simp add: backed_refl)
next
  case (Cons cy cys)
  let ?H = "stagedHost k (logging snk)"
  obtain st1 r where c: "commitLocked ?H st cy = (st1, r)" by fastforce
  note one = commitLocked_backed [OF Cons.prems(1) c]
  show ?case
  proof (cases r)
    case (Ok u)
    with Cons.prems(2) c have "commit_run ?H st1 trk t cys = (st', trk')" by simp
    with Cons.IH [of st1] one show ?thesis by (auto intro: backed_trans)
  next
    case (Err e)
    with Cons.prems(2) c have st': "st' = host_Fail st1 e" by (simp add: stagedHost_sel)
    have "backed k st1 st'" unfolding st' by (rule backed_refl) (simp_all add: host_Fail_def)
    moreover have "sc_ok k extra st'" using one by (simp add: st' sc_ok_def host_Fail_def)
    ultimately show ?thesis using one by (blast intro: backed_trans)
  next
    case Panic
    with one CommitPosition_no_panic show ?thesis by blast
  qed
qed

section \<open>Properties\<close>

text \<open>
  C11: handling a staged delivery, whatever it is and however the sink answers, keeps flow control's books
  and confirms only what is durable: a worker's confirmed position changes only to the position of a
  commit the sink took while this delivery was handled.
\<close>

theorem staged_confirms_only_commits:
  assumes "flow_ok k extra (sc_flow st)"
    and "onStagedBatch k (logging snk) st trk w d = (st', trk')"
  shows "flow_ok k extra (sc_flow st') \<and> (\<exists>new. snd (sc_sink st') = snd (sc_sink st) @ new \<and>
           (\<forall>v. Of_worker (sc_confirmed st') v = Of_worker (sc_confirmed st) v
             \<or> (\<exists>e \<in> set new. source_ParsePosition k (snd (snd e)) = Of_worker (sc_confirmed st') v)))"
proof -
  have ok: "sc_ok k extra st" using assms(1) by (simp add: sc_ok_def)
  have refl: "backed k st st" by (simp add: backed_refl)
  have "sc_ok k extra st' \<and> backed k st st'"
  proof (cases d)
    case None
    with assms(2) ok refl show ?thesis by (simp add: onStagedBatch_def)
  next
    case (Some dl)
    with assms(2) have "OnDelivery (stagedHost k (logging snk)) st trk w dl = (st', trk')" by (simp add: onStagedBatch_def)
    with ok refl show ?thesis
      unfolding OnDelivery_def Let_def by (auto dest: commit_run_backed [OF ok] split: option.splits if_splits prod.splits)
  qed
  then show ?thesis by (simp add: sc_ok_def backed_def)
qed

text \<open>A worker of generation 7 delivers the missing share; the sink takes the commit.\<close>

definition steady :: "(unit, unit \<times> commit_log) staged_coord" where
  "steady = \<lparr>sc_flow = sample_flow\<lparr>fl_epoch := [(''a'', 7)], fl_stages := True\<rparr>, sc_confirmed = Positions_zero,
     sc_fanout = [], sc_terminate = None, sc_sink = ((), [])\<rparr>"

definition taking :: "unit staged_sink" where
  "taking s ref ds pos = ((), True)"

lemma steady_ok: "flow_ok KLSN (\<lambda>w. 0) (sc_flow steady)"
  by (simp add: steady_def sample_flow_def flow_ok_def gm_wf_def NewPositionIndex_def px_kind_def
      Budget_InFlight_def NewBudget_def window_bytes_def ix_Of_def gm_at_def)

definition open_cycle :: cycles where
  "open_cycle = the (ExpectAt (Some New_cycles) \<lparr>tr_Target = ''t'', tr_Owner = []\<rparr> 1 [''a''] (LSN_String 5))"

theorem staged_confirms_only_commits_witness:
  "\<exists>st' trk'. onStagedBatch KLSN (logging taking) steady (Some open_cycle) ''a'' (Some last_share) = (st', trk')
     \<and> flow_ok KLSN (\<lambda>w. 0) (sc_flow st')"
  using staged_confirms_only_commits [OF steady_ok, of taking "Some open_cycle" "''a''" "Some last_share"]
  by (metis prod.collapse)

end
