(* ===== verification/Routing_Keys.thy ===== *)
theory Routing_Keys
  imports Partition
begin

text \<open>
  \<open>internal/routing/routing.go\<close>: which worker owns a primary key. A key is encoded canonically, hashed to
  a slot, and the slot's owner is the worker of greatest rendezvous weight. Bytes are characters;
  the hash (\<open>xxhash\<close>), a float's equality with zero and its bits are parameters. A \<open>Router\<close>'s reused buffer
  and digest are not state: each call resets them.

  The lemmas show that the encoding separates exactly the different keys, whatever integer width they
  were decoded at, that an owner set that loses workers moves only the keys of the workers it lost,
  and that the caching router gives the answers of the plain function.
\<close>

section \<open>The canonical encoding\<close>

record 'f key_ops =
  ko_floats :: "'f float_ops"
  ko_isZero :: "'f \<Rightarrow> bool"
  ko_bits :: "'f \<Rightarrow> u64"

definition be_bytes :: "nat \<Rightarrow> nat \<Rightarrow> string" where
  "be_bytes k n = map (\<lambda>i. char_of (n div 256 ^ (k - 1 - i))) [0..<k]"

definition Slots :: nat where
  "Slots = 4096"

definition hashVersion :: nat where
  "hashVersion = 1"

definition seedPrefix :: string where
  "seedPrefix = ''urutau'' @ [char_of hashVersion]"

definition tagBool :: char where "tagBool = char_of (1 :: nat)"

definition tagInt :: char where "tagInt = char_of (2 :: nat)"

definition tagFloat :: char where "tagFloat = char_of (3 :: nat)"

definition tagString :: char where "tagString = char_of (4 :: nat)"

definition tagBytes :: char where "tagBytes = char_of (5 :: nat)"

definition tagTime :: char where "tagTime = char_of (6 :: nat)"

definition magnitude :: "64 word \<Rightarrow> bool \<Rightarrow> u64" where
  "magnitude v neg = (if \<not> neg then v else - (v + 1) + 1)"

definition encodeInteger :: "bool \<Rightarrow> u64 \<Rightarrow> string" where
  "encodeInteger neg mag = char_of (if neg then 1 else 0 :: nat) # be_bytes 8 (unat mag)"

definition encode_signed :: "64 word \<Rightarrow> string" where
  "encode_signed v = encodeInteger (v <s 0) (magnitude v (v <s 0))"

definition encodeFloat :: "'f key_ops \<Rightarrow> 'f \<Rightarrow> string" where
  "encodeFloat K f =
     (let f' = (if ko_isZero K f then f_of_int (ko_floats K) 0 else f)
      in be_bytes 8 (unat (ko_bits K f')))"

fun encodeValue :: "'f key_ops \<Rightarrow> 'f cell \<Rightarrow> (char \<times> string) option" where
  "encodeValue K (CBool t) = Some (tagBool, [char_of (if t then 1 else 0 :: nat)])"
| "encodeValue K (CInt t) = Some (tagInt, encode_signed t)"
| "encodeValue K (CInt8 t) = Some (tagInt, encode_signed (scast t))"
| "encodeValue K (CInt16 t) = Some (tagInt, encode_signed (scast t))"
| "encodeValue K (CInt32 t) = Some (tagInt, encode_signed (scast t))"
| "encodeValue K (CInt64 t) = Some (tagInt, encode_signed t)"
| "encodeValue K (CUint t) = Some (tagInt, encodeInteger False t)"
| "encodeValue K (CUint8 t) = Some (tagInt, encodeInteger False (ucast t))"
| "encodeValue K (CUint16 t) = Some (tagInt, encodeInteger False (ucast t))"
| "encodeValue K (CUint32 t) = Some (tagInt, encodeInteger False (ucast t))"
| "encodeValue K (CUint64 t) = Some (tagInt, encodeInteger False t)"
| "encodeValue K (CFloat32 t) = Some (tagFloat, encodeFloat K t)"
| "encodeValue K (CFloat64 t) = Some (tagFloat, encodeFloat K t)"
| "encodeValue K (CString t) = Some (tagString, t)"
| "encodeValue K (CBytes t) = Some (tagBytes, t)"
| "encodeValue K (CTime n) = Some (tagTime, be_bytes 8 (unat (word_of_int n :: u64)))"
| "encodeValue K CNil = None"
| "encodeValue K COther = None"

datatype route_err = EmptyKey | NullColumn nat | UnsupportedColumn nat | NoOwner

definition frame :: "char \<times> string \<Rightarrow> string" where
  "frame tp = fst tp # be_bytes 4 (length (snd tp)) @ snd tp"

text \<open>The loop of \<open>appendKey\<close> from column \<open>i\<close> on.\<close>

fun append_cols :: "'f key_ops \<Rightarrow> nat \<Rightarrow> string \<Rightarrow> 'f pkey \<Rightarrow> (route_err, string) res" where
  "append_cols K i buf [] = Ok buf"
| "append_cols K i buf (v # vs) =
     (if v = CNil then Err (NullColumn i)
      else case encodeValue K v of
             None \<Rightarrow> Err (UnsupportedColumn i)
           | Some tp \<Rightarrow> append_cols K (Suc i) (buf @ frame tp) vs)"

definition appendKey :: "'f key_ops \<Rightarrow> string \<Rightarrow> 'f pkey \<Rightarrow> (route_err, string) res" where
  "appendKey K buf k = (if k = [] then Err EmptyKey else append_cols K 0 buf k)"

definition EncodeKey :: "'f key_ops \<Rightarrow> 'f pkey \<Rightarrow> (route_err, string) res" where
  "EncodeKey K k = appendKey K [] k"

section \<open>Slots and owners\<close>

type_synonym hash64 = "string \<Rightarrow> u64"

definition SlotOfKey :: "hash64 \<Rightarrow> string \<Rightarrow> u32" where
  "SlotOfKey H encoded = ucast (H (seedPrefix @ encoded) mod of_nat Slots)"

definition Slot :: "hash64 \<Rightarrow> 'f key_ops \<Rightarrow> 'f pkey \<Rightarrow> (route_err, u32) res" where
  "Slot H K k = res_bind (EncodeKey K k) (\<lambda>enc. Ok (SlotOfKey H enc))"

definition rendezvousWeight :: "hash64 \<Rightarrow> string \<Rightarrow> string \<Rightarrow> u64" where
  "rendezvousWeight H slotBytes worker = H (seedPrefix @ slotBytes @ [char_of (0 :: nat)] @ worker)"

text \<open>The loop of \<open>Owner\<close>: the best index, its weight and its name so far, then the rest from index \<open>i\<close>.\<close>

fun best_from :: "(string \<Rightarrow> u64) \<Rightarrow> nat \<Rightarrow> u64 \<Rightarrow> string \<Rightarrow> nat \<Rightarrow> string list \<Rightarrow> nat" where
  "best_from weight bi best name i [] = bi"
| "best_from weight bi best name i (v # vs) =
     (let w = weight v in
      if w > best \<or> (w = best \<and> v < name) then best_from weight i w v (Suc i) vs
      else best_from weight bi best name (Suc i) vs)"

definition slot_Owner :: "hash64 \<Rightarrow> u32 \<Rightarrow> string list \<Rightarrow> int" where
  "slot_Owner H slot workers =
     (case workers of
        [] \<Rightarrow> - 1
      | w # ws \<Rightarrow> (let weight = rendezvousWeight H (be_bytes 4 (unat slot))
                  in int (best_from weight 0 (weight w) w 1 ws)))"

definition OwnerOfKey :: "hash64 \<Rightarrow> 'f key_ops \<Rightarrow> 'f pkey \<Rightarrow> string list \<Rightarrow> (route_err, int) res" where
  "OwnerOfKey H K k workers = res_bind (EncodeKey K k) (\<lambda>enc. Ok (slot_Owner H (SlotOfKey H enc) workers))"

section \<open>The caching router\<close>

record router =
  rt_workers :: "string list"
  rt_owner :: "(u32, 32 word) gomap"

definition NewRouter :: "string list \<Rightarrow> router" where
  "NewRouter workers = \<lparr>rt_workers = workers, rt_owner = []\<rparr>"

definition Router_OwnerOfKey :: "hash64 \<Rightarrow> 'f key_ops \<Rightarrow> router \<Rightarrow> 'f pkey \<Rightarrow> router \<times> (route_err, int) res" where
  "Router_OwnerOfKey H K r k =
     (case appendKey K [] k of
        Err e \<Rightarrow> (r, Err e)
      | Panic \<Rightarrow> (r, Panic)
      | Ok enc \<Rightarrow>
          (let slot = ucast (H (seedPrefix @ enc) mod of_nat Slots);
               o1 = gm_at 0 (rt_owner r) slot
           in if o1 \<noteq> 0 then (r, Ok (sint o1 - 1))
              else (let ow = slot_Owner H slot (rt_workers r)
                    in (if ow \<ge> 0 then r\<lparr>rt_owner := gm_put slot (word_of_int ow + 1) (rt_owner r)\<rparr> else r, Ok ow))))"

text \<open>The row loop of \<open>enqueuePartitioned\<close>: one router for the whole batch, stopped by the first error.\<close>

fun route_rows :: "hash64 \<Rightarrow> 'f key_ops \<Rightarrow> router \<Rightarrow> 'f pkey list \<Rightarrow> (route_err, int list) res" where
  "route_rows H K r [] = Ok []"
| "route_rows H K r (k # ks) =
     (case Router_OwnerOfKey H K r k of
        (r', Ok p) \<Rightarrow> if p < 0 then Err NoOwner else res_bind (route_rows H K r' ks) (\<lambda>ps. Ok (p # ps))
      | (r', Err e) \<Rightarrow> Err e
      | (r', Panic) \<Rightarrow> Panic)"

section \<open>The encoding is injective\<close>

lemma length_be_bytes [simp]: "length (be_bytes k n) = k"
  by (simp add: be_bytes_def)

lemma be_bytes_Suc: "be_bytes (Suc k) n = char_of (n div 256 ^ k) # be_bytes k n"
proof -
  have "[0..<Suc k] = 0 # map Suc [0..<k]" by (simp add: map_Suc_upt upt_conv_Cons)
  then show ?thesis by (simp add: be_bytes_def comp_def)
qed

lemma be_bytes_cong: "m mod 256 ^ k = n mod 256 ^ k \<Longrightarrow> be_bytes k m = be_bytes k n"
proof (induction k)
  case (Suc k)
  have split: "i mod 256 ^ Suc k = 256 ^ k * (i div 256 ^ k mod 256) + i mod 256 ^ k" for i :: nat
    by (simp add: mult.commute [of 256] mod_mult2_eq)
  have low: "m mod 256 ^ k = n mod 256 ^ k"
    using arg_cong [OF Suc.prems, of "\<lambda>i. i mod 256 ^ k"] by (simp add: mod_mod_cancel)
  with Suc.prems have "256 ^ k * (m div 256 ^ k mod 256) = 256 ^ k * (n div 256 ^ k mod 256)"
    unfolding split by linarith
  then have "m div 256 ^ k mod 256 = n div 256 ^ k mod 256" by simp
  then have "char_of (m div 256 ^ k) = (char_of (n div 256 ^ k) :: char)" by (metis char_of_mod_256)
  with Suc.IH [OF low] show ?case by (simp add: be_bytes_Suc)
qed (simp add: be_bytes_def)

lemma be_bytes_mod: "be_bytes k (n mod 256 ^ k) = be_bytes k n"
  by (rule be_bytes_cong) simp

lemma be_bytes_inject: "be_bytes k m = be_bytes k n \<Longrightarrow> m < 256 ^ k \<Longrightarrow> n < 256 ^ k \<Longrightarrow> m = n"
proof (induction k arbitrary: m n)
  case (Suc k)
  have hd: "char_of (m div 256 ^ k) = (char_of (n div 256 ^ k) :: char)" and tl: "be_bytes k m = be_bytes k n"
    using Suc.prems(1) by (simp_all add: be_bytes_Suc)
  have lt: "m div 256 ^ k < 256" "n div 256 ^ k < 256"
    using Suc.prems(2,3) by (simp_all add: less_mult_imp_div_less mult.commute)
  have "m div 256 ^ k = n div 256 ^ k"
    using arg_cong [OF hd, of "of_char :: char \<Rightarrow> nat"] lt by simp
  moreover have "m mod 256 ^ k = n mod 256 ^ k"
    by (rule Suc.IH) (simp_all add: be_bytes_mod tl)
  ultimately show ?case by (metis div_mult_mod_eq)
qed simp

lemma be_bytes8_word: "be_bytes 8 (unat (v :: u64)) = be_bytes 8 (unat w) \<longleftrightarrow> v = w"
proof
  assume eq: "be_bytes 8 (unat v) = be_bytes 8 (unat w)"
  have "unat v = unat w"
    by (rule be_bytes_inject [OF eq]) (use unsigned_less [of v, where 'a = nat] unsigned_less [of w, where 'a = nat] in simp_all)
  then show "v = w" by (simp add: word_unat_eq_iff)
qed simp

lemma frames_inject:
  assumes "concat (map frame xs) = concat (map frame ys)"
    and "\<forall>x\<in>set xs. length (snd x) < 256 ^ 4" "\<forall>y\<in>set ys. length (snd y) < 256 ^ 4"
  shows "xs = ys"
  using assms
proof (induction xs arbitrary: ys)
  case Nil
  then show ?case by (cases ys) (simp_all add: frame_def)
next
  case (Cons x xs)
  from Cons.prems(1) obtain y ys' where ys: "ys = y # ys'" by (cases ys) (simp_all add: frame_def)
  have eq: "fst x = fst y" "be_bytes 4 (length (snd x)) @ snd x @ concat (map frame xs)
      = be_bytes 4 (length (snd y)) @ snd y @ concat (map frame ys')"
    using Cons.prems(1) unfolding ys by (simp_all add: frame_def [of x] frame_def [of y])
  then have len: "be_bytes 4 (length (snd x)) = be_bytes 4 (length (snd y))"
    and rest: "snd x @ concat (map frame xs) = snd y @ concat (map frame ys')"
    by (simp_all add: append_eq_append_conv)
  have "length (snd x) = length (snd y)"
    by (rule be_bytes_inject [OF len]) (use Cons.prems ys in auto)
  with rest have snds: "snd x = snd y" and tails: "concat (map frame xs) = concat (map frame ys')" by simp_all
  have "x = y" using eq(1) snds by (rule prod_eqI)
  moreover have "xs = ys'" by (rule Cons.IH [OF tails]) (use Cons.prems(2,3) ys in simp_all)
  ultimately show ?case by (simp add: ys)
qed

lemma append_cols_Ok:
  "append_cols K i buf ks = Ok enc \<longleftrightarrow>
     (\<exists>tps. those (map (encodeValue K) ks) = Some tps \<and> buf @ concat (map frame tps) = enc)"
proof (induction ks arbitrary: i buf)
  case (Cons v ks)
  show ?case
  proof (cases "encodeValue K v")
    case (Some tp)
    then have "v \<noteq> CNil" by auto
    with Some Cons.IH [of "Suc i" "buf @ frame tp"] show ?thesis by auto
  qed simp
qed auto

lemma EncodeKey_Ok:
  "EncodeKey K k = Ok enc \<longleftrightarrow>
     k \<noteq> [] \<and> (\<exists>tps. those (map (encodeValue K) k) = Some tps \<and> concat (map frame tps) = enc)"
  by (simp add: EncodeKey_def appendKey_def append_cols_Ok)

lemma those_eq_Some_iff: "those xs = Some ys \<longleftrightarrow> xs = map Some ys"
  by (induction xs arbitrary: ys) (auto simp: map_eq_Cons_conv split: option.splits)

lemma EncodeKey_total: "k \<noteq> [] \<Longrightarrow> list_all (\<lambda>c. c \<noteq> CNil \<and> c \<noteq> COther) k \<Longrightarrow> \<exists>e. EncodeKey K k = Ok e"
proof -
  have "encodeValue K c \<noteq> None" if "c \<noteq> CNil \<and> c \<noteq> COther" for c using that by (cases c) simp_all
  then show "k \<noteq> [] \<Longrightarrow> list_all (\<lambda>c. c \<noteq> CNil \<and> c \<noteq> COther) k \<Longrightarrow> \<exists>e. EncodeKey K k = Ok e"
    unfolding EncodeKey_Ok by (induction k) fastforce+
qed

text \<open>What a key column says, apart from the type it was decoded to.\<close>

datatype kval = KInt int | KBool bool | KFloat u64 | KText string | KBlob string | KTime u64

fun cell_kval :: "'f key_ops \<Rightarrow> 'f cell \<Rightarrow> kval option" where
  "cell_kval K (CBool b) = Some (KBool b)"
| "cell_kval K (CFloat32 t) = Some (KFloat (ko_bits K (if ko_isZero K t then f_of_int (ko_floats K) 0 else t)))"
| "cell_kval K (CFloat64 t) = Some (KFloat (ko_bits K (if ko_isZero K t then f_of_int (ko_floats K) 0 else t)))"
| "cell_kval K (CString t) = Some (KText t)"
| "cell_kval K (CBytes t) = Some (KBlob t)"
| "cell_kval K (CTime n) = Some (KTime (word_of_int n))"
| "cell_kval K c = map_option KInt (cell_int c)"

fun enc_kval :: "kval \<Rightarrow> char \<times> string" where
  "enc_kval (KBool b) = (tagBool, [char_of (if b then 1 else 0 :: nat)])"
| "enc_kval (KInt n) = (tagInt, encodeInteger (n < 0) (word_of_int \<bar>n\<bar>))"
| "enc_kval (KFloat w) = (tagFloat, be_bytes 8 (unat w))"
| "enc_kval (KText t) = (tagString, t)"
| "enc_kval (KBlob t) = (tagBytes, t)"
| "enc_kval (KTime w) = (tagTime, be_bytes 8 (unat w))"

lemma encode_signed_int: "encode_signed v = encodeInteger (sint v < 0) (word_of_int \<bar>sint v\<bar>)"
proof (cases "sint v < 0")
  case True
  then have "\<bar>sint v\<bar> = - sint v" by simp
  then have "(word_of_int \<bar>sint v\<bar> :: u64) = - v" by simp
  with True show ?thesis by (simp add: encode_signed_def magnitude_def word_sless_alt)
qed (simp add: encode_signed_def magnitude_def word_sless_alt)

lemma word_of_uint_up:
  "(word_of_int (uint (a :: 8 word)) :: u64) = ucast a"
  "(word_of_int (uint (b :: 16 word)) :: u64) = ucast b"
  "(word_of_int (uint (c :: 32 word)) :: u64) = ucast c"
  by (metis uint_ucast_up(1) word_of_int_uint, metis uint_ucast_up(2) word_of_int_uint,
      metis uint_ucast_up(3) word_of_int_uint)

lemma encodeValue_kval: "encodeValue K c = map_option enc_kval (cell_kval K c)"
proof (cases c)
  case (CInt8 t) then show ?thesis by (simp add: encode_signed_int sint_scast_up)
next
  case (CInt16 t) then show ?thesis by (simp add: encode_signed_int sint_scast_up)
next
  case (CInt32 t) then show ?thesis by (simp add: encode_signed_int sint_scast_up)
next
  case (CUint8 t) then show ?thesis by (simp add: word_of_uint_up)
next
  case (CUint16 t) then show ?thesis by (simp add: word_of_uint_up)
next
  case (CUint32 t) then show ?thesis by (simp add: word_of_uint_up)
qed (simp_all add: encode_signed_int encodeFloat_def Let_def)

definition kval_ok :: "kval \<Rightarrow> bool" where
  "kval_ok v \<longleftrightarrow> (case v of KInt n \<Rightarrow> \<bar>n\<bar> < 2 ^ 64 | KText t \<Rightarrow> length t < 2 ^ 32 | KBlob t \<Rightarrow> length t < 2 ^ 32 | _ \<Rightarrow> True)"

lemma enc_int_inject:
  assumes "\<bar>m\<bar> < 2 ^ 64" "\<bar>n\<bar> < 2 ^ 64" "encodeInteger (m < 0) (word_of_int \<bar>m\<bar>) = encodeInteger (n < 0) (word_of_int \<bar>n\<bar>)"
  shows "m = n"
proof -
  have sign: "(m < 0) = (n < 0)" and "(word_of_int \<bar>m\<bar> :: u64) = word_of_int \<bar>n\<bar>"
    using assms(3) by (auto simp: encodeInteger_def be_bytes8_word split: if_splits)
  then have "uint (word_of_int \<bar>m\<bar> :: u64) = uint (word_of_int \<bar>n\<bar> :: u64)" by simp
  then have "\<bar>m\<bar> = \<bar>n\<bar>" using assms(1,2) by (simp add: uint_word_of_int)
  with sign show ?thesis by linarith
qed

lemma tags_distinct:
  "tagBool \<noteq> tagInt" "tagBool \<noteq> tagFloat" "tagBool \<noteq> tagString" "tagBool \<noteq> tagBytes" "tagBool \<noteq> tagTime"
  "tagInt \<noteq> tagFloat" "tagInt \<noteq> tagString" "tagInt \<noteq> tagBytes" "tagInt \<noteq> tagTime"
  "tagFloat \<noteq> tagString" "tagFloat \<noteq> tagBytes" "tagFloat \<noteq> tagTime"
  "tagString \<noteq> tagBytes" "tagString \<noteq> tagTime" "tagBytes \<noteq> tagTime"
  by (simp_all add: tagBool_def tagInt_def tagFloat_def tagString_def tagBytes_def tagTime_def)

lemma enc_kval_inject: "kval_ok u \<Longrightarrow> kval_ok v \<Longrightarrow> enc_kval u = enc_kval v \<Longrightarrow> u = v"
  by (cases u; cases v)
    (auto simp: tags_distinct tags_distinct [symmetric] be_bytes8_word kval_ok_def dest: enc_int_inject [simplified] split: if_splits)

lemma kval_payload: "kval_ok v \<Longrightarrow> length (snd (enc_kval v)) < 256 ^ 4"
  by (cases v) (simp_all add: kval_ok_def encodeInteger_def)

text \<open>Text and byte columns below four gigabytes, the length the frame can hold.\<close>

definition short_key :: "'f pkey \<Rightarrow> bool" where
  "short_key k \<longleftrightarrow> (\<forall>c\<in>set k. case asBytes c of None \<Rightarrow> True | Some t \<Rightarrow> length t < 2 ^ 32)"

lemma sint_abs: "\<bar>sint (v :: 64 word)\<bar> < 2 ^ 64"
  using sint_bounds64 [of v] by simp

lemma cell_kval_ok:
  assumes "cell_kval K c = Some v" "case asBytes c of None \<Rightarrow> True | Some t \<Rightarrow> length t < 2 ^ 32"
  shows "kval_ok v"
proof -
  have u: "uint (w :: u64) < 2 ^ 64" for w using unsigned_less [of w, where 'a = int] by simp
  have s8: "\<bar>sint (a :: 8 word)\<bar> < 2 ^ 64" and s16: "\<bar>sint (b :: 16 word)\<bar> < 2 ^ 64" and s32: "\<bar>sint (d :: 32 word)\<bar> < 2 ^ 64" for a b d
    using sint_abs sint_scast_up by metis+
  have u8: "uint (a :: 8 word) < 2 ^ 64" and u16: "uint (b :: 16 word) < 2 ^ 64" and u32: "uint (d :: 32 word) < 2 ^ 64" for a b d
    using u uint_ucast_up by metis+
  show ?thesis
    using assms by (cases c) (auto simp: kval_ok_def simp del: power_numeral intro: sint_abs u s8 s16 s32 u8 u16 u32)
qed

lemma EncodeKey_kvals:
  assumes "EncodeKey K k = Ok e" "short_key k"
  obtains vs where "map (cell_kval K) k = map Some vs" "e = concat (map frame (map enc_kval vs))" "\<forall>v\<in>set vs. kval_ok v"
proof -
  obtain tps where tps: "map (encodeValue K) k = map Some tps" "concat (map frame tps) = e"
    using assms(1) unfolding EncodeKey_Ok those_eq_Some_iff by blast
  have "\<forall>c\<in>set k. cell_kval K c \<noteq> None"
  proof
    fix c assume "c \<in> set k"
    then have "encodeValue K c \<in> set (map Some tps)" unfolding tps(1) [symmetric] by simp
    then show "cell_kval K c \<noteq> None" by (auto simp: encodeValue_kval)
  qed
  then have kv: "map (cell_kval K) k = map Some (map (\<lambda>c. the (cell_kval K c)) k)" by simp
  have "map Some tps = map Some (map enc_kval (map (\<lambda>c. the (cell_kval K c)) k))"
    unfolding tps(1) [symmetric] using \<open>\<forall>c\<in>set k. cell_kval K c \<noteq> None\<close> by (auto simp: encodeValue_kval)
  then have "tps = map enc_kval (map (\<lambda>c. the (cell_kval K c)) k)" by (rule map_injective) simp
  moreover have "\<forall>v\<in>set (map (\<lambda>c. the (cell_kval K c)) k). kval_ok v"
    using \<open>\<forall>c\<in>set k. cell_kval K c \<noteq> None\<close> assms(2) by (auto simp: short_key_def intro: cell_kval_ok)
  ultimately show thesis using that [OF kv] tps(2) by simp
qed

section \<open>Rendezvous\<close>

definition beats :: "(string \<Rightarrow> u64) \<Rightarrow> string \<Rightarrow> string \<Rightarrow> bool" where
  "beats weight v u \<longleftrightarrow> weight v > weight u \<or> (weight v = weight u \<and> v < u)"

lemma beats_trans: "beats w a b \<Longrightarrow> beats w b c \<Longrightarrow> beats w a c"
  unfolding beats_def by (metis less_trans)

lemma beats_total: "\<not> beats w a b \<Longrightarrow> \<not> beats w b a \<Longrightarrow> a = b"
  unfolding beats_def by (metis neq_iff)

lemma not_beats_trans: "\<not> beats w u a \<Longrightarrow> beats w b a \<Longrightarrow> \<not> beats w u b"
  using beats_trans by blast

lemma best_from_spec:
  "bi < length pre \<Longrightarrow> (pre @ vs) ! bi = name \<Longrightarrow> \<forall>u\<in>set pre. \<not> beats weight u name \<Longrightarrow>
   best_from weight bi (weight name) name (length pre) vs < length (pre @ vs) \<and>
   (\<forall>u\<in>set (pre @ vs). \<not> beats weight u ((pre @ vs) ! best_from weight bi (weight name) name (length pre) vs))"
proof (induction vs arbitrary: pre bi name)
  case (Cons v vs)
  show ?case
  proof (cases "beats weight v name")
    case True
    then have "best_from weight bi (weight name) name (length pre) (v # vs)
        = best_from weight (length pre) (weight v) v (length (pre @ [v])) vs"
      by (simp add: beats_def)
    moreover have "\<forall>u\<in>set (pre @ [v]). \<not> beats weight u v"
      using Cons.prems(3) not_beats_trans [OF _ True] by (auto simp: beats_def)
    ultimately show ?thesis using Cons.IH [of "length pre" "pre @ [v]" v] by simp
  next
    case False
    then have "best_from weight bi (weight name) name (length pre) (v # vs)
        = best_from weight bi (weight name) name (length (pre @ [v])) vs"
      by (auto simp: beats_def)
    moreover have "\<forall>u\<in>set (pre @ [v]). \<not> beats weight u name" using Cons.prems(3) False by auto
    ultimately show ?thesis using Cons.IH [of bi "pre @ [v]" name] Cons.prems by simp
  qed
qed simp

lemma slot_Owner_spec:
  assumes "workers \<noteq> []"
  obtains j where "slot_Owner H slot workers = int j" "j < length workers"
    "\<forall>u\<in>set workers. \<not> beats (rendezvousWeight H (be_bytes 4 (unat slot))) u (workers ! j)"
proof -
  obtain w ws where ws: "workers = w # ws" using assms by (cases workers) auto
  let ?weight = "rendezvousWeight H (be_bytes 4 (unat slot))"
  have "best_from ?weight 0 (?weight w) w (length [w]) ws < length ([w] @ ws) \<and>
      (\<forall>u\<in>set ([w] @ ws). \<not> beats ?weight u (([w] @ ws) ! best_from ?weight 0 (?weight w) w (length [w]) ws))"
    by (rule best_from_spec) (simp_all add: beats_def)
  then show thesis using that [of "best_from ?weight 0 (?weight w) w 1 ws"] by (simp add: ws slot_Owner_def Let_def)
qed

lemma slot_Owner_bounds: "- 1 \<le> slot_Owner H slot workers \<and> slot_Owner H slot workers < int (length workers)"
  by (cases "workers = []") (auto simp: slot_Owner_def [of H slot "[]"] elim: slot_Owner_spec [of workers H slot])

section \<open>The router's cache\<close>

definition cache_ok :: "hash64 \<Rightarrow> router \<Rightarrow> bool" where
  "cache_ok H r \<longleftrightarrow> (\<forall>slot. gm_at 0 (rt_owner r) slot \<noteq> 0 \<longrightarrow>
     sint (gm_at 0 (rt_owner r) slot) - 1 = slot_Owner H slot (rt_workers r))"

lemma cached_index:
  assumes "0 \<le> j" "j < 2 ^ 31 - 1"
  shows "sint (word_of_int j + 1 :: 32 word) - 1 = j"
proof -
  have eq: "(word_of_int j + 1 :: 32 word) = word_of_int (j + 1)" by simp
  have "sint (word_of_int (j + 1) :: 32 word) = j + 1"
    using assms by (simp add: sint_sbintrunc' signed_take_bit_int_eq_self del: of_int_add)
  then show ?thesis unfolding eq by linarith
qed

lemma Router_step:
  assumes "cache_ok H r" "length (rt_workers r) < 2 ^ 31" "Router_OwnerOfKey H K r k = (r', out)"
  shows "cache_ok H r' \<and> rt_workers r' = rt_workers r \<and> out = OwnerOfKey H K k (rt_workers r)"
proof (cases "EncodeKey K k")
  case (Ok enc)
  let ?slot = "SlotOfKey H enc" and ?ow = "slot_Owner H (SlotOfKey H enc) (rt_workers r)"
  have own: "OwnerOfKey H K k (rt_workers r) = Ok ?ow" using Ok by (simp add: OwnerOfKey_def)
  have run: "Router_OwnerOfKey H K r k =
      (if gm_at 0 (rt_owner r) ?slot \<noteq> 0 then (r, Ok (sint (gm_at 0 (rt_owner r) ?slot) - 1))
       else (if ?ow \<ge> 0 then r\<lparr>rt_owner := gm_put ?slot (word_of_int ?ow + 1) (rt_owner r)\<rparr> else r, Ok ?ow))"
    using Ok by (simp add: Router_OwnerOfKey_def EncodeKey_def SlotOfKey_def Let_def)
  show ?thesis
  proof (cases "gm_at 0 (rt_owner r) ?slot \<noteq> 0")
    case True
    with assms run own show ?thesis by (auto simp: cache_ok_def)
  next
    case False
    have idx: "sint (word_of_int ?ow + 1 :: 32 word) - 1 = ?ow" if "?ow \<ge> 0"
      using that slot_Owner_bounds [of H ?slot "rt_workers r"] assms(2) by (intro cached_index) simp_all
    have r': "r' = (if ?ow \<ge> 0 then r\<lparr>rt_owner := gm_put ?slot (word_of_int ?ow + 1) (rt_owner r)\<rparr> else r)" "out = Ok ?ow"
      using False assms(3) run by simp_all
    have "cache_ok H r'"
      using assms(1) idx unfolding r'(1) by (cases "?ow \<ge> 0") (auto simp: cache_ok_def)
    with r' own show ?thesis by simp
  qed
next
  case (Err e)
  with assms show ?thesis by (auto simp: Router_OwnerOfKey_def EncodeKey_def OwnerOfKey_def)
next
  case Panic
  with assms show ?thesis by (auto simp: Router_OwnerOfKey_def EncodeKey_def OwnerOfKey_def)
qed

fun owners_of_keys :: "hash64 \<Rightarrow> 'f key_ops \<Rightarrow> string list \<Rightarrow> 'f pkey list \<Rightarrow> (route_err, int list) res" where
  "owners_of_keys H K ws [] = Ok []"
| "owners_of_keys H K ws (k # ks) =
     res_bind (OwnerOfKey H K k ws)
       (\<lambda>p. if p < 0 then Err NoOwner else res_bind (owners_of_keys H K ws ks) (\<lambda>ps. Ok (p # ps)))"

lemma route_rows_eq:
  "cache_ok H r \<Longrightarrow> length (rt_workers r) < 2 ^ 31 \<Longrightarrow> route_rows H K r ks = owners_of_keys H K (rt_workers r) ks"
proof (induction ks arbitrary: r)
  case (Cons k ks)
  obtain r' out where run: "Router_OwnerOfKey H K r k = (r', out)" by fastforce
  note st = Router_step [OF Cons.prems run]
  have tail: "route_rows H K r' ks = owners_of_keys H K (rt_workers r) ks"
    using Cons.IH [of r'] st Cons.prems(2) by simp
  have "OwnerOfKey H K k (rt_workers r) = out" using st by simp
  with run tail show ?case by (cases out) simp_all
qed simp

section \<open>Properties\<close>

text \<open>
  C18: the canonical encoding separates exactly the different keys. Two encodable tuples have the same
  bytes if and only if their columns hold the same values: integers compare as numbers whatever width
  and signedness they were decoded at, text and bytes never collide with them or with each other, and
  no two composite keys run together.
\<close>

theorem EncodeKey_injective:
  assumes "EncodeKey K a = Ok ea" "EncodeKey K b = Ok eb" "short_key a" "short_key b"
  shows "ea = eb \<longleftrightarrow> map (cell_kval K) a = map (cell_kval K) b"
proof -
  obtain va where va: "map (cell_kval K) a = map Some va" "ea = concat (map frame (map enc_kval va))" "\<forall>v\<in>set va. kval_ok v"
    using assms(1,3) by (rule EncodeKey_kvals)
  obtain vb where vb: "map (cell_kval K) b = map Some vb" "eb = concat (map frame (map enc_kval vb))" "\<forall>v\<in>set vb. kval_ok v"
    using assms(2,4) by (rule EncodeKey_kvals)
  have "ea = eb \<longleftrightarrow> va = vb"
  proof
    assume "ea = eb"
    with va(2) vb(2) have eq: "concat (map frame (map enc_kval va)) = concat (map frame (map enc_kval vb))" by simp
    have "\<forall>x\<in>set (map enc_kval va). length (snd x) < 256 ^ 4" "\<forall>x\<in>set (map enc_kval vb). length (snd x) < 256 ^ 4"
      using va(3) vb(3) kval_payload by auto
    then have "map enc_kval va = map enc_kval vb" by (rule frames_inject [OF eq])
    moreover have "inj_on enc_kval (set va \<union> set vb)"
      using va(3) vb(3) enc_kval_inject by (auto intro!: inj_onI)
    ultimately show "va = vb" by (rule map_inj_on)
  next
    assume "va = vb"
    with va(2) vb(2) show "ea = eb" by simp
  qed
  moreover have "map (cell_kval K) a = map (cell_kval K) b \<longleftrightarrow> va = vb"
    unfolding va(1) vb(1) by (simp add: inj_map_eq_map)
  ultimately show ?thesis by simp
qed

definition whole_keys :: "int key_ops" where
  "whole_keys = \<lparr>ko_floats = whole_floats, ko_isZero = (\<lambda>f. f = 0), ko_bits = word_of_int\<rparr>"

theorem EncodeKey_injective_witness:
  "EncodeKey whole_keys [CInt32 (- 5), CString ''ab''] = EncodeKey whole_keys [CInt64 (- 5), CString ''ab'']
   \<and> EncodeKey whole_keys [CString ''a'', CString ''bc''] \<noteq> EncodeKey whole_keys [CString ''ab'', CString ''c'']"
proof -
  let ?a = "[CInt32 (- 5), CString ''ab''] :: int pkey" and ?b = "[CInt64 (- 5), CString ''ab''] :: int pkey"
    and ?c = "[CString ''a'', CString ''bc''] :: int pkey" and ?d = "[CString ''ab'', CString ''c''] :: int pkey"
  obtain ea where ea: "EncodeKey whole_keys ?a = Ok ea" using EncodeKey_total [of ?a whole_keys] by auto
  obtain eb where eb: "EncodeKey whole_keys ?b = Ok eb" using EncodeKey_total [of ?b whole_keys] by auto
  obtain ec where ec: "EncodeKey whole_keys ?c = Ok ec" using EncodeKey_total [of ?c whole_keys] by auto
  obtain ed where ed: "EncodeKey whole_keys ?d = Ok ed" using EncodeKey_total [of ?d whole_keys] by auto
  note e = ea eb ec ed
  have short: "short_key ?a" "short_key ?b" "short_key ?c" "short_key ?d" by (simp_all add: short_key_def)
  have "map (cell_kval whole_keys) ?a = map (cell_kval whole_keys) ?b" by simp
  then have "ea = eb" using EncodeKey_injective [OF e(1,2) short(1,2)] by blast
  moreover have "map (cell_kval whole_keys) ?c \<noteq> map (cell_kval whole_keys) ?d" by simp
  then have "ec \<noteq> ed" using EncodeKey_injective [OF e(3,4) short(3,4)] by blast
  ultimately show ?thesis unfolding e by simp
qed

text \<open>
  C27: ownership moves minimally. When workers leave (or the list is merely reordered), a slot whose owner
  stays keeps that owner; read the other way, a slot changes owner only to a worker that joined.
\<close>

theorem rendezvous_minimal_movement:
  assumes "ws \<noteq> []" "ws' \<noteq> []" "set ws' \<subseteq> set ws" "ws ! nat (slot_Owner H slot ws) \<in> set ws'"
  shows "ws' ! nat (slot_Owner H slot ws') = ws ! nat (slot_Owner H slot ws)"
proof -
  let ?weight = "rendezvousWeight H (be_bytes 4 (unat slot))"
  obtain i where i: "slot_Owner H slot ws = int i" "i < length ws" "\<forall>u\<in>set ws. \<not> beats ?weight u (ws ! i)"
    using assms(1) by (rule slot_Owner_spec)
  obtain j where j: "slot_Owner H slot ws' = int j" "j < length ws'" "\<forall>u\<in>set ws'. \<not> beats ?weight u (ws' ! j)"
    using assms(2) by (rule slot_Owner_spec)
  have "\<not> beats ?weight (ws ! i) (ws' ! j)" using j(3) assms(4) i(1) by simp
  moreover have "\<not> beats ?weight (ws' ! j) (ws ! i)" using i(3) j(2) assms(3) nth_mem by blast
  ultimately show ?thesis using beats_total i(1) j(1) by (metis nat_int)
qed

definition len_hash :: hash64 where
  "len_hash s = of_nat (length s)"

theorem rendezvous_minimal_movement_witness:
  "[''abc'', ''a''] ! nat (slot_Owner len_hash 7 [''abc'', ''a'']) = [''a'', ''ab'', ''abc''] ! nat (slot_Owner len_hash 7 [''a'', ''ab'', ''abc''])"
proof (rule rendezvous_minimal_movement)
  have "slot_Owner len_hash 7 [''a'', ''ab'', ''abc''] = 2"
    by (simp add: slot_Owner_def rendezvousWeight_def len_hash_def seedPrefix_def Let_def)
  then show "[''a'', ''ab'', ''abc''] ! nat (slot_Owner len_hash 7 [''a'', ''ab'', ''abc'']) \<in> set [''abc'', ''a'']" by simp
qed auto

text \<open>
  C19: routing a batch with one caching router gives, row by row, the owners the plain function gives, and
  stops at the same row with the same error.
\<close>

theorem Router_equals_OwnerOfKey:
  assumes "length ws < 2 ^ 31"
  shows "route_rows H K (NewRouter ws) ks = owners_of_keys H K ws ks"
  using route_rows_eq [of H "NewRouter ws" K ks] assms by (simp add: NewRouter_def cache_ok_def)

theorem Router_equals_OwnerOfKey_witness:
  "route_rows len_hash whole_keys (NewRouter [''a'', ''b'']) [[CInt64 1], [CInt32 1], [CNil]]
   = owners_of_keys len_hash whole_keys [''a'', ''b''] [[CInt64 1], [CInt32 1], [CNil]]"
  by (rule Router_equals_OwnerOfKey) simp

end
