(* ===== verification/Routing_Scale.thy ===== *)
theory Routing_Scale
  imports Partition
begin

text \<open>
  \<open>internal/routing/layout.go\<close>, \<open>drain.go\<close> and \<open>scale.go\<close>: the partition layout and its re-slicing. A
  layout is an immutable value; the pipeline a \<open>Scaler\<close> re-slices is a record of functions over a host
  state. The scaler's mutex makes a re-slice atomic against another. A wait that may not end is a
  partial function over what its \<open>select\<close> receives.

  The lemmas show that a re-slice flips the layout only after the table's input was paused and its
  drain succeeded, that a failed one leaves the layout and the owners as they were, and that the
  input is never left paused.
\<close>

section \<open>Layouts\<close>

record ('o, 'f) layout =
  ly_owners :: "(string, 'o list) gomap"
  ly_ranges :: "(string, 'f chunk list) gomap"

definition NewLayout :: "(string, 'o list) gomap option \<Rightarrow> (string, 'f chunk list) gomap option \<Rightarrow> ('o, 'f) layout" where
  "NewLayout owners ranges =
     \<lparr>ly_owners = (case owners of None \<Rightarrow> [] | Some m \<Rightarrow> m), ly_ranges = (case ranges of None \<Rightarrow> [] | Some m \<Rightarrow> m)\<rparr>"

definition OwnersOf :: "('o, 'f) layout option \<Rightarrow> string \<Rightarrow> 'o list option" where
  "OwnersOf l target = (case l of None \<Rightarrow> None | Some ly \<Rightarrow> map_of (ly_owners ly) target)"

definition RangesOf :: "('o, 'f) layout option \<Rightarrow> string \<Rightarrow> 'f chunk list" where
  "RangesOf l target = (case l of None \<Rightarrow> [] | Some ly \<Rightarrow> gm_at [] (ly_ranges ly) target)"

definition layout_Tables :: "('o, 'f) layout option \<Rightarrow> string list" where
  "layout_Tables l = (case l of None \<Rightarrow> [] | Some ly \<Rightarrow> map fst (ly_owners ly))"

definition clone :: "('o, 'f) layout option \<Rightarrow> ('o, 'f) layout" where
  "clone l = (case l of None \<Rightarrow> \<lparr>ly_owners = [], ly_ranges = []\<rparr> | Some ly \<Rightarrow> ly)"

definition WithTable :: "('o, 'f) layout option \<Rightarrow> string \<Rightarrow> 'o list \<Rightarrow> 'f chunk list \<Rightarrow> ('o, 'f) layout" where
  "WithTable l target owners ranges =
     (let out = clone l in out\<lparr>ly_owners := gm_put target owners (ly_owners out),
                              ly_ranges := gm_put target ranges (ly_ranges out)\<rparr>)"

definition WithOwners :: "('o, 'f) layout option \<Rightarrow> string \<Rightarrow> 'o list \<Rightarrow> ('o, 'f) layout" where
  "WithOwners l target owners = (let out = clone l in out\<lparr>ly_owners := gm_put target owners (ly_owners out)\<rparr>)"

definition WithRanges :: "('o, 'f) layout option \<Rightarrow> (string, 'f chunk list) gomap option \<Rightarrow> ('o, 'f) layout" where
  "WithRanges l ranges = (clone l)\<lparr>ly_ranges := (case ranges of None \<Rightarrow> [] | Some m \<Rightarrow> m)\<rparr>"

datatype scale_err = BadCount | NotRouted | NotAdmitted | RangesFailed | NoRanges | OwnerFailed | StrandedOwner | DrainFailed

text \<open>The loop of \<open>Reslice\<close>: add the partitions from \<open>p\<close> on, \<open>k\<close> of them.\<close>

fun add_owners :: "('h \<Rightarrow> nat \<Rightarrow> 'h \<times> ('o \<times> bool) option) \<Rightarrow> 'h \<Rightarrow> nat \<Rightarrow> nat \<Rightarrow> 'o list \<Rightarrow> 'o list \<Rightarrow>
                   'h \<times> (scale_err, 'o list \<times> 'o list) res" where
  "add_owners add h p 0 next created = (h, Ok (next, created))"
| "add_owners add h p (Suc k) next created =
     (case add h p of
        (h', None) \<Rightarrow> (h', Err OwnerFailed)
      | (h', Some (ow, isNew)) \<Rightarrow> add_owners add h' (Suc p) k (next @ [ow]) (if isNew then created @ [ow] else created))"

definition Reslice :: "('h \<Rightarrow> nat \<Rightarrow> 'h \<times> ('o \<times> bool) option) \<Rightarrow> 'h \<Rightarrow> 'o list \<Rightarrow> int \<Rightarrow>
                       'h \<times> (scale_err, 'o list \<times> 'o list \<times> 'o list) res" where
  "Reslice add h cur n =
     (if n < 0 then (h, Panic)
      else if n \<le> int (length cur) then (h, Ok (take (nat n) cur, drop (nat n) cur, []))
      else (case add_owners add h (length cur) (nat n - length cur) cur [] of
              (h', Ok (next, created)) \<Rightarrow> (h', Ok (next, [], created))
            | (h', Err e) \<Rightarrow> (h', Err e)
            | (h', Panic) \<Rightarrow> (h', Panic)))"

section \<open>Draining\<close>

definition DefaultDrainTimeout :: int where
  "DefaultDrainTimeout = 60000000000"

definition DefaultMaxWorkers :: int where
  "DefaultMaxWorkers = 32"

definition DrainTimeout :: "int \<Rightarrow> int" where
  "DrainTimeout configured = (if configured > 0 then configured else DefaultDrainTimeout)"

definition WorkerCap :: "int \<Rightarrow> int \<Rightarrow> int" where
  "WorkerCap tableMax pipelineMax =
     (if tableMax > 0 then tableMax else if pipelineMax > 0 then pipelineMax else DefaultMaxWorkers)"

record owed =
  ow_InFlight :: nat
  ow_Queued :: nat
  ow_CyclesOpen :: nat
  ow_CyclesDone :: nat

definition owed_Total :: "owed \<Rightarrow> nat" where
  "owed_Total x = ow_InFlight x + ow_Queued x + ow_CyclesOpen x + ow_CyclesDone x"

text \<open>What the \<open>select\<close> of a wait receives: the context, the deadline, or a wake or a tick.\<close>

datatype wait_event = EvDone | EvDeadline | EvWake

datatype drain_end = Drained | DrainCancelled | DrainTimedOut owed

partial_function (option) AwaitDrained ::
  "('h \<Rightarrow> 'h \<times> owed) \<Rightarrow> ('h \<Rightarrow> 'h \<times> wait_event) \<Rightarrow> 'h \<Rightarrow> ('h \<times> drain_end) option" where
  [code]: "AwaitDrained owes sel h =
     (case owes h of (h1, ow) \<Rightarrow>
        if owed_Total ow = 0 then Some (h1, Drained)
        else (case sel h1 of
                (h2, EvDone) \<Rightarrow> Some (h2, DrainCancelled)
              | (h2, EvDeadline) \<Rightarrow> Some (h2, DrainTimedOut ow)
              | (h2, EvWake) \<Rightarrow> AwaitDrained owes sel h2))"

datatype idle_end = Idle | IdleCancelled | IdleTimedOut

partial_function (option) AwaitIdle ::
  "('h \<Rightarrow> 'h \<times> bool) \<Rightarrow> ('h \<Rightarrow> 'h \<times> wait_event) \<Rightarrow> 'h \<Rightarrow> ('h \<times> idle_end) option" where
  [code]: "AwaitIdle busy sel h =
     (case busy h of (h1, b) \<Rightarrow>
        if \<not> b then Some (h1, Idle)
        else (case sel h1 of
                (h2, EvDone) \<Rightarrow> Some (h2, IdleCancelled)
              | (h2, EvDeadline) \<Rightarrow> Some (h2, IdleTimedOut)
              | (h2, EvWake) \<Rightarrow> AwaitIdle busy sel h2))"

section \<open>Re-slicing\<close>

record ('h, 'o, 'f) scale_host =
  sh_Layout :: "'h \<Rightarrow> ('o, 'f) layout option"
  sh_Publish :: "'h \<Rightarrow> ('o, 'f) layout \<Rightarrow> 'h"
  sh_Admit :: "'h \<Rightarrow> string \<Rightarrow> int \<Rightarrow> bool"
  sh_Ranges :: "'h \<Rightarrow> string \<Rightarrow> int \<Rightarrow> 'h \<times> 'f chunk list option"
  sh_Owner :: "'h \<Rightarrow> string \<Rightarrow> nat \<Rightarrow> 'h \<times> ('o \<times> bool) option"
  sh_Stranded :: "'h \<Rightarrow> 'o \<Rightarrow> bool"
  sh_Forget :: "'h \<Rightarrow> 'o \<Rightarrow> 'h"
  sh_Seed :: "'h \<Rightarrow> 'o list \<Rightarrow> 'h"
  sh_PauseInput :: "'h \<Rightarrow> string \<Rightarrow> 'h"
  sh_ResumeInput :: "'h \<Rightarrow> string \<Rightarrow> 'h"
  sh_Drain :: "'h \<Rightarrow> string \<Rightarrow> 'o list \<Rightarrow> 'h \<times> bool"
  sh_Retire :: "'h \<Rightarrow> 'o \<Rightarrow> 'h"
  sh_Fail :: "'h \<Rightarrow> scale_err \<Rightarrow> 'h"
  sh_Scaled :: "'h \<Rightarrow> string \<Rightarrow> nat \<Rightarrow> int \<Rightarrow> 'h"

text \<open>From the stranded check on: seed, pause, drain, then commit, or resume and forget the created.\<close>

definition scale_commit :: "('h, 'o, 'f) scale_host \<Rightarrow> 'h \<Rightarrow> string \<Rightarrow> int \<Rightarrow> ('o, 'f) layout option \<Rightarrow> 'o list \<Rightarrow>
    'f chunk list \<Rightarrow> 'o list \<times> 'o list \<times> 'o list \<Rightarrow> 'h \<times> (scale_err, bool) res" where
  "scale_commit H h target n cur owners ranges sliced =
     (case sliced of (next, removed, created) \<Rightarrow>
        if \<exists>ow\<in>set removed. sh_Stranded H h ow then (sh_Fail H h StrandedOwner, Err StrandedOwner)
        else (let h1 = sh_PauseInput H (sh_Seed H h created) target
              in case sh_Drain H h1 target owners of
                   (h2, False) \<Rightarrow> (foldl (sh_Forget H) (sh_ResumeInput H h2 target) created, Err DrainFailed)
                 | (h2, True) \<Rightarrow>
                     (let h3 = sh_ResumeInput H (sh_Publish H h2 (WithTable cur target next ranges)) target;
                          h4 = sh_Scaled H h3 target (length owners) n
                      in (foldl (sh_Retire H) h4 removed, Ok True))))"

definition Scale :: "('h, 'o, 'f) scale_host \<Rightarrow> 'h \<Rightarrow> string \<Rightarrow> int \<Rightarrow> 'h \<times> (scale_err, bool) res" where
  "Scale H h target n =
     (if n < 1 then (h, Err BadCount)
      else (let cur = sh_Layout H h
            in case OwnersOf cur target of
                 None \<Rightarrow> (h, Err NotRouted)
               | Some owners \<Rightarrow>
                   if int (length owners) = n then (h, Ok False)
                   else if \<not> sh_Admit H h target n then (h, Err NotAdmitted)
                   else (case sh_Ranges H h target n of
                           (h1, None) \<Rightarrow> (h1, Err RangesFailed)
                         | (h1, Some []) \<Rightarrow> (h1, Err NoRanges)
                         | (h1, Some ranges) \<Rightarrow>
                             (case Reslice (\<lambda>h p. sh_Owner H h target p) h1 owners n of
                                (h2, Err e) \<Rightarrow> (h2, Err e)
                              | (h2, Panic) \<Rightarrow> (h2, Panic)
                              | (h2, Ok sliced) \<Rightarrow> scale_commit H h2 target n cur owners ranges sliced))))"

section \<open>Waits\<close>

lemma AwaitDrained_ends:
  assumes "\<And>h h1 ow h2. owes h = (h1, ow) \<Longrightarrow> sel h1 = (h2, EvWake) \<Longrightarrow> left h2 < (left h :: nat)"
  shows "\<exists>r. AwaitDrained owes sel h = Some r"
proof (induction "left h" arbitrary: h rule: less_induct)
  case less
  obtain h1 ow where ow: "owes h = (h1, ow)" by fastforce
  obtain h2 ev where ev: "sel h1 = (h2, ev)" by fastforce
  show ?case
  proof (cases "owed_Total ow = 0 \<or> ev \<noteq> EvWake")
    case True
    with ow ev show ?thesis by (cases ev) (auto simp: AwaitDrained.simps [of owes sel h])
  next
    case False
    with less [of h2] assms [OF ow] ow ev show ?thesis by (simp add: AwaitDrained.simps [of owes sel h])
  qed
qed

lemma AwaitDrained_rule:
  fixes owes :: "'h \<Rightarrow> 'h \<times> owed" and sel :: "'h \<Rightarrow> 'h \<times> wait_event" and P :: "'h \<Rightarrow> 'h \<times> drain_end \<Rightarrow> bool"
  assumes "AwaitDrained owes sel h = Some r"
    and "\<And>h h1 ow. owes h = (h1, ow) \<Longrightarrow> owed_Total ow = 0 \<Longrightarrow> P h (h1, Drained)"
    and "\<And>h h1 ow h2. owes h = (h1, ow) \<Longrightarrow> sel h1 = (h2, EvDone) \<Longrightarrow> P h (h2, DrainCancelled)"
    and "\<And>h h1 ow h2. owes h = (h1, ow) \<Longrightarrow> sel h1 = (h2, EvDeadline) \<Longrightarrow> P h (h2, DrainTimedOut ow)"
    and "\<And>h h1 ow h2 r. owes h = (h1, ow) \<Longrightarrow> sel h1 = (h2, EvWake) \<Longrightarrow> P h2 r \<Longrightarrow> P h r"
  shows "P h r"
proof -
  let ?P = "\<lambda>ow s h r. ow = owes \<longrightarrow> s = sel \<longrightarrow> P h r"
  have "?P owes sel h r"
    using assms(1)
  proof (rule AwaitDrained.raw_induct [where P = ?P, rotated], goal_cases)
    case (1 loop ow' s' h r)
    show ?case
    proof (intro impI)
      assume eq: "ow' = owes" "s' = sel"
      obtain h1 ow where ow: "owes h = (h1, ow)" by fastforce
      obtain h2 ev where ev: "sel h1 = (h2, ev)" by fastforce
      have body: "(if owed_Total ow = 0 then Some (h1, Drained)
          else case ev of EvDone \<Rightarrow> Some (h2, DrainCancelled) | EvDeadline \<Rightarrow> Some (h2, DrainTimedOut ow)
               | EvWake \<Rightarrow> loop owes sel h2) = Some r"
        using 1(2) unfolding eq ow by (cases ev) (auto simp: ev split: if_splits)
      show "P h r"
      proof (cases "owed_Total ow = 0")
        case True
        with body assms(2) [OF ow] show ?thesis by simp
      next
        case False
        then show ?thesis
          using body assms(3,4) [OF ow] assms(5) [OF ow] 1(1) [of owes sel h2 r] ev by (cases ev) auto
      qed
    qed
  qed
  then show ?thesis by simp
qed

lemma AwaitDrained_owes_nothing:
  assumes "AwaitDrained owes sel h = Some (h', Drained)"
  shows "\<exists>g ow. owes g = (h', ow) \<and> owed_Total ow = 0"
proof -
  have "snd r = Drained \<longrightarrow> (\<exists>g ow. owes g = (fst r, ow) \<and> owed_Total ow = 0)"
    if "AwaitDrained owes sel h = Some r" for r
    using that by (rule AwaitDrained_rule) auto
  with assms show ?thesis by auto
qed

section \<open>What a re-slice does\<close>

datatype ('o, 'f) scale_ev =
    TCreate 'o | TSeed "'o list" | TPause string | TResume string | TDrain string "'o list" bool
  | TPublish "('o, 'f) layout" | TForget 'o | TRetire 'o | TFail scale_err | TScaled string nat int

text \<open>\<open>tracing\<close> adds to a host the list of the calls that change it; it changes no answer.\<close>

definition tracing :: "('h, 'o, 'f) scale_host \<Rightarrow> ('h \<times> ('o, 'f) scale_ev list, 'o, 'f) scale_host" where
  "tracing H =
     \<lparr>sh_Layout = (\<lambda>(h, l). sh_Layout H h),
      sh_Publish = (\<lambda>(h, l) ly. (sh_Publish H h ly, l @ [TPublish ly])),
      sh_Admit = (\<lambda>(h, l). sh_Admit H h),
      sh_Ranges = (\<lambda>(h, l) t n. case sh_Ranges H h t n of (h', r) \<Rightarrow> ((h', l), r)),
      sh_Owner = (\<lambda>(h, l) t p. case sh_Owner H h t p of
                    (h', None) \<Rightarrow> ((h', l), None)
                  | (h', Some (ow, new)) \<Rightarrow> ((h', if new then l @ [TCreate ow] else l), Some (ow, new))),
      sh_Stranded = (\<lambda>(h, l). sh_Stranded H h),
      sh_Forget = (\<lambda>(h, l) ow. (sh_Forget H h ow, l @ [TForget ow])),
      sh_Seed = (\<lambda>(h, l) ows. (sh_Seed H h ows, l @ [TSeed ows])),
      sh_PauseInput = (\<lambda>(h, l) t. (sh_PauseInput H h t, l @ [TPause t])),
      sh_ResumeInput = (\<lambda>(h, l) t. (sh_ResumeInput H h t, l @ [TResume t])),
      sh_Drain = (\<lambda>(h, l) t ows. case sh_Drain H h t ows of (h', ok) \<Rightarrow> ((h', l @ [TDrain t ows ok]), ok)),
      sh_Retire = (\<lambda>(h, l) ow. (sh_Retire H h ow, l @ [TRetire ow])),
      sh_Fail = (\<lambda>(h, l) e. (sh_Fail H h e, l @ [TFail e])),
      sh_Scaled = (\<lambda>(h, l) t from to. (sh_Scaled H h t from to, l @ [TScaled t from to]))\<rparr>"

lemma add_owners_traced:
  assumes "add_owners (\<lambda>h p. sh_Owner (tracing H) h t p) (h, l) p k nxt cr = ((h', l'), out)"
  shows "\<exists>cs. l' = l @ map TCreate cs \<and>
    ((\<exists>next. out = Ok (next, cr @ cs) \<and> length next = length nxt + k \<and> take (length nxt) next = nxt \<and> set cs \<subseteq> set next)
     \<or> out = Err OwnerFailed)"
  using assms
proof (induction k arbitrary: h l p nxt cr)
  case (Suc k)
  show ?case
  proof (cases "sh_Owner H h t p")
    case (Pair h1 res)
    show ?thesis
    proof (cases res)
      case None
      with Suc.prems Pair show ?thesis by (auto simp: tracing_def)
    next
      case (Some r)
      obtain ow new where r: "r = (ow, new)" by (cases r)
      from Suc.prems Pair Some r have
        "add_owners (\<lambda>h p. sh_Owner (tracing H) h t p) (h1, if new then l @ [TCreate ow] else l) (Suc p) k (nxt @ [ow])
           (if new then cr @ [ow] else cr) = ((h', l'), out)" by (simp add: tracing_def)
      from Suc.IH [OF this] obtain cs where cs:
        "l' = (if new then l @ [TCreate ow] else l) @ map TCreate cs"
        "(\<exists>next. out = Ok (next, (if new then cr @ [ow] else cr) @ cs) \<and> length next = length (nxt @ [ow]) + k
           \<and> take (length (nxt @ [ow])) next = nxt @ [ow] \<and> set cs \<subseteq> set next) \<or> out = Err OwnerFailed" by blast
      have keep: "take (length nxt) next = nxt \<and> ow \<in> set next" if "take (length (nxt @ [ow])) next = nxt @ [ow]" for "next"
      proof -
        have "take (length nxt) (take (length (nxt @ [ow])) next) = nxt" using that by simp
        moreover have "ow \<in> set (take (length (nxt @ [ow])) next)" using that by simp
        ultimately show ?thesis by (auto dest: in_set_takeD)
      qed
      show ?thesis
        using cs keep by (intro exI [of _ "(if new then [ow] else []) @ cs"]) (cases new; fastforce)
    qed
  qed
qed auto

lemma Reslice_traced:
  assumes "Reslice (\<lambda>h p. sh_Owner (tracing H) h t p) (h, l) owners n = ((h', l'), out)" "n \<ge> 1"
  shows "\<exists>cs. l' = l @ map TCreate cs \<and>
    ((\<exists>next removed. out = Ok (next, removed, cs) \<and> int (length next) = n \<and> set cs \<subseteq> set next
        \<and> owners = take (length owners) next @ removed)
     \<or> out = Err OwnerFailed \<and> n > int (length owners))"
proof (cases "n \<le> int (length owners)")
  case True
  with assms show ?thesis by (intro exI [of _ "[]"]) (auto simp: Reslice_def)
next
  case False
  obtain h1 l1 out1 where run: "add_owners (\<lambda>h p. sh_Owner (tracing H) h t p) (h, l) (length owners) (nat n - length owners) owners []
      = ((h1, l1), out1)" by (metis surj_pair)
  from add_owners_traced [OF run] obtain cs where "l1 = l @ map TCreate cs"
    "(\<exists>next. out1 = Ok (next, [] @ cs) \<and> length next = length owners + (nat n - length owners)
        \<and> take (length owners) next = owners \<and> set cs \<subseteq> set next) \<or> out1 = Err OwnerFailed" by blast
  with run assms False show ?thesis by (intro exI [of _ cs]) (auto simp: Reslice_def)
qed

lemma foldl_traced:
  "foldl (sh_Forget (tracing H)) (h, l) ows = (foldl (sh_Forget H) h ows, l @ map TForget ows)"
  "foldl (sh_Retire (tracing H)) (h, l) ows = (foldl (sh_Retire H) h ows, l @ map TRetire ows)"
  by (induction ows arbitrary: h l) (simp_all add: tracing_def)

lemma scale_commit_traced:
  assumes "scale_commit (tracing H) (h, l) t n cur owners ranges (next, removed, created) = ((h', l'), r)"
  shows "(r = Ok True \<longrightarrow> l' = l @ [TSeed created, TPause t, TDrain t owners True, TPublish (WithTable cur t next ranges),
                               TResume t, TScaled t (length owners) n] @ map TRetire removed) \<and>
         (r = Err DrainFailed \<longrightarrow> l' = l @ [TSeed created, TPause t, TDrain t owners False, TResume t] @ map TForget created) \<and>
         (r = Err StrandedOwner \<longrightarrow> removed \<noteq> [] \<and> l' = l @ [TFail StrandedOwner]) \<and>
         r \<in> {Ok True, Err DrainFailed, Err StrandedOwner}"
proof -
  let ?h = "sh_PauseInput H (sh_Seed H h created) t"
  obtain h2 ok where d: "sh_Drain H ?h t owners = (h2, ok)" by fastforce
  have td: "sh_Drain (tracing H) (?h, l @ [TSeed created, TPause t]) t owners = ((h2, l @ [TSeed created, TPause t] @ [TDrain t owners ok]), ok)"
    using d by (simp add: tracing_def)
  have sp: "sh_PauseInput (tracing H) (sh_Seed (tracing H) (h, l) created) t = (?h, l @ [TSeed created, TPause t])"
    by (simp add: tracing_def)
  show ?thesis
  proof (cases "\<exists>ow\<in>set removed. sh_Stranded H h ow")
    case True
    with assms show ?thesis by (auto simp: scale_commit_def tracing_def)
  next
    case False
    then have ns: "\<not> (\<exists>ow\<in>set removed. sh_Stranded (tracing H) (h, l) ow)" by (simp add: tracing_def)
    show ?thesis
    proof (cases ok)
      case True
      with assms ns have "((h', l'), r) = (foldl (sh_Retire (tracing H)) (sh_Scaled (tracing H) (sh_ResumeInput (tracing H)
          (sh_Publish (tracing H) (h2, l @ [TSeed created, TPause t] @ [TDrain t owners ok]) (WithTable cur t next ranges)) t) t (length owners) n)
          removed, Ok True)"
        unfolding scale_commit_def by (simp add: sp td Let_def)
      moreover have "sh_Scaled (tracing H) (sh_ResumeInput (tracing H)
          (sh_Publish (tracing H) (g, k) ly) t) t (length owners) n = (sh_Scaled H (sh_ResumeInput H (sh_Publish H g ly) t) t (length owners) n,
          k @ [TPublish ly, TResume t, TScaled t (length owners) n])" for g k ly by (simp add: tracing_def)
      ultimately show ?thesis using True by (simp add: foldl_traced)
    next
      case False
      with assms ns have "((h', l'), r) = (foldl (sh_Forget (tracing H)) (sh_ResumeInput (tracing H)
          (h2, l @ [TSeed created, TPause t] @ [TDrain t owners ok]) t) created, Err DrainFailed)"
        unfolding scale_commit_def by (simp add: sp td Let_def)
      moreover have "sh_ResumeInput (tracing H) (g, k) t = (sh_ResumeInput H g t, k @ [TResume t])" for g k by (simp add: tracing_def)
      ultimately show ?thesis using False by (simp add: foldl_traced)
    qed
  qed
qed

section \<open>Properties\<close>

text \<open>
  C14: what a re-slice does to its pipeline, on every branch. One that changes the layout pauses the
  table's input, publishes the new layout only after the drain of the current owners succeeded, resumes
  the input and only then retires the owners the layout dropped; the new layout has exactly \<open>n\<close> owners,
  the kept ones in place. One whose drain fails publishes nothing, resumes the input and forgets every
  owner it created. Any other outcome neither pauses nor publishes; it leaves created owners behind
  exactly when registering one of them failed.
\<close>

theorem Scale_flips_only_drained:
  assumes "OwnersOf (sh_Layout H h) t = Some owners" "Scale (tracing H) (h, []) t n = ((h', log), r)"
  shows "(r = Ok True \<longrightarrow> (\<exists>next ranges removed created.
            log = map TCreate created @ [TSeed created, TPause t, TDrain t owners True,
                    TPublish (WithTable (sh_Layout H h) t next ranges), TResume t, TScaled t (length owners) n] @ map TRetire removed
            \<and> int (length next) = n \<and> owners = take (length owners) next @ removed))
       \<and> (r = Err DrainFailed \<longrightarrow> (\<exists>created.
            log = map TCreate created @ [TSeed created, TPause t, TDrain t owners False, TResume t] @ map TForget created))
       \<and> (r \<notin> {Ok True, Err DrainFailed} \<longrightarrow> (\<exists>created.
            log = map TCreate created @ (if r = Err StrandedOwner then [TFail StrandedOwner] else [])
            \<and> (r \<noteq> Err OwnerFailed \<longrightarrow> created = [])))"
proof (cases "n < 1 \<or> int (length owners) = n \<or> \<not> sh_Admit H h t n")
  case True
  with assms have "log = []" "r \<in> {Err BadCount, Ok False, Err NotAdmitted}"
    by (auto simp: Scale_def tracing_def split: if_splits)
  then show ?thesis by auto
next
  case False
  obtain h1 rg where rg: "sh_Ranges H h t n = (h1, rg)" by fastforce
  have trg: "sh_Ranges (tracing H) (h, []) t n = ((h1, []), rg)" using rg by (simp add: tracing_def)
  have tl: "sh_Layout (tracing H) (h, []) = sh_Layout H h" "sh_Admit (tracing H) (h, []) = sh_Admit H h"
    by (simp_all add: tracing_def)
  show ?thesis
  proof (cases "rg = None \<or> rg = Some []")
    case True
    with assms False have "log = []" "r \<in> {Err RangesFailed, Err NoRanges}"
      unfolding Scale_def Let_def tl trg by (auto split: if_splits)
    then show ?thesis by auto
  next
    case rgs: False
    then obtain c cs' where ranges: "rg = Some (c # cs')" by (cases rg; cases "the rg") auto
    obtain h2 l2 out where re: "Reslice (\<lambda>h p. sh_Owner (tracing H) h t p) (h1, []) owners n = ((h2, l2), out)"
      by (metis surj_pair)
    have run: "Scale (tracing H) (h, []) t n =
        (case out of Err e \<Rightarrow> ((h2, l2), Err e) | Panic \<Rightarrow> ((h2, l2), Panic)
         | Ok sliced \<Rightarrow> scale_commit (tracing H) (h2, l2) t n (sh_Layout H h) owners (c # cs') sliced)"
      using False assms(1) unfolding Scale_def Let_def tl trg by (cases out) (simp_all add: ranges re)
    from Reslice_traced [OF re] False obtain cr where cr: "l2 = map TCreate cr"
      "(\<exists>next removed. out = Ok (next, removed, cr) \<and> int (length next) = n \<and> set cr \<subseteq> set next
          \<and> owners = take (length owners) next @ removed) \<or> out = Err OwnerFailed" by auto
    show ?thesis
    proof (cases "out = Err OwnerFailed")
      case True
      with assms(2) run cr(1) show ?thesis by auto
    next
      case False
      with cr(2) obtain "next" removed where o: "out = Ok (next, removed, cr)" "int (length next) = n"
        "owners = take (length owners) next @ removed" by blast
      from assms(2) run o(1) have "scale_commit (tracing H) (h2, l2) t n (sh_Layout H h) owners (c # cs') (next, removed, cr) = ((h', log), r)"
        by simp
      note tr = scale_commit_traced [OF this]
      have "cr = []" if "removed \<noteq> []"
      proof -
        have "length owners < length next \<longrightarrow> removed = []" using o(3) by (metis append_self_conv length_take min.absorb4 length_append add_cancel_right_right length_0_conv)
        with that have "length next \<le> length owners" by auto
        then have "n \<le> int (length owners)" using o(2) by simp
        with re o(1) show ?thesis by (auto simp: Reslice_def split: if_splits)
      qed
      with tr cr(1) o show ?thesis by auto
    qed
  qed
qed

text \<open>A pipeline with one owner that scales out to two; every step succeeds.\<close>

definition calm_host :: "bool \<Rightarrow> ((string, int) layout, string, int) scale_host" where
  "calm_host drains =
     \<lparr>sh_Layout = Some, sh_Publish = (\<lambda>h l. l), sh_Admit = (\<lambda>h t n. True),
      sh_Ranges = (\<lambda>h t n. (h, Some [\<lparr>ck_Low = None, ck_High = None\<rparr>])),
      sh_Owner = (\<lambda>h t p. (h, Some (''b'', True))), sh_Stranded = (\<lambda>h w. False), sh_Forget = (\<lambda>h w. h),
      sh_Seed = (\<lambda>h ws. h), sh_PauseInput = (\<lambda>h t. h), sh_ResumeInput = (\<lambda>h t. h),
      sh_Drain = (\<lambda>h t ws. (h, drains)), sh_Retire = (\<lambda>h w. h), sh_Fail = (\<lambda>h e. h), sh_Scaled = (\<lambda>h t f n. h)\<rparr>"

definition one_owner :: "(string, int) layout" where
  "one_owner = \<lparr>ly_owners = [(''t'', [''a''])], ly_ranges = []\<rparr>"

lemma calm_runs:
  "\<exists>s l. Scale (tracing (calm_host drains)) (one_owner, []) ''t'' 2 = ((s, l), if drains then Ok True else Err DrainFailed)"
  by (simp add: Scale_def calm_host_def tracing_def one_owner_def OwnersOf_def Reslice_def scale_commit_def numeral_2_eq_2 Let_def)

theorem Scale_flips_only_drained_witness:
  "(\<exists>h log next ranges removed created. Scale (tracing (calm_host True)) (one_owner, []) ''t'' 2 = ((h, log), Ok True) \<and>
      log = map TCreate created @ [TSeed created, TPause ''t'', TDrain ''t'' [''a''] True,
        TPublish (WithTable (Some one_owner) ''t'' next ranges), TResume ''t'', TScaled ''t'' (length [''a'']) 2] @ map TRetire removed) \<and>
   (\<exists>h log created. Scale (tracing (calm_host False)) (one_owner, []) ''t'' 2 = ((h, log), Err DrainFailed) \<and>
      log = map TCreate created @ [TSeed created, TPause ''t'', TDrain ''t'' [''a''] False, TResume ''t''] @ map TForget created)"
proof -
  have ow: "OwnersOf (sh_Layout (calm_host d) one_owner) ''t'' = Some [''a'']" "sh_Layout (calm_host d) one_owner = Some one_owner" for d
    by (simp_all add: calm_host_def one_owner_def OwnersOf_def)
  obtain s l where t: "Scale (tracing (calm_host True)) (one_owner, []) ''t'' 2 = ((s, l), Ok True)" using calm_runs [of True] by auto
  obtain s' l' where f: "Scale (tracing (calm_host False)) (one_owner, []) ''t'' 2 = ((s', l'), Err DrainFailed)" using calm_runs [of False] by auto
  from Scale_flips_only_drained [OF ow(1) t] Scale_flips_only_drained [OF ow(1) f] t f show ?thesis
    unfolding ow(2) by blast
qed

end
