(* ===== verification/Gate.thy ===== *)
theory Gate
  imports Go_Text
begin

text \<open>
  \<open>internal/gate/gate.go\<close>: the windows that hold a table's live batches while one of its chunks is being
  read. The mutex makes the \<open>...Locked\<close> operations atomic; a drain takes items under it and delivers
  them after releasing it, so the sink's calls take the gate and return it as the other goroutines
  left it. Waiting for a wake-up is such a call too. The channel producers wait on is the number of
  times it was closed and replaced.

  The lemmas show that a window's key names it uniquely, that the choice among a table's open
  windows does not depend on the map order, and that a gate is a queue per window: what is taken
  followed by what is held is what was appended.
\<close>

section \<open>Windows\<close>

record window =
  w_Target :: string
  w_Partition :: int

definition Key :: "window \<Rightarrow> string" where
  "Key w = w_Target w @ CHR ''#'' # FormatInt (w_Partition w)"

record 'i gate =
  gt_maxCount :: nat
  gt_maxBytes :: int
  gt_size :: "('i \<Rightarrow> int) option"
  gt_on :: "(string, bool) gomap"
  gt_win :: "(string, window) gomap"
  gt_buf :: "(string, 'i list) gomap"
  gt_bytes :: "(string, int) gomap"
  gt_ready :: "(string, u64) gomap"
  gt_drain :: nat

definition New_gate :: "nat \<Rightarrow> int \<Rightarrow> ('i \<Rightarrow> int) option \<Rightarrow> 'i gate" where
  "New_gate maxCount maxBytes measured =
     \<lparr>gt_maxCount = maxCount, gt_maxBytes = maxBytes, gt_size = measured, gt_on = [], gt_win = [], gt_buf = [],
      gt_bytes = [], gt_ready = [], gt_drain = 0\<rparr>"

definition wakeLocked :: "'i gate \<Rightarrow> 'i gate" where
  "wakeLocked g = g\<lparr>gt_drain := gt_drain g + 1\<rparr>"

definition gate_Open :: "'i gate \<Rightarrow> string \<Rightarrow> int \<Rightarrow> 'i gate" where
  "gate_Open g target part =
     (let w = \<lparr>w_Target = target, w_Partition = part\<rparr>
      in g\<lparr>gt_on := gm_put (Key w) True (gt_on g), gt_win := gm_put (Key w) w (gt_win g)\<rparr>)"

definition MarkReady :: "'i gate \<Rightarrow> string \<Rightarrow> int \<Rightarrow> u64 \<Rightarrow> 'i gate" where
  "MarkReady g target part windowID =
     (let key = Key \<lparr>w_Target = target, w_Partition = part\<rparr>
      in if \<not> gm_at False (gt_on g) key then g
         else wakeLocked (g\<lparr>gt_ready := gm_put key windowID (gt_ready g)\<rparr>))"

definition ClearReady :: "'i gate \<Rightarrow> string \<Rightarrow> int \<Rightarrow> 'i gate" where
  "ClearReady g target part =
     g\<lparr>gt_ready := gm_del (Key \<lparr>w_Target = target, w_Partition = part\<rparr>) (gt_ready g)\<rparr>"

text \<open>The loop of \<open>openKeyLocked\<close> over the open flags.\<close>

fun lowest_open :: "(string, window) gomap \<Rightarrow> string \<Rightarrow> (string, bool) gomap \<Rightarrow> window option \<Rightarrow> window option" where
  "lowest_open win target [] best = best"
| "lowest_open win target ((k, on) # rest) best =
     (if \<not> on then lowest_open win target rest best
      else (case map_of win k of
              None \<Rightarrow> lowest_open win target rest best
            | Some w \<Rightarrow>
                if w_Target w = target \<and> (case best of None \<Rightarrow> True | Some b \<Rightarrow> w_Partition w < w_Partition b)
                then lowest_open win target rest (Some w)
                else lowest_open win target rest best))"

definition openKeyLocked :: "'i gate \<Rightarrow> string \<Rightarrow> string option" where
  "openKeyLocked g target = map_option Key (lowest_open (gt_win g) target (gt_on g) None)"

definition fullLocked :: "'i gate \<Rightarrow> string \<Rightarrow> bool" where
  "fullLocked g key \<longleftrightarrow>
     (gt_maxCount g > 0 \<and> length (gm_at [] (gt_buf g) key) \<ge> gt_maxCount g) \<or>
     (gt_maxBytes g > 0 \<and> gt_size g \<noteq> None \<and> gm_at 0 (gt_bytes g) key \<ge> gt_maxBytes g)"

definition appendLocked :: "'i gate \<Rightarrow> string \<Rightarrow> 'i \<Rightarrow> 'i gate" where
  "appendLocked g key item =
     g\<lparr>gt_buf := gm_put key (gm_at [] (gt_buf g) key @ [item]) (gt_buf g),
       gt_bytes := (case gt_size g of
                      None \<Rightarrow> gt_bytes g
                    | Some weigh \<Rightarrow> gm_put key (gm_at 0 (gt_bytes g) key + weigh item) (gt_bytes g))\<rparr>"

definition takeLocked :: "'i gate \<Rightarrow> string \<Rightarrow> 'i gate \<times> 'i list" where
  "takeLocked g key = (g\<lparr>gt_buf := gm_del key (gt_buf g), gt_bytes := gm_del key (gt_bytes g)\<rparr>, gm_at [] (gt_buf g) key)"

definition sealLocked :: "'i gate \<Rightarrow> string \<Rightarrow> 'i gate" where
  "sealLocked g key =
     wakeLocked (g\<lparr>gt_on := gm_del key (gt_on g), gt_win := gm_del key (gt_win g), gt_ready := gm_del key (gt_ready g)\<rparr>)"

definition gate_Len :: "'i gate \<Rightarrow> string \<Rightarrow> int \<Rightarrow> nat" where
  "gate_Len g target part = length (gm_at [] (gt_buf g) (Key \<lparr>w_Target = target, w_Partition = part\<rparr>))"

definition gate_IsOpen :: "'i gate \<Rightarrow> string \<Rightarrow> int \<Rightarrow> bool" where
  "gate_IsOpen g target part = gm_at False (gt_on g) (Key \<lparr>w_Target = target, w_Partition = part\<rparr>)"

fun buffered_from :: "(string, window) gomap \<Rightarrow> (string, 'i list) gomap \<Rightarrow> string list \<Rightarrow> string list" where
  "buffered_from win [] out = out"
| "buffered_from win ((k, buf) # rest) out =
     (if buf = [] then buffered_from win rest out
      else (case map_of win k of
              Some w \<Rightarrow> if w_Target w \<notin> set out then buffered_from win rest (out @ [w_Target w]) else buffered_from win rest out
            | None \<Rightarrow> buffered_from win rest out))"

definition BufferedTablesLocked :: "'i gate \<Rightarrow> string list" where
  "BufferedTablesLocked g = buffered_from (gt_win g) (gt_buf g) []"

section \<open>Drains\<close>

text \<open>The sink, and the wait of a blocked producer: each returns the gate and the world it left.
  A delivery reports success; the wait reports whether the context ended.\<close>

record ('i, 'h) gate_sink =
  sk_Flush :: "'i gate \<times> 'h \<Rightarrow> window \<Rightarrow> u64 \<Rightarrow> 'i list \<Rightarrow> ('i gate \<times> 'h) \<times> bool"
  sk_Close :: "'i gate \<times> 'h \<Rightarrow> window \<Rightarrow> 'i list \<Rightarrow> ('i gate \<times> 'h) \<times> bool"
  sk_Release :: "'i gate \<times> 'h \<Rightarrow> 'i list \<Rightarrow> 'i gate \<times> 'h"
  sk_Wait :: "'i gate \<times> 'h \<Rightarrow> nat \<Rightarrow> ('i gate \<times> 'h) \<times> bool"

definition gate_Flush :: "('i, 'h) gate_sink \<Rightarrow> 'i gate \<times> 'h \<Rightarrow> string \<Rightarrow> int \<Rightarrow> u64 \<Rightarrow> ('i gate \<times> 'h) \<times> bool" where
  "gate_Flush S gh target part windowID =
     (let w = \<lparr>w_Target = target, w_Partition = part\<rparr>;
          (g1, items) = takeLocked (fst gh) (Key w);
          g2 = wakeLocked (g1\<lparr>gt_ready := gm_del (Key w) (gt_ready g1)\<rparr>)
      in if items = [] then ((g2, snd gh), True) else sk_Flush S (g2, snd gh) w windowID items)"

definition drainReady :: "('i, 'h) gate_sink \<Rightarrow> 'i gate \<times> 'h \<Rightarrow> string \<Rightarrow> ('i gate \<times> 'h) \<times> bool" where
  "drainReady S gh key =
     (case (map_of (gt_ready (fst gh)) key, map_of (gt_win (fst gh)) key) of
        (Some windowID, Some w) \<Rightarrow>
          (let (g1, items) = takeLocked (fst gh) key; g2 = wakeLocked g1
           in if items = [] then ((g2, snd gh), True) else sk_Flush S (g2, snd gh) w windowID items)
      | _ \<Rightarrow> (gh, True))"

text \<open>A failed delivery: seal the window and drop what joined it meanwhile.\<close>

definition close_failed :: "('i, 'h) gate_sink \<Rightarrow> window \<Rightarrow> 'i gate \<times> 'h \<Rightarrow> 'i gate \<times> 'h" where
  "close_failed S w gh =
     (case takeLocked (fst gh) (Key w) of (g3, late) \<Rightarrow>
        (let gh3 = (sealLocked g3 (Key w), snd gh)
         in if late = [] then gh3 else sk_Release S gh3 late))"

partial_function (option) gate_Close ::
  "('i, 'h) gate_sink \<Rightarrow> window \<Rightarrow> 'i gate \<times> 'h \<Rightarrow> (('i gate \<times> 'h) \<times> bool) option" where
  [code]: "gate_Close S w gh =
     (case takeLocked (fst gh) (Key w) of (g1, items) \<Rightarrow>
        (let g2 = g1\<lparr>gt_ready := gm_del (Key w) (gt_ready g1)\<rparr>
         in if items = [] then Some ((sealLocked g2 (Key w), snd gh), True)
            else (case sk_Close S (wakeLocked g2, snd gh) w items of (gh', ok) \<Rightarrow>
                    if ok then gate_Close S w gh' else Some (close_failed S w gh', False))))"

fun release_keys :: "'i gate \<Rightarrow> string list \<Rightarrow> 'i list \<Rightarrow> 'i gate \<times> 'i list" where
  "release_keys g [] held = (g, held)"
| "release_keys g (k # ks) held =
     (case takeLocked g k of (g1, items) \<Rightarrow>
        release_keys (g1\<lparr>gt_on := gm_del k (gt_on g1), gt_win := gm_del k (gt_win g1), gt_ready := gm_del k (gt_ready g1)\<rparr>)
          ks (held @ items))"

definition ReleaseAll :: "('i, 'h) gate_sink \<Rightarrow> 'i gate \<times> 'h \<Rightarrow> 'i gate \<times> 'h" where
  "ReleaseAll S gh =
     (case release_keys (fst gh) (map fst (gt_on (fst gh))) [] of (g1, held) \<Rightarrow>
        (let gh1 = (wakeLocked g1, snd gh) in if held = [] then gh1 else sk_Release S gh1 held))"

datatype hold_result = Held | NotHeld | HoldFailed

text \<open>What a producer does at a full window: drain it when its chunk is ready, else wait.\<close>

definition hold_wait :: "('i, 'h) gate_sink \<Rightarrow> string \<Rightarrow> 'i gate \<times> 'h \<Rightarrow> ('i gate \<times> 'h) \<times> hold_result option" where
  "hold_wait S key gh =
     (if gm_has (gt_ready (fst gh)) key
      then (case drainReady S gh key of (gh', ok) \<Rightarrow> (gh', if ok then None else Some HoldFailed))
      else (case sk_Wait S gh (gt_drain (fst gh)) of (gh', cancelled) \<Rightarrow> (gh', if cancelled then Some NotHeld else None)))"

text \<open>The loop of \<open>Hold\<close> for the window \<open>key\<close> it found.\<close>

partial_function (option) hold_loop ::
  "('i, 'h) gate_sink \<Rightarrow> string \<Rightarrow> 'i \<Rightarrow> string \<Rightarrow> 'i gate \<times> 'h \<Rightarrow> (('i gate \<times> 'h) \<times> hold_result) option" where
  [code]: "hold_loop S target item key gh =
     (if \<not> fullLocked (fst gh) key then Some ((appendLocked (fst gh) key item, snd gh), Held)
      else
        (case hold_wait S key gh of (gh', stop) \<Rightarrow>
           (case stop of
              Some r \<Rightarrow> Some (gh', r)
            | None \<Rightarrow> (case openKeyLocked (fst gh') target of
                         None \<Rightarrow> Some (gh', NotHeld)
                       | Some key' \<Rightarrow> hold_loop S target item key' gh'))))"

definition gate_Hold ::
  "('i, 'h) gate_sink \<Rightarrow> string \<Rightarrow> 'i \<Rightarrow> 'i gate \<times> 'h \<Rightarrow> (('i gate \<times> 'h) \<times> hold_result) option" where
  "gate_Hold S target item gh =
     (case openKeyLocked (fst gh) target of
        None \<Rightarrow> Some (gh, NotHeld)
      | Some key \<Rightarrow> hold_loop S target item key gh)"

section \<open>Keys\<close>

lemma hash_not_digit: "CHR ''#'' \<notin> set (FormatInt i)"
  by (rule FormatInt_no_sep) simp_all

lemma FormatInt_inject: "FormatInt i = FormatInt j \<longleftrightarrow> i = j"
proof
  assume eq: "FormatInt i = FormatInt j"
  define n where "n = nat (\<bar>i\<bar> + \<bar>j\<bar>)"
  have "int n < 2 ^ n" using less_exp [of n] by (metis of_nat_less_iff of_nat_numeral of_nat_power)
  then have r: "- (2 ^ n) \<le> i" "i < 2 ^ n" "- (2 ^ n) \<le> j" "j < 2 ^ n" unfolding n_def by linarith+
  have i: "ParseInt 10 (Suc n) (FormatInt i) = Some i" by (rule ParseInt_FormatInt) (use r in simp_all)
  have j: "ParseInt 10 (Suc n) (FormatInt j) = Some j" by (rule ParseInt_FormatInt) (use r in simp_all)
  from i j show "i = j" unfolding eq by (metis option.inject)
qed simp

lemma append_sep_inject:
  assumes "c \<notin> set y" "c \<notin> set y'"
  shows "x @ c # y = x' @ c # y' \<longleftrightarrow> x = x' \<and> y = y'"
proof
  assume eq: "x @ c # y = x' @ c # y'"
  have tw: "takeWhile (\<lambda>a. a \<noteq> c) (rev v @ c # rev u) = rev v" if "c \<notin> set v" for u v
    using that by (subst takeWhile_append2) auto
  have "rev y @ c # rev x = rev y' @ c # rev x'" using arg_cong [OF eq, of rev] by simp
  then have "rev y = rev y'" using tw [OF assms(1), of x] tw [OF assms(2), of x'] by simp
  with eq show "x = x' \<and> y = y'" by simp
qed simp

lemma Key_inject: "Key w = Key w' \<longleftrightarrow> w = w'"
  by (auto simp: Key_def append_sep_inject [OF hash_not_digit hash_not_digit] FormatInt_inject)

definition key_target :: "string \<Rightarrow> string" where
  "key_target k = rev (tl (dropWhile (\<lambda>c. c \<noteq> CHR ''#'') (rev k)))"

lemma key_target_Key [simp]: "key_target (Key w) = w_Target w"
proof -
  have "dropWhile (\<lambda>c. c \<noteq> CHR ''#'') (rev (FormatInt n) @ CHR ''#'' # rev x) = CHR ''#'' # rev x" for n x
    using hash_not_digit [of n] by (subst dropWhile_append2) auto
  then show ?thesis by (simp add: key_target_def Key_def)
qed

section \<open>The open window of a table\<close>

definition open_windows :: "(string, window) gomap \<Rightarrow> string \<Rightarrow> (string, bool) gomap \<Rightarrow> window set" where
  "open_windows win target on = {w. \<exists>k. (k, True) \<in> set on \<and> map_of win k = Some w \<and> w_Target w = target}"

lemma open_windows_Cons:
  "open_windows win target ((k, on) # rest) =
     (case map_of win k of
        Some w \<Rightarrow> if on \<and> w_Target w = target then insert w (open_windows win target rest) else open_windows win target rest
      | None \<Rightarrow> open_windows win target rest)"
  by (auto simp: open_windows_def split: option.splits)

lemma lowest_open_step:
  assumes "map_of win k = Some w" "w_Target w = target"
  shows "lowest_open win target ((k, True) # rest) best =
    lowest_open win target rest (if (case best of None \<Rightarrow> True | Some v \<Rightarrow> w_Partition w < w_Partition v) then Some w else best)"
  using assms by simp

lemma lowest_open_skip:
  assumes "\<forall>w. map_of win k = Some w \<longrightarrow> on \<longrightarrow> w_Target w \<noteq> target"
  shows "lowest_open win target ((k, on) # rest) best = lowest_open win target rest best"
    "open_windows win target ((k, on) # rest) = open_windows win target rest"
  using assms by (auto simp: open_windows_Cons split: option.splits)

lemma lowest_open_spec:
  "case lowest_open win target on best of
     None \<Rightarrow> best = None \<and> open_windows win target on = {}
   | Some w \<Rightarrow> w \<in> open_windows win target on \<union> set_option best \<and>
      (\<forall>v \<in> open_windows win target on \<union> set_option best. w_Partition w \<le> w_Partition v)"
proof (induction on arbitrary: best)
  case Nil
  then show ?case by (cases best) (simp_all add: open_windows_def)
next
  case (Cons e on)
  obtain k b where e: "e = (k, b)" by (cases e)
  show ?case
  proof (cases "\<exists>w. map_of win k = Some w \<and> b \<and> w_Target w = target")
    case False
    then have "\<forall>w. map_of win k = Some w \<longrightarrow> b \<longrightarrow> w_Target w \<noteq> target" by blast
    note skip = lowest_open_skip [OF this]
    show ?thesis using Cons.IH [of best] unfolding e skip .
  next
    case True
    then obtain w where w: "map_of win k = Some w" "w_Target w = target" and b: "b" by blast
    let ?best = "if (case best of None \<Rightarrow> True | Some v \<Rightarrow> w_Partition w < w_Partition v) then Some w else best"
    have step: "lowest_open win target (e # on) best = lowest_open win target on ?best"
      unfolding e using b lowest_open_step [OF w] by simp
    have ow: "open_windows win target (e # on) = insert w (open_windows win target on)"
      using e b w by (simp add: open_windows_Cons)
    have some: "\<exists>u. ?best = Some u \<and> w_Partition u \<le> w_Partition w \<and> (\<forall>v. best = Some v \<longrightarrow> w_Partition u \<le> w_Partition v)
        \<and> (u = w \<or> best = Some u)" by (cases best) auto
    obtain u where u: "?best = Some u" "w_Partition u \<le> w_Partition w" "\<And>v. best = Some v \<Longrightarrow> w_Partition u \<le> w_Partition v"
      "u = w \<or> best = Some u" using some by blast
    from Cons.IH [of ?best] u(1) obtain v where v: "lowest_open win target on ?best = Some v"
      "v \<in> insert u (open_windows win target on)" "\<forall>x \<in> insert u (open_windows win target on). w_Partition v \<le> w_Partition x"
      by (cases "lowest_open win target on ?best") auto
    have "w_Partition v \<le> w_Partition u" using v(3) by simp
    then have "\<forall>x \<in> insert w (open_windows win target on) \<union> set_option best. w_Partition v \<le> w_Partition x"
      using v(3) u(2,3) by (auto intro: order_trans)
    moreover have "v \<in> insert w (open_windows win target on) \<union> set_option best" using v(2) u(4) by auto
    ultimately show ?thesis unfolding step ow using v(1) by simp
  qed
qed

text \<open>
  \<open>gate_ok\<close>: the open flags and the windows agree, a window is filed under its own key, only open windows
  hold items, and a table has at most one open window, as the snapshot of a table works through its
  partitions one at a time.
\<close>

definition gate_ok :: "'i gate \<Rightarrow> bool" where
  "gate_ok g \<longleftrightarrow>
     gm_wf (gt_on g) \<and> (\<forall>k. map_of (gt_on g) k \<noteq> Some False) \<and>
     (\<forall>k. gm_has (gt_on g) k = gm_has (gt_win g) k) \<and>
     (\<forall>k w. map_of (gt_win g) k = Some w \<longrightarrow> Key w = k) \<and>
     (\<forall>k. gm_at [] (gt_buf g) k \<noteq> [] \<longrightarrow> gm_has (gt_win g) k) \<and>
     (\<forall>k k' w w'. map_of (gt_win g) k = Some w \<longrightarrow> map_of (gt_win g) k' = Some w' \<longrightarrow> w_Target w = w_Target w' \<longrightarrow> k = k')"

lemma gate_okD:
  assumes "gate_ok g"
  shows "gm_wf (gt_on g)" "map_of (gt_on g) k \<noteq> Some False" "gm_has (gt_on g) k = gm_has (gt_win g) k"
    "map_of (gt_win g) k = Some w \<Longrightarrow> Key w = k" "gm_at [] (gt_buf g) k \<noteq> [] \<Longrightarrow> gm_has (gt_win g) k"
    "map_of (gt_win g) k = Some w \<Longrightarrow> map_of (gt_win g) k' = Some w' \<Longrightarrow> w_Target w = w_Target w' \<Longrightarrow> k = k'"
  using assms unfolding gate_ok_def by blast+

lemma gate_okI:
  assumes "gm_wf (gt_on g)" "\<And>k. map_of (gt_on g) k \<noteq> Some False" "\<And>k. gm_has (gt_on g) k = gm_has (gt_win g) k"
    "\<And>k w. map_of (gt_win g) k = Some w \<Longrightarrow> Key w = k" "\<And>k. gm_at [] (gt_buf g) k \<noteq> [] \<Longrightarrow> gm_has (gt_win g) k"
    "\<And>k k' w w'. map_of (gt_win g) k = Some w \<Longrightarrow> map_of (gt_win g) k' = Some w' \<Longrightarrow> w_Target w = w_Target w' \<Longrightarrow> k = k'"
  shows "gate_ok g"
  using assms unfolding gate_ok_def by blast

lemma open_windows_ok:
  assumes "gate_ok g"
  shows "w \<in> open_windows (gt_win g) t (gt_on g) \<longleftrightarrow> map_of (gt_win g) (Key w) = Some w \<and> w_Target w = t"
proof -
  have on: "(k, True) \<in> set (gt_on g) \<longleftrightarrow> gm_has (gt_win g) k" for k
  proof -
    have "(k, True) \<in> set (gt_on g) \<longleftrightarrow> map_of (gt_on g) k = Some True"
      using assms by (simp add: gate_ok_def gm_wf_lookup)
    also have "\<dots> \<longleftrightarrow> gm_has (gt_on g) k"
    proof -
      have "map_of (gt_on g) k \<noteq> Some False" using assms by (simp add: gate_ok_def)
      then show ?thesis by (cases "map_of (gt_on g) k") (auto simp: gm_has_def)
    qed
    also have "\<dots> \<longleftrightarrow> gm_has (gt_win g) k" using assms by (simp add: gate_ok_def)
    finally show ?thesis .
  qed
  have "map_of (gt_win g) k = Some w \<Longrightarrow> k = Key w" for k using assms by (auto simp: gate_ok_def)
  then show ?thesis unfolding open_windows_def on by (auto simp: gm_has_def)
qed

lemma openKeyLocked_iff:
  assumes "gate_ok g"
  shows "openKeyLocked g t = Some k \<longleftrightarrow> (\<exists>w. map_of (gt_win g) k = Some w \<and> w_Target w = t)"
proof -
  let ?W = "open_windows (gt_win g) t (gt_on g)"
  note spec = lowest_open_spec [where win = "gt_win g" and target = t and on = "gt_on g" and best = None]
  have keys: "map_of (gt_win g) k = Some w \<Longrightarrow> k = Key w" for k w using assms by (auto simp: gate_ok_def)
  have uniq: "w \<in> ?W \<Longrightarrow> w' \<in> ?W \<Longrightarrow> Key w = Key w'" for w w'
    using assms unfolding open_windows_ok [OF assms] gate_ok_def by metis
  show ?thesis
  proof
    assume "openKeyLocked g t = Some k"
    then obtain w where "lowest_open (gt_win g) t (gt_on g) None = Some w" "k = Key w" by (auto simp: openKeyLocked_def)
    with spec have "w \<in> ?W" by simp
    with \<open>k = Key w\<close> show "\<exists>w. map_of (gt_win g) k = Some w \<and> w_Target w = t" by (auto simp: open_windows_ok [OF assms])
  next
    assume "\<exists>w. map_of (gt_win g) k = Some w \<and> w_Target w = t"
    then obtain w where w: "map_of (gt_win g) k = Some w" "w_Target w = t" by blast
    with keys have "w \<in> ?W" by (auto simp: open_windows_ok [OF assms])
    then obtain v where v: "lowest_open (gt_win g) t (gt_on g) None = Some v" using spec by (cases "lowest_open (gt_win g) t (gt_on g) None") auto
    with spec have "v \<in> ?W" by simp
    then have "Key v = k" using uniq [OF \<open>w \<in> ?W\<close>] keys [OF w(1)] by metis
    with v show "openKeyLocked g t = Some k" by (simp add: openKeyLocked_def)
  qed
qed

section \<open>What a gate promises the pump\<close>

text \<open>The operations a pump and the drains run under the gate's mutex, by the gate's own names.\<close>

record ('g, 'i) gate_ops =
  go_openKey :: "'g \<Rightarrow> string \<Rightarrow> string option"
  go_Open :: "'g \<Rightarrow> string \<Rightarrow> int \<Rightarrow> 'g"
  go_full :: "'g \<Rightarrow> string \<Rightarrow> bool"
  go_append :: "'g \<Rightarrow> string \<Rightarrow> 'i \<Rightarrow> 'g"
  go_take :: "'g \<Rightarrow> string \<Rightarrow> 'g \<times> 'i list"
  go_seal :: "'g \<Rightarrow> string \<Rightarrow> 'g"
  go_ready :: "'g \<Rightarrow> string \<Rightarrow> int \<Rightarrow> u64 option \<Rightarrow> 'g"

definition set_ready :: "'i gate \<Rightarrow> string \<Rightarrow> int \<Rightarrow> u64 option \<Rightarrow> 'i gate" where
  "set_ready g target part r = (case r of Some i \<Rightarrow> MarkReady g target part i | None \<Rightarrow> ClearReady g target part)"

definition window_gate :: "('i gate, 'i) gate_ops" where
  "window_gate = \<lparr>go_openKey = openKeyLocked, go_Open = gate_Open, go_full = fullLocked, go_append = appendLocked,
     go_take = takeLocked, go_seal = sealLocked, go_ready = set_ready\<rparr>"

definition held_in :: "'i gate \<Rightarrow> string \<Rightarrow> 'i list" where
  "held_in g k = gm_at [] (gt_buf g) k"

text \<open>Only open windows hold items, each table has at most one, and every operation acts on one window.\<close>

locale holding_gate =
  fixes G :: "('g, 'i) gate_ops" and ok :: "'g \<Rightarrow> bool" and held :: "'g \<Rightarrow> string \<Rightarrow> 'i list"
  assumes key_law: "ok g \<Longrightarrow> go_openKey G g t = Some k \<Longrightarrow> key_target k = t"
    and held_law: "ok g \<Longrightarrow> held g k \<noteq> [] \<Longrightarrow> go_openKey G g (key_target k) = Some k"
    and open_law: "ok g \<Longrightarrow> go_openKey G g t = None \<Longrightarrow>
      ok (go_Open G g t p) \<and> go_openKey G (go_Open G g t p) t \<noteq> None \<and> held (go_Open G g t p) = held g
      \<and> (\<forall>t'. t' \<noteq> t \<longrightarrow> go_openKey G (go_Open G g t p) t' = go_openKey G g t')"
    and append_law: "ok g \<Longrightarrow> go_openKey G g t = Some k \<Longrightarrow>
      ok (go_append G g k i) \<and> go_openKey G (go_append G g k i) = go_openKey G g
      \<and> held (go_append G g k i) = (held g)(k := held g k @ [i])"
    and take_law: "ok g \<Longrightarrow> go_take G g k = (g', items) \<Longrightarrow>
      ok g' \<and> go_openKey G g' = go_openKey G g \<and> items = held g k \<and> held g' = (held g)(k := [])"
    and seal_law: "ok g \<Longrightarrow> go_openKey G g t = Some k \<Longrightarrow> held g k = [] \<Longrightarrow>
      ok (go_seal G g k) \<and> held (go_seal G g k) = held g
      \<and> go_openKey G (go_seal G g k) = (go_openKey G g)(t := None)"
    and ready_law: "ok g \<Longrightarrow>
      ok (go_ready G g t p r) \<and> held (go_ready G g t p r) = held g \<and> go_openKey G (go_ready G g t p r) = go_openKey G g"
    and reopen_law: "ok g \<Longrightarrow> go_openKey G g t = Some (Key \<lparr>w_Target = t, w_Partition = p\<rparr>) \<Longrightarrow>
      ok (go_Open G g t p) \<and> held (go_Open G g t p) = held g \<and> go_openKey G (go_Open G g t p) = go_openKey G g"

lemma option_eqI: "(\<And>k. a = Some k \<longleftrightarrow> b = Some k) \<Longrightarrow> a = b"
  by (cases a; cases b) auto

lemma openKeyLocked_cong:
  "gt_win g' = gt_win g \<Longrightarrow> gt_on g' = gt_on g \<Longrightarrow> openKeyLocked g' = openKeyLocked g"
  by (simp add: openKeyLocked_def fun_eq_iff)

lemma gate_ok_cong:
  "gt_win g' = gt_win g \<Longrightarrow> gt_on g' = gt_on g \<Longrightarrow> (\<And>k. held_in g' k \<noteq> [] \<Longrightarrow> gm_has (gt_win g) k) \<Longrightarrow> gate_ok g \<Longrightarrow> gate_ok g'"
  by (simp add: gate_ok_def held_in_def)

lemma gate_ok_Open:
  assumes ok: "gate_ok g" and new: "openKeyLocked g t = None"
  shows "gate_ok (gate_Open g t p)"
proof -
  let ?w = "\<lparr>w_Target = t, w_Partition = p\<rparr>"
  have none: "map_of (gt_win g) k = Some w \<Longrightarrow> w_Target w \<noteq> t" for k w
    using new openKeyLocked_iff [OF ok, of t k] by auto
  note d = gate_okD [OF ok]
  have f: "gt_on (gate_Open g t p) = gm_put (Key ?w) True (gt_on g)" "gt_win (gate_Open g t p) = gm_put (Key ?w) ?w (gt_win g)"
    "gt_buf (gate_Open g t p) = gt_buf g" by (simp_all add: gate_Open_def Let_def)
  show ?thesis
  proof (rule gate_okI, unfold f, goal_cases)
    case (6 k k' w w')
    then show ?case using none [of k] none [of k'] d(6) [of k w k' w'] by (auto split: if_splits)
  qed (use d in \<open>auto split: if_splits\<close>)
qed

lemma openKeyLocked_Open:
  assumes ok: "gate_ok g" and new: "openKeyLocked g t = None"
  shows "openKeyLocked (gate_Open g t p) t' = (if t' = t then Some (Key \<lparr>w_Target = t, w_Partition = p\<rparr>) else openKeyLocked g t')"
proof -
  let ?k = "Key \<lparr>w_Target = t, w_Partition = p\<rparr>"
  note iff = openKeyLocked_iff [OF gate_ok_Open [OF ok new, of p]] and iff0 = openKeyLocked_iff [OF ok]
  have win: "map_of (gt_win (gate_Open g t p)) = (map_of (gt_win g))(?k \<mapsto> \<lparr>w_Target = t, w_Partition = p\<rparr>)"
    by (simp add: gate_Open_def Let_def)
  have old: "map_of (gt_win g) ?k = None"
  proof (rule ccontr)
    assume "map_of (gt_win g) ?k \<noteq> None"
    then obtain w where w: "map_of (gt_win g) ?k = Some w" by auto
    with ok have "Key w = ?k" by (simp add: gate_ok_def)
    then have "w = \<lparr>w_Target = t, w_Partition = p\<rparr>" by (simp add: Key_inject)
    with w new iff0 [of t ?k] show False by simp
  qed
  show ?thesis
  proof (cases "t' = t")
    case True
    then show ?thesis using iff [of t ?k] by (simp add: win)
  next
    case False
    have "openKeyLocked (gate_Open g t p) t' = Some k \<longleftrightarrow> openKeyLocked g t' = Some k" for k
      unfolding iff iff0 win using False old by (cases "k = ?k") auto
    then have "openKeyLocked (gate_Open g t p) t' = openKeyLocked g t'" by (rule option_eqI)
    with False show ?thesis by simp
  qed
qed

lemma openKeyLocked_seal:
  assumes ok: "gate_ok g" and op: "openKeyLocked g t = Some k" and empty: "held_in g k = []"
  shows "gate_ok (sealLocked g k)" "openKeyLocked (sealLocked g k) = (openKeyLocked g)(t := None)"
proof -
  show ok': "gate_ok (sealLocked g k)"
  proof (rule gate_okI, goal_cases)
    case (5 k')
    with gate_okD(5) [OF ok, of k'] empty show ?case by (auto simp: sealLocked_def wakeLocked_def held_in_def)
  next
    case (6 k1 k2 w1 w2)
    with gate_okD(6) [OF ok, of k1 w1 k2 w2] show ?case by (auto simp: sealLocked_def wakeLocked_def split: if_splits)
  qed (use gate_okD(1-4) [OF ok] in \<open>auto simp: sealLocked_def wakeLocked_def split: if_splits\<close>)
  obtain w where w: "map_of (gt_win g) k = Some w" "w_Target w = t" using op openKeyLocked_iff [OF ok] by auto
  have uniq: "map_of (gt_win g) k' = Some w' \<Longrightarrow> w_Target w' = t \<Longrightarrow> k' = k" for k' w'
    using gate_okD(6) [OF ok _ w(1)] w(2) by simp
  have win: "map_of (gt_win (sealLocked g k)) = (map_of (gt_win g))(k := None)" by (simp add: sealLocked_def wakeLocked_def)
  have iff: "openKeyLocked (sealLocked g k) t' = Some k' \<longleftrightarrow> t' \<noteq> t \<and> openKeyLocked g t' = Some k'" for t' k'
  proof (cases "k' = k")
    case True
    then show ?thesis using openKeyLocked_iff [OF ok', of t' k'] openKeyLocked_iff [OF ok, of t' k'] w by (auto simp: win)
  next
    case False
    have "map_of (gt_win (sealLocked g k)) k' = map_of (gt_win g) k'" using False by (simp add: win)
    moreover have "t' \<noteq> t" if "openKeyLocked g t' = Some k'" using that openKeyLocked_iff [OF ok, of t' k'] uniq False by blast
    ultimately show ?thesis using openKeyLocked_iff [OF ok', of t' k'] openKeyLocked_iff [OF ok, of t' k'] by auto
  qed
  show "openKeyLocked (sealLocked g k) = (openKeyLocked g)(t := None)"
  proof
    fix t'
    show "openKeyLocked (sealLocked g k) t' = ((openKeyLocked g)(t := None)) t'"
      by (rule option_eqI) (simp add: iff)
  qed
qed

lemma gate_Open_again:
  assumes ok: "gate_ok g" and op: "openKeyLocked g t = Some (Key \<lparr>w_Target = t, w_Partition = p\<rparr>)"
  shows "gate_ok (gate_Open g t p)" "openKeyLocked (gate_Open g t p) = openKeyLocked g"
proof -
  let ?w = "\<lparr>w_Target = t, w_Partition = p\<rparr>"
  obtain w where w: "map_of (gt_win g) (Key ?w) = Some w" using op openKeyLocked_iff [OF ok] by auto
  then have "Key w = Key ?w" using gate_okD(4) [OF ok, of "Key ?w" w] by simp
  then have "w = ?w" by (simp add: Key_inject)
  with w have win: "map_of (gt_win (gate_Open g t p)) = map_of (gt_win g)"
    by (auto simp: gate_Open_def Let_def fun_eq_iff)
  note d = gate_okD [OF ok]
  have f: "gt_on (gate_Open g t p) = gm_put (Key ?w) True (gt_on g)" "gt_win (gate_Open g t p) = gm_put (Key ?w) ?w (gt_win g)"
    "gt_buf (gate_Open g t p) = gt_buf g" by (simp_all add: gate_Open_def Let_def)
  have win': "map_of (gt_win g) k' = map_of (gm_put (Key ?w) ?w (gt_win g)) k'" for k' using win f(2) by simp
  show ok': "gate_ok (gate_Open g t p)"
  proof (rule gate_okI, unfold f, goal_cases)
    case (6 k k' w1 w2)
    then show ?case using d(6) [of k w1 k' w2] unfolding win' by simp
  qed (use d in \<open>auto split: if_splits\<close>)
  show "openKeyLocked (gate_Open g t p) = openKeyLocked g"
  proof
    fix t'
    show "openKeyLocked (gate_Open g t p) t' = openKeyLocked g t'"
      by (rule option_eqI) (simp only: openKeyLocked_iff [OF ok'] openKeyLocked_iff [OF ok] win)
  qed
qed

interpretation wgate: holding_gate window_gate gate_ok held_in
proof (unfold_locales, goal_cases)
  case (1 g t k)
  then obtain w where "map_of (gt_win g) k = Some w" "w_Target w = t" by (auto simp: window_gate_def openKeyLocked_iff)
  with gate_okD(4) [OF 1(1), of k w] key_target_Key [of w] show ?case by simp
next
  case (2 g k)
  then obtain w where w: "map_of (gt_win g) k = Some w" using gate_okD(5) [OF 2(1), of k] by (auto simp: held_in_def gm_has_def)
  then have "Key w = k" using gate_okD(4) [OF 2(1)] by simp
  then have "key_target k = w_Target w" using key_target_Key by metis
  with w show ?case using openKeyLocked_iff [OF 2(1), of "key_target k" k] by (simp add: window_gate_def)
next
  case (3 g t p)
  then have new: "openKeyLocked g t = None" by (simp add: window_gate_def)
  have held: "held_in (gate_Open g t p) = held_in g" by (simp add: gate_Open_def held_in_def fun_eq_iff Let_def)
  show ?case
    using gate_ok_Open [OF 3(1) new, of p] openKeyLocked_Open [OF 3(1) new, of p] held by (simp add: window_gate_def)
next
  case (4 g t k i)
  have op: "openKeyLocked (appendLocked g k i) = openKeyLocked g" by (rule openKeyLocked_cong) (simp_all add: appendLocked_def)
  have held: "held_in (appendLocked g k i) = (held_in g)(k := held_in g k @ [i])" by (simp add: held_in_def appendLocked_def fun_eq_iff)
  have "gm_has (gt_win g) k" using 4 by (auto simp: window_gate_def openKeyLocked_iff gm_has_def)
  then have "held_in (appendLocked g k i) k' \<noteq> [] \<Longrightarrow> gm_has (gt_win g) k'" for k'
    using gate_okD(5) [OF 4(1), of k'] unfolding held by (cases "k' = k") (simp_all add: held_in_def)
  then have "gate_ok (appendLocked g k i)"
    by (rule gate_ok_cong [rotated 2, OF _ 4(1)]) (simp_all add: appendLocked_def)
  with op held show ?case by (simp add: window_gate_def)
next
  case (5 g k g' items)
  have g': "g' = fst (takeLocked g k)" "items = held_in g k" using 5(2) by (simp_all add: window_gate_def takeLocked_def held_in_def)
  have op: "openKeyLocked g' = openKeyLocked g" unfolding g' by (rule openKeyLocked_cong) (simp_all add: takeLocked_def)
  have held: "held_in g' = (held_in g)(k := [])" unfolding g' by (simp add: held_in_def takeLocked_def fun_eq_iff)
  have "held_in g' k' \<noteq> [] \<Longrightarrow> gm_has (gt_win g) k'" for k'
    using gate_okD(5) [OF 5(1), of k'] unfolding held by (cases "k' = k") (simp_all add: held_in_def)
  then have "gate_ok g'"
    by (rule gate_ok_cong [rotated 2, OF _ 5(1)]) (simp_all add: g' takeLocked_def)
  with op held g' show ?case by (simp add: window_gate_def)
next
  case (6 g t k)
  then have op: "openKeyLocked g t = Some k" by (simp add: window_gate_def)
  have held: "held_in (sealLocked g k) = held_in g" by (simp add: held_in_def sealLocked_def wakeLocked_def fun_eq_iff)
  show ?case using openKeyLocked_seal [OF 6(1) op 6(3)] held by (simp add: window_gate_def)
next
  case (7 g t p r)
  have f: "gt_win (set_ready g t p r) = gt_win g" "gt_on (set_ready g t p r) = gt_on g" "gt_buf (set_ready g t p r) = gt_buf g"
    by (cases r; simp add: set_ready_def MarkReady_def ClearReady_def wakeLocked_def Let_def)+
  have "held_in (set_ready g t p r) k' \<noteq> [] \<Longrightarrow> gm_has (gt_win g) k'" for k'
    using gate_okD(5) [OF 7, of k'] f(3) by (simp add: held_in_def)
  then have "gate_ok (set_ready g t p r)" by (rule gate_ok_cong [rotated 2, OF _ 7]) (simp_all add: f)
  with f openKeyLocked_cong [OF f(1,2)] show ?case by (simp add: window_gate_def held_in_def fun_eq_iff)
next
  case (8 g t p)
  have held: "held_in (gate_Open g t p) = held_in g" by (simp add: gate_Open_def held_in_def fun_eq_iff Let_def)
  show ?case using gate_Open_again [of g t p] 8 held by (simp add: window_gate_def)
qed

end
