(* ===== verification/Coalesce.thy ===== *)
theory Coalesce
  imports Gate
begin

text \<open>
  \<open>internal/staged/accum.go\<close> and \<open>coalesce.go\<close>: the accumulators that turn consecutive source batches of
  a staged table into one cycle. A batch is its record's schema, columns and row count with the
  dataplane fields the code carries over; reference counts are not modelled. Concatenating columns is
  Arrow's and a parameter. The pipeline is a state holding the gate and the accumulators, with sending,
  the clock, the open cycles and sizes as functions; sending may change all of it.

  The lemmas show that grouping held batches ends, keeps their order, drops none and stays within the
  bounds, and what a merged batch carries.
\<close>

section \<open>Batches\<close>

datatype write_mode = ModeUnset | UpsertMode | AppendMode

record ('s, 'c) arec =
  ar_Schema :: 's
  ar_Cols :: "'c list"
  ar_NumRows :: int

record ('s, 'c) batch =
  b_Table :: string
  b_Record :: "('s, 'c) arec"
  b_Watermark :: string
  b_Mode :: write_mode
  b_Partial :: bool

datatype concat_err = SchemaChanged | ArrowConcat

text \<open>The column loop of \<open>Concat\<close>: column \<open>i\<close> of every batch, until one fails.\<close>

fun concat_cols :: "('c list \<Rightarrow> 'c option) \<Rightarrow> ('s, 'c) batch list \<Rightarrow> nat \<Rightarrow> nat \<Rightarrow> (concat_err, 'c list) res" where
  "concat_cols cat bs i 0 = Ok []"
| "concat_cols cat bs i (Suc k) =
     (if \<exists>b\<in>set bs. length (ar_Cols (b_Record b)) \<le> i then Panic
      else case cat (map (\<lambda>b. ar_Cols (b_Record b) ! i) bs) of
             None \<Rightarrow> Err ArrowConcat
           | Some c \<Rightarrow> res_bind (concat_cols cat bs (Suc i) k) (\<lambda>cs. Ok (c # cs)))"

definition Concat :: "('s \<Rightarrow> nat) \<Rightarrow> ('c list \<Rightarrow> 'c option) \<Rightarrow> ('s, 'c) batch list \<Rightarrow> (concat_err, ('s, 'c) batch) res" where
  "Concat numFields cat bs =
     (case bs of
        [] \<Rightarrow> Panic
      | [b] \<Rightarrow> Ok b
      | b # _ \<Rightarrow>
          (let schema = ar_Schema (b_Record b)
           in if \<exists>x\<in>set bs. ar_Schema (b_Record x) \<noteq> schema then Err SchemaChanged
              else res_bind (concat_cols cat bs 0 (numFields schema)) (\<lambda>cols.
                Ok \<lparr>b_Table = b_Table b,
                    b_Record = \<lparr>ar_Schema = schema, ar_Cols = cols, ar_NumRows = sum_list (map (\<lambda>x. ar_NumRows (b_Record x)) bs)\<rparr>,
                    b_Watermark = b_Watermark (last bs), b_Mode = b_Mode b, b_Partial = b_Partial (last bs)\<rparr>)))"

section \<open>Bounds and accumulators\<close>

record bounds =
  bo_MaxRows :: int
  bo_MaxBytes :: int
  bo_MaxAge :: int

definition DefaultCycleMaxRows :: int where "DefaultCycleMaxRows = 10000"

definition DefaultCycleMaxBytes :: int where "DefaultCycleMaxBytes = 16777216"

definition DefaultCycleMaxAge :: int where "DefaultCycleMaxAge = 1000000000"

definition NewBounds :: "int \<Rightarrow> int \<Rightarrow> int \<Rightarrow> bounds" where
  "NewBounds maxRows maxBytes maxAge =
     \<lparr>bo_MaxRows = (if maxRows > 0 then maxRows else DefaultCycleMaxRows),
      bo_MaxBytes = (if maxBytes > 0 then maxBytes else DefaultCycleMaxBytes),
      bo_MaxAge = (if maxAge > 0 then maxAge else DefaultCycleMaxAge)\<rparr>"

definition Fits :: "bounds \<Rightarrow> int \<Rightarrow> int \<Rightarrow> int \<Rightarrow> int \<Rightarrow> bool" where
  "Fits b accRows accBytes rows bytes \<longleftrightarrow>
     accRows = 0 \<or> (accRows + rows \<le> bo_MaxRows b \<and> accBytes + bytes \<le> bo_MaxBytes b)"

record 'i accum =
  ac_Batches :: "'i list"
  ac_Rows :: int
  ac_Bytes :: int
  ac_Since :: int

definition NewAccum :: "int \<Rightarrow> 'i accum" where
  "NewAccum now = \<lparr>ac_Batches = [], ac_Rows = 0, ac_Bytes = 0, ac_Since = now\<rparr>"

definition Holds :: "'i accum option \<Rightarrow> bool" where
  "Holds a = (case a of None \<Rightarrow> False | Some ac \<Rightarrow> ac_Batches ac \<noteq> [])"

definition accum_Add :: "'i accum \<Rightarrow> 'i \<Rightarrow> int \<Rightarrow> int \<Rightarrow> 'i accum" where
  "accum_Add a b rows bytes = a\<lparr>ac_Batches := ac_Batches a @ [b], ac_Rows := ac_Rows a + rows, ac_Bytes := ac_Bytes a + bytes\<rparr>"

definition accum_Full :: "'i accum \<Rightarrow> bounds \<Rightarrow> int \<Rightarrow> bool" where
  "accum_Full a b now \<longleftrightarrow>
     ac_Rows a \<ge> bo_MaxRows b \<or> ac_Bytes a \<ge> bo_MaxBytes b \<or> time_Sub now (ac_Since a) \<ge> bo_MaxAge b"

definition accum_Release :: "'i accum \<Rightarrow> 'i accum" where
  "accum_Release a = a\<lparr>ac_Batches := []\<rparr>"

section \<open>The coalescer\<close>

type_synonym 'i coalescer = "(string, 'i accum) gomap"

text \<open>The pipeline's state: the gate, the accumulators and the rest.\<close>

type_synonym ('i, 'h) pipe = "'i gate \<times> 'i coalescer \<times> 'h"

record ('i, 'h) coalesce_host =
  co_Bounds :: bounds
  co_Table :: "'i \<Rightarrow> string"
  co_Rows :: "'i \<Rightarrow> int"
  co_Size :: "'i \<Rightarrow> int"
  co_Concat :: "'i list \<Rightarrow> (concat_err, 'i) res"
  co_OpenCycles :: "('i, 'h) pipe \<Rightarrow> string \<Rightarrow> nat"
  co_Now :: "('i, 'h) pipe \<Rightarrow> int"
  co_Send :: "('i, 'h) pipe \<Rightarrow> 'i \<Rightarrow> ('i, 'h) pipe \<times> bool"

datatype coalesce_err = CoalesceConcat concat_err | CoalesceSend

definition SendLocked :: "('i, 'h) coalesce_host \<Rightarrow> ('i, 'h) pipe \<Rightarrow> string \<Rightarrow> ('i, 'h) pipe \<times> (coalesce_err, unit) res" where
  "SendLocked H st table =
     (case st of (g, c, h) \<Rightarrow>
        (let st1 = (g, gm_del table c, h)
         in case map_of c table of
              None \<Rightarrow> (st1, Ok ())
            | Some a \<Rightarrow>
                if ac_Batches a = [] then (st1, Ok ())
                else (case co_Concat H (ac_Batches a) of
                        Err e \<Rightarrow> (st1, Err (CoalesceConcat e))
                      | Panic \<Rightarrow> (st1, Panic)
                      | Ok merged \<Rightarrow> (case co_Send H st1 merged of (st2, ok) \<Rightarrow> (st2, if ok then Ok () else Err CoalesceSend)))))"

definition coalescer_Flush :: "('i, 'h) coalesce_host \<Rightarrow> ('i, 'h) pipe \<Rightarrow> string \<Rightarrow> ('i, 'h) pipe \<times> (coalesce_err, unit) res" where
  "coalescer_Flush H st table = SendLocked H st table"

definition due :: "('i, 'h) coalesce_host \<Rightarrow> ('i, 'h) pipe \<Rightarrow> string \<Rightarrow> 'i accum option \<Rightarrow> bool" where
  "due H st table a =
     (if \<not> Holds a then False
      else if accum_Full (the a) (co_Bounds H) (co_Now H st) then True
      else co_OpenCycles H st table = 0)"

definition flushIfDue :: "('i, 'h) coalesce_host \<Rightarrow> ('i, 'h) pipe \<Rightarrow> string \<Rightarrow> ('i, 'h) pipe \<times> (coalesce_err, unit) res" where
  "flushIfDue H st table =
     (if due H st table (map_of (fst (snd st)) table) then coalescer_Flush H st table else (st, Ok ()))"

fun flush_tables :: "('i, 'h) coalesce_host \<Rightarrow> ('i, 'h) pipe \<Rightarrow> string list \<Rightarrow> ('i, 'h) pipe \<times> (coalesce_err, unit) res" where
  "flush_tables H st [] = (st, Ok ())"
| "flush_tables H st (t # ts) =
     (case coalescer_Flush H st t of
        (st', Ok u) \<Rightarrow> flush_tables H st' ts
      | (st', Err e) \<Rightarrow> (st', Err e)
      | (st', Panic) \<Rightarrow> (st', Panic))"

definition FlushDue :: "('i, 'h) coalesce_host \<Rightarrow> ('i, 'h) pipe \<Rightarrow> ('i, 'h) pipe \<times> (coalesce_err, unit) res" where
  "FlushDue H st = flush_tables H st (map fst (filter (\<lambda>(t, a). due H st t (Some a)) (fst (snd st))))"

text \<open>The loop of \<open>Take\<close>; a round that does not fit flushes first.\<close>

partial_function (option) coalescer_Take ::
  "('i, 'h) coalesce_host \<Rightarrow> 'i \<Rightarrow> ('i, 'h) pipe \<Rightarrow> (('i, 'h) pipe \<times> (coalesce_err, unit) res) option" where
  [code]: "coalescer_Take H b st =
     (case st of (g, c, h) \<Rightarrow>
        (case openKeyLocked g (co_Table H b) of
           Some key \<Rightarrow> Some ((appendLocked g key b, c, h), Ok ())
         | None \<Rightarrow>
             (let a = (case map_of c (co_Table H b) of None \<Rightarrow> NewAccum (co_Now H st) | Some a \<Rightarrow> a)
              in if Fits (co_Bounds H) (ac_Rows a) (ac_Bytes a) (co_Rows H b) (co_Size H b)
                 then Some (flushIfDue H (g, gm_put (co_Table H b) (accum_Add a b (co_Rows H b) (co_Size H b)) c, h) (co_Table H b))
                 else (case coalescer_Flush H (g, gm_put (co_Table H b) a c, h) (co_Table H b) of (st', r) \<Rightarrow>
                         (case r of
                            Ok u \<Rightarrow> coalescer_Take H b st'
                          | Err e \<Rightarrow> Some (st', Err e)
                          | Panic \<Rightarrow> Some (st', Panic))))))"

definition coalescer_Release :: "('i, 'h) pipe \<Rightarrow> ('i, 'h) pipe" where
  "coalescer_Release st = (fst st, [], snd (snd st))"

definition HoldingLocked :: "'i coalescer \<Rightarrow> string list" where
  "HoldingLocked c = map fst (filter (\<lambda>(t, a). Holds (Some a)) c)"

section \<open>Sending held batches in groups\<close>

text \<open>How many batches of \<open>buf\<close> join a group already holding \<open>rows\<close> and \<open>bytes\<close>.\<close>

fun group_len :: "bounds \<Rightarrow> ('i \<Rightarrow> int) \<Rightarrow> ('i \<Rightarrow> int) \<Rightarrow> int \<Rightarrow> int \<Rightarrow> 'i list \<Rightarrow> nat" where
  "group_len B rowsOf sizeOf rows bytes [] = 0"
| "group_len B rowsOf sizeOf rows bytes (b # bs) =
     (if \<not> Fits B rows bytes (rowsOf b) (sizeOf b) then 0
      else Suc (group_len B rowsOf sizeOf (rows + rowsOf b) (bytes + sizeOf b) bs))"

lemma group_len_pos: "buf \<noteq> [] \<Longrightarrow> 0 < group_len B rowsOf sizeOf 0 0 buf"
  by (cases buf) (simp_all add: Fits_def)

lemma group_len_le: "group_len B rowsOf sizeOf rows bytes buf \<le> length buf"
  by (induction B rowsOf sizeOf rows bytes buf rule: group_len.induct) simp_all

text \<open>\<open>SendGrouped\<close>: the state after it and the error that stopped it.\<close>

function SendGrouped :: "bounds \<Rightarrow> ('i \<Rightarrow> int) \<Rightarrow> ('i \<Rightarrow> int) \<Rightarrow> ('i list \<Rightarrow> (concat_err, 'i) res) \<Rightarrow> ('h \<Rightarrow> 'i \<Rightarrow> 'h \<times> bool) \<Rightarrow>
    'h \<Rightarrow> 'i list \<Rightarrow> 'h \<times> (coalesce_err, unit) res" where
  "SendGrouped B rowsOf sizeOf cat send h buf =
     (if buf = [] then (h, Ok ())
      else (let n = group_len B rowsOf sizeOf 0 0 buf
            in case cat (take n buf) of
                 Err e \<Rightarrow> (h, Err (CoalesceConcat e))
               | Panic \<Rightarrow> (h, Panic)
               | Ok merged \<Rightarrow>
                   (case send h merged of (h', ok) \<Rightarrow>
                      if ok then SendGrouped B rowsOf sizeOf cat send h' (drop n buf) else (h', Err CoalesceSend))))"
  by pat_completeness auto
termination
  by (relation "measure (\<lambda>(B, rowsOf, sizeOf, cat, send, h, buf). length buf)") (auto simp: group_len_pos)

declare SendGrouped.simps [simp del]

text \<open>A group within the bounds: its last batch fitted what was before it.\<close>

definition group_ok :: "bounds \<Rightarrow> ('i \<Rightarrow> int) \<Rightarrow> ('i \<Rightarrow> int) \<Rightarrow> 'i list \<Rightarrow> bool" where
  "group_ok B rowsOf sizeOf g \<longleftrightarrow>
     g \<noteq> [] \<and> (sum_list (map rowsOf (butlast g)) = 0 \<or>
       (sum_list (map rowsOf g) \<le> bo_MaxRows B \<and> sum_list (map sizeOf g) \<le> bo_MaxBytes B))"

lemma group_len_fits:
  "k < group_len B rowsOf sizeOf rows bytes buf \<Longrightarrow>
   Fits B (rows + sum_list (map rowsOf (take k buf))) (bytes + sum_list (map sizeOf (take k buf))) (rowsOf (buf ! k)) (sizeOf (buf ! k))"
proof (induction B rowsOf sizeOf rows bytes buf arbitrary: k rule: group_len.induct)
  case (2 B rowsOf sizeOf rows bytes b bs)
  have fit: "Fits B rows bytes (rowsOf b) (sizeOf b)" using "2.prems" by (auto split: if_splits)
  show ?case
  proof (cases k)
    case 0
    with fit show ?thesis by simp
  next
    case (Suc j)
    with "2.IH" [of j] "2.prems" fit show ?thesis by (simp add: algebra_simps)
  qed
qed simp

lemma group_len_ok:
  assumes "buf \<noteq> []"
  shows "group_ok B rowsOf sizeOf (take (group_len B rowsOf sizeOf 0 0 buf) buf)"
proof -
  let ?n = "group_len B rowsOf sizeOf 0 0 buf"
  obtain k where k: "?n = Suc k" using group_len_pos [OF assms, of B rowsOf sizeOf] gr0_conv_Suc by blast
  have len: "k < length buf" using group_len_le [of B rowsOf sizeOf 0 0 buf] k by simp
  have g: "take ?n buf = take k buf @ [buf ! k]" unfolding k using len by (rule take_Suc_conv_app_nth)
  have "Fits B (sum_list (map rowsOf (take k buf))) (sum_list (map sizeOf (take k buf))) (rowsOf (buf ! k)) (sizeOf (buf ! k))"
    using group_len_fits [of k B rowsOf sizeOf 0 0 buf] k by simp
  then show ?thesis unfolding g by (auto simp: group_ok_def Fits_def)
qed

definition recording :: "('h \<Rightarrow> 'i \<Rightarrow> 'h \<times> bool) \<Rightarrow> 'h \<times> 'i list \<Rightarrow> 'i \<Rightarrow> ('h \<times> 'i list) \<times> bool" where
  "recording send hs m = (case send (fst hs) m of (h', ok) \<Rightarrow> ((h', if ok then snd hs @ [m] else snd hs), ok))"

lemma SendGrouped_groups:
  "SendGrouped B rowsOf sizeOf cat (recording send) (h, sent0) buf = ((h', sent), r) \<Longrightarrow>
   \<exists>gs rest. buf = concat gs @ rest \<and> (\<exists>new. sent = sent0 @ new \<and> map cat gs = map Ok new)
     \<and> (\<forall>g\<in>set gs. group_ok B rowsOf sizeOf g) \<and> (r = Ok () \<longrightarrow> rest = [])"
proof (induction buf arbitrary: h sent0 rule: length_induct)
  case (1 buf)
  let ?n = "group_len B rowsOf sizeOf 0 0 buf"
  show ?case
  proof (cases "buf = []")
    case True
    with "1.prems" show ?thesis by (intro exI [of _ "[]"]) (simp add: SendGrouped.simps)
  next
    case ne: False
    show ?thesis
    proof (cases "\<exists>m h1. cat (take ?n buf) = Ok m \<and> send h m = (h1, True)")
      case True
      then obtain m h1 where m: "cat (take ?n buf) = Ok m" "send h m = (h1, True)" by blast
      have run: "SendGrouped B rowsOf sizeOf cat (recording send) (h1, sent0 @ [m]) (drop ?n buf) = ((h', sent), r)"
        using "1.prems" ne m by (subst (asm) SendGrouped.simps) (simp add: recording_def Let_def)
      have short: "length (drop ?n buf) < length buf" using group_len_pos [OF ne, of B rowsOf sizeOf] ne by simp
      have "\<exists>gs rest. drop ?n buf = concat gs @ rest \<and> (\<exists>new. sent = (sent0 @ [m]) @ new \<and> map cat gs = map Ok new)
          \<and> (\<forall>g\<in>set gs. group_ok B rowsOf sizeOf g) \<and> (r = Ok () \<longrightarrow> rest = [])"
        using "1.IH" short run by blast
      then obtain gs rest new where gs: "drop ?n buf = concat gs @ rest" "sent = (sent0 @ [m]) @ new" "map cat gs = map Ok new"
        "\<forall>g\<in>set gs. group_ok B rowsOf sizeOf g" "r = Ok () \<longrightarrow> rest = []" by blast
      have "buf = concat (take ?n buf # gs) @ rest" using gs(1) append_take_drop_id [of ?n buf] by simp
      then show ?thesis using gs m group_len_ok [OF ne]
        by (intro exI [of _ "take ?n buf # gs"] exI [of _ rest] conjI exI [of _ "m # new"]) auto
    next
      case False
      then have "sent = sent0 \<and> r \<noteq> Ok ()"
        using "1.prems" ne by (subst (asm) SendGrouped.simps)
          (auto simp: recording_def Let_def split: res.splits prod.splits if_splits)
      then show ?thesis by (intro exI [of _ "[]"] exI [of _ buf]) simp
    qed
  qed
qed

section \<open>Properties\<close>

text \<open>
  Sending held batches in groups loses and reorders nothing. It always ends; the batches sent are the
  concatenations of consecutive groups of the buffer, each group within the row and byte bounds (a
  batch joins while the group has no rows or both bounds still hold), and when no send failed the
  groups make up the whole buffer.
\<close>

theorem SendGrouped_in_order:
  assumes "SendGrouped B rowsOf sizeOf cat (recording send) (h, []) buf = ((h', sent), r)"
  shows "\<exists>gs rest. buf = concat gs @ rest \<and> map cat gs = map Ok sent
     \<and> (\<forall>g\<in>set gs. group_ok B rowsOf sizeOf g) \<and> (r = Ok () \<longrightarrow> rest = [])"
  using SendGrouped_groups [OF assms] by auto

definition sizes_cat :: "int list \<Rightarrow> (concat_err, int) res" where
  "sizes_cat bs = Ok (sum_list bs)"

theorem SendGrouped_in_order_witness:
  "\<exists>gs rest. [4, 5, 3, 20, 1] = concat gs @ rest \<and> map sizes_cat gs = map Ok [9, 3, 20, 1]"
proof -
  have run: "SendGrouped (NewBounds 10 0 0) id id sizes_cat (recording (\<lambda>h m. (h, True))) ((), []) [4, 5, 3, 20, 1]
      = (((), [9, 3, 20, 1]), Ok ())"
    by (simp add: SendGrouped.simps sizes_cat_def recording_def NewBounds_def Fits_def DefaultCycleMaxBytes_def Let_def)
  from SendGrouped_in_order [OF run] show ?thesis by blast
qed

end
