(* ===== verification/Pump.thy ===== *)
theory Pump
  imports Coalesce
begin

text \<open>
  The path of a batch through the coordinator: \<open>internal/routing/pause.go\<close>, and the pump of
  \<open>internal/coordinator/pump.go\<close> with the window, accumulator and re-slice calls of \<open>gate.go\<close>, \<open>staged.go\<close>
  and \<open>repartition.go\<close> that run beside it. The pump, the drains and a re-slice interleave at the points
  where the code takes a lock; a drain holds the gate's flush lock from taking items to delivering
  them, and the pump waits for the drains it starts itself. A table has at most one open window, as its
  callers ensure (partitions are snapshotted one at a time, the fan-out uses partition 0), and opening
  it again refreshes it. Every batch has a record: one without ends the run. A failed send ends the run
  too, so the runs here are the ones in which sends succeed. A re-slice is admitted while no snapshot of its
  table runs, pauses the table, waits until it has no open cycle, flips its layout and resumes it; that the
  drain also waits for the workers' own queues adds nothing here. A send of a staged table opens a cycle for
  each merged batch, and the commit of a cycle is a step of its own. The batches a table's source produced
  and the ones handed on to its workers are recorded per table.

  The lemmas show that the pump keeps every table's source order through pauses, windows and
  accumulators, as long as a table is not snapshotted while it is paused and does not stop being
  staged while batches are accumulated; and that the code, which ensures neither, can reorder.
\<close>

section \<open>Pausing a table\<close>

record 'i pause =
  pa_paused :: "(string, unit) gomap"
  pa_held :: "(string, 'i list) gomap"
  pa_wake :: bool

definition Pause_zero :: "'i pause" where
  "Pause_zero = \<lparr>pa_paused = [], pa_held = [], pa_wake = False\<rparr>"

definition pause_Pause :: "'i pause \<Rightarrow> string \<Rightarrow> 'i pause" where
  "pause_Pause p target = p\<lparr>pa_paused := gm_put target () (pa_paused p)\<rparr>"

definition pause_Resume :: "'i pause \<Rightarrow> string \<Rightarrow> 'i pause" where
  "pause_Resume p target = p\<lparr>pa_paused := gm_del target (pa_paused p), pa_wake := True\<rparr>"

definition Paused :: "'i pause \<Rightarrow> string \<Rightarrow> bool" where
  "Paused p target = gm_has (pa_paused p) target"

definition pause_Hold :: "'i pause \<Rightarrow> string \<Rightarrow> 'i \<Rightarrow> 'i pause \<times> bool" where
  "pause_Hold p target b =
     (if \<not> gm_has (pa_paused p) target \<and> gm_at [] (pa_held p) target = [] then (p, False)
      else (p\<lparr>pa_held := gm_put target (gm_at [] (pa_held p) target @ [b]) (pa_held p)\<rparr>, True))"

definition resumable :: "'i pause \<Rightarrow> string \<times> 'i list \<Rightarrow> bool" where
  "resumable p e \<longleftrightarrow> snd e \<noteq> [] \<and> \<not> gm_has (pa_paused p) (fst e)"

definition TakeResumed :: "'i pause \<Rightarrow> 'i pause \<times> (string, 'i list) gomap" where
  "TakeResumed p = (p\<lparr>pa_held := filter (\<lambda>e. \<not> resumable p e) (pa_held p)\<rparr>, filter (resumable p) (pa_held p))"

definition pause_Held :: "'i pause \<Rightarrow> string \<Rightarrow> nat" where
  "pause_Held p target = length (gm_at [] (pa_held p) target)"

definition HeldTables :: "'i pause \<Rightarrow> string list" where
  "HeldTables p = map fst (filter (\<lambda>e. snd e \<noteq> []) (pa_held p))"

section \<open>The pump\<close>

record 'i pump_cfg =
  pc_Table :: "'i \<Rightarrow> string"
  pc_Rows :: "'i \<Rightarrow> int"
  pc_Size :: "'i \<Rightarrow> int"
  pc_Bounds :: bounds

text \<open>Where the pump is with a batch, or with the batches of resumed tables.\<close>

datatype 'i pump_at =
    PIdle
  | PGot 'i
  | PChecked 'i
  | PUnpaused 'i
  | PLive 'i
  | PTake 'i
  | PRoom 'i
  | PEnqueue 'i
  | PAdded string
  | PFlush string
  | PTick "string list"
  | PResume "(string \<times> 'i list) list"
  | PHeld string "'i list" "(string \<times> 'i list) list"

text \<open>Who holds the gate's flush lock: nobody, a drain with items taken and not delivered (the pump's
  own or not), a window being opened, a window being closed.\<close>

datatype 'i drainer =
    DFree
  | DSending string "'i list" bool
  | DOpening string
  | DClose string string
  | DClosing string string "'i list"

text \<open>How far a re-slice of a table is.\<close>

datatype reslice = RIdle | RAdmitted | RPaused | RDrained | RFlipped

record ('g, 'i) pump =
  pm_gate :: 'g
  pm_accum :: "'i coalescer"
  pm_pause :: "'i pause"
  pm_staged :: "string \<Rightarrow> bool"
  pm_at :: "'i pump_at"
  pm_drain :: "'i drainer"
  pm_cycles :: "string \<Rightarrow> nat"
  pm_snapshot :: "string \<Rightarrow> bool"
  pm_reslice :: "string \<Rightarrow> reslice"
  pm_src :: "string \<Rightarrow> 'i list"
  pm_out :: "string \<Rightarrow> 'i list"

definition accumulated :: "('g, 'i) pump \<Rightarrow> string \<Rightarrow> 'i list" where
  "accumulated s t = (case map_of (pm_accum s) t of None \<Rightarrow> [] | Some a \<Rightarrow> ac_Batches a)"

definition waits :: "('g, 'i) pump \<Rightarrow> bool" where
  "waits s = (case pm_drain s of DSending t items own \<Rightarrow> own | _ \<Rightarrow> False)"

text \<open>Taking a table's accumulator to send it, as \<open>SendLocked\<close> does.\<close>

definition take_accum :: "('g, 'i) pump \<Rightarrow> string \<Rightarrow> bool \<Rightarrow> ('g, 'i) pump" where
  "take_accum s t own = s\<lparr>pm_drain := DSending t (accumulated s t) own, pm_accum := gm_del t (pm_accum s)\<rparr>"

text \<open>Sending items of a table: \<open>n\<close> cycles are opened, at least one when it is staged and there is something.\<close>

definition opens :: "('g, 'i) pump \<Rightarrow> string \<Rightarrow> 'i list \<Rightarrow> nat \<Rightarrow> bool" where
  "opens s t items n = (if pm_staged s t \<and> items \<noteq> [] then 0 < n \<and> n \<le> length items else n = 0)"

definition emit :: "('g, 'i) pump \<Rightarrow> string \<Rightarrow> 'i list \<Rightarrow> nat \<Rightarrow> ('g, 'i) pump" where
  "emit s t items n = s\<lparr>pm_out := (pm_out s)(t := pm_out s t @ items), pm_cycles := (pm_cycles s)(t := pm_cycles s t + n)\<rparr>"

text \<open>Whether a table's accumulator should be sent now, as \<open>due\<close> of the coalescer says.\<close>

definition accum_due :: "'i pump_cfg \<Rightarrow> ('g, 'i) pump \<Rightarrow> string \<Rightarrow> int \<Rightarrow> bool" where
  "accum_due C s t now =
     (case map_of (pm_accum s) t of
        None \<Rightarrow> False
      | Some a \<Rightarrow> ac_Batches a \<noteq> [] \<and> (accum_Full a (pc_Bounds C) now \<or> pm_cycles s t = 0))"

inductive pstep :: "('g, 'i) gate_ops \<Rightarrow> 'i pump_cfg \<Rightarrow> ('g, 'i) pump \<Rightarrow> ('g, 'i) pump \<Rightarrow> bool"
  for G :: "('g, 'i) gate_ops" and C :: "'i pump_cfg" where
  read: "pm_at s = PIdle \<Longrightarrow> \<not> waits s \<Longrightarrow> t = pc_Table C b \<Longrightarrow>
     pstep G C s (s\<lparr>pm_at := PGot b, pm_src := (pm_src s)(t := pm_src s t @ [b])\<rparr>)"
| unpaused: "pm_at s = PGot b \<Longrightarrow> \<not> waits s \<Longrightarrow> \<not> Paused (pm_pause s) (pc_Table C b) \<Longrightarrow>
     pstep G C s (s\<lparr>pm_at := PChecked b\<rparr>)"
| flush_before_pause: "pm_at s = PGot b \<Longrightarrow> pm_drain s = DFree \<Longrightarrow> Paused (pm_pause s) (pc_Table C b) \<Longrightarrow>
     pstep G C s ((take_accum s (pc_Table C b) True)\<lparr>pm_at := PChecked b\<rparr>)"
| pause_hold: "pm_at s = PChecked b \<Longrightarrow> \<not> waits s \<Longrightarrow> pause_Hold (pm_pause s) (pc_Table C b) b = (p, held) \<Longrightarrow>
     pstep G C s (s\<lparr>pm_pause := p, pm_at := (if held then PIdle else PUnpaused b)\<rparr>)"
| gate_hold: "pm_at s = PUnpaused b \<Longrightarrow> \<not> waits s \<Longrightarrow> go_openKey G (pm_gate s) (pc_Table C b) = Some k \<Longrightarrow>
     \<not> go_full G (pm_gate s) k \<Longrightarrow> pstep G C s (s\<lparr>pm_gate := go_append G (pm_gate s) k b, pm_at := PIdle\<rparr>)"
| gate_pass: "pm_at s = PUnpaused b \<Longrightarrow> \<not> waits s \<Longrightarrow> go_openKey G (pm_gate s) (pc_Table C b) = None \<Longrightarrow>
     pstep G C s (s\<lparr>pm_at := PLive b\<rparr>)"
| live: "pm_at s = PLive b \<Longrightarrow> \<not> waits s \<Longrightarrow>
     pstep G C s (s\<lparr>pm_at := (if pm_staged s (pc_Table C b) then PTake b else PEnqueue b)\<rparr>)"
| take_gate: "pm_at s = PTake b \<Longrightarrow> \<not> waits s \<Longrightarrow> go_openKey G (pm_gate s) (pc_Table C b) = Some k \<Longrightarrow>
     pstep G C s (s\<lparr>pm_gate := go_append G (pm_gate s) k b, pm_at := PIdle\<rparr>)"
| take_accum: "pm_at s = PTake b \<Longrightarrow> \<not> waits s \<Longrightarrow> t = pc_Table C b \<Longrightarrow> go_openKey G (pm_gate s) t = None \<Longrightarrow>
     a = (case map_of (pm_accum s) t of None \<Rightarrow> NewAccum now | Some a \<Rightarrow> a) \<Longrightarrow>
     Fits (pc_Bounds C) (ac_Rows a) (ac_Bytes a) (pc_Rows C b) (pc_Size C b) \<Longrightarrow>
     pstep G C s (s\<lparr>pm_accum := gm_put t (accum_Add a b (pc_Rows C b) (pc_Size C b)) (pm_accum s), pm_at := PAdded t\<rparr>)"
| take_full: "pm_at s = PTake b \<Longrightarrow> \<not> waits s \<Longrightarrow> t = pc_Table C b \<Longrightarrow> go_openKey G (pm_gate s) t = None \<Longrightarrow>
     map_of (pm_accum s) t = Some a \<Longrightarrow> \<not> Fits (pc_Bounds C) (ac_Rows a) (ac_Bytes a) (pc_Rows C b) (pc_Size C b) \<Longrightarrow>
     pstep G C s (s\<lparr>pm_at := PRoom b\<rparr>)"
| make_room: "pm_at s = PRoom b \<Longrightarrow> pm_drain s = DFree \<Longrightarrow>
     pstep G C s ((take_accum s (pc_Table C b) True)\<lparr>pm_at := PTake b\<rparr>)"
| added: "pm_at s = PAdded t \<Longrightarrow> \<not> waits s \<Longrightarrow>
     pstep G C s (s\<lparr>pm_at := (if accum_due C s t now then PFlush t else PIdle)\<rparr>)"
| flush: "pm_at s = PFlush t \<Longrightarrow> pm_drain s = DFree \<Longrightarrow> pstep G C s ((take_accum s t True)\<lparr>pm_at := PIdle\<rparr>)"
| tick: "pm_at s = PIdle \<Longrightarrow> \<not> waits s \<Longrightarrow> distinct l \<Longrightarrow> \<forall>t. t \<in> set l \<longleftrightarrow> accum_due C s t now \<Longrightarrow>
     pstep G C s (s\<lparr>pm_at := PTick l\<rparr>)"
| tick_flush: "pm_at s = PTick (t # l) \<Longrightarrow> pm_drain s = DFree \<Longrightarrow>
     pstep G C s ((take_accum s t True)\<lparr>pm_at := PTick l\<rparr>)"
| tick_done: "pm_at s = PTick [] \<Longrightarrow> \<not> waits s \<Longrightarrow> pstep G C s (s\<lparr>pm_at := PIdle\<rparr>)"
| enqueue: "pm_at s = PEnqueue b \<Longrightarrow> \<not> waits s \<Longrightarrow> opens s (pc_Table C b) [b] n \<Longrightarrow>
     pstep G C s ((emit s (pc_Table C b) [b] n)\<lparr>pm_at := PIdle\<rparr>)"
| deliver: "pm_drain s = DSending t items own \<Longrightarrow> opens s t items n \<Longrightarrow> pstep G C s ((emit s t items n)\<lparr>pm_drain := DFree\<rparr>)"
| open_window: "pm_drain s = DFree \<Longrightarrow> pm_snapshot s t \<Longrightarrow> go_openKey G (pm_gate s) t = None \<Longrightarrow>
     pstep G C s (s\<lparr>pm_gate := go_Open G (pm_gate s) t part, pm_drain := DOpening t\<rparr>)"
| reopen_window: "pm_drain s = DFree \<Longrightarrow> pm_snapshot s t \<Longrightarrow>
     go_openKey G (pm_gate s) t = Some (Key \<lparr>w_Target = t, w_Partition = part\<rparr>) \<Longrightarrow>
     pstep G C s (s\<lparr>pm_gate := go_Open G (pm_gate s) t part, pm_drain := DOpening t\<rparr>)"
| open_send: "pm_drain s = DOpening t \<Longrightarrow> pstep G C s (take_accum s t False)"
| gate_drain: "pm_drain s = DFree \<Longrightarrow> go_openKey G (pm_gate s) t = Some k \<Longrightarrow> go_take G (pm_gate s) k = (g, items) \<Longrightarrow>
     pstep G C s (s\<lparr>pm_gate := g, pm_drain := DSending t items own\<rparr>)"
| close_window: "pm_drain s = DFree \<Longrightarrow> go_openKey G (pm_gate s) t = Some k \<Longrightarrow> pstep G C s (s\<lparr>pm_drain := DClose t k\<rparr>)"
| close_take: "pm_drain s = DClose t k \<Longrightarrow> go_take G (pm_gate s) k = (g, items) \<Longrightarrow> items \<noteq> [] \<Longrightarrow>
     pstep G C s (s\<lparr>pm_gate := g, pm_drain := DClosing t k items\<rparr>)"
| close_deliver: "pm_drain s = DClosing t k items \<Longrightarrow> opens s t items n \<Longrightarrow> pstep G C s ((emit s t items n)\<lparr>pm_drain := DClose t k\<rparr>)"
| close_seal: "pm_drain s = DClose t k \<Longrightarrow> go_take G (pm_gate s) k = (g, []) \<Longrightarrow>
     pstep G C s (s\<lparr>pm_gate := go_seal G g k, pm_drain := DFree\<rparr>)"
| ready: "pstep G C s (s\<lparr>pm_gate := go_ready G (pm_gate s) t part r\<rparr>)"
| commit: "pm_cycles s t = Suc n \<Longrightarrow> pstep G C s (s\<lparr>pm_cycles := (pm_cycles s)(t := n)\<rparr>)"
| begin_snapshot: "pstep G C s (s\<lparr>pm_snapshot := (pm_snapshot s)(t := True)\<rparr>)"
| end_snapshot: "go_openKey G (pm_gate s) t = None \<Longrightarrow> pstep G C s (s\<lparr>pm_snapshot := (pm_snapshot s)(t := False)\<rparr>)"
| admit: "pm_reslice s t = RIdle \<Longrightarrow> \<not> pm_snapshot s t \<Longrightarrow> pstep G C s (s\<lparr>pm_reslice := (pm_reslice s)(t := RAdmitted)\<rparr>)"
| abandon: "pm_reslice s t = RAdmitted \<Longrightarrow> pstep G C s (s\<lparr>pm_reslice := (pm_reslice s)(t := RIdle)\<rparr>)"
| pause: "pm_reslice s t = RAdmitted \<Longrightarrow>
     pstep G C s (s\<lparr>pm_pause := pause_Pause (pm_pause s) t, pm_reslice := (pm_reslice s)(t := RPaused)\<rparr>)"
| drained: "pm_reslice s t = RPaused \<Longrightarrow> pm_cycles s t = 0 \<Longrightarrow> pstep G C s (s\<lparr>pm_reslice := (pm_reslice s)(t := RDrained)\<rparr>)"
| flip: "pm_reslice s t = RDrained \<Longrightarrow> Paused (pm_pause s) t \<Longrightarrow>
     pstep G C s (s\<lparr>pm_staged := (pm_staged s)(t := v), pm_reslice := (pm_reslice s)(t := RFlipped)\<rparr>)"
| resume: "pm_reslice s t \<in> {RPaused, RFlipped} \<Longrightarrow>
     pstep G C s (s\<lparr>pm_pause := pause_Resume (pm_pause s) t, pm_reslice := (pm_reslice s)(t := RIdle)\<rparr>)"
| take_resumed: "pm_at s = PIdle \<Longrightarrow> \<not> waits s \<Longrightarrow> pa_wake (pm_pause s) \<Longrightarrow> TakeResumed (pm_pause s) = (p, held) \<Longrightarrow>
     pstep G C s (s\<lparr>pm_pause := p\<lparr>pa_wake := False\<rparr>, pm_at := PResume held\<rparr>)"
| resume_flush: "pm_at s = PResume l \<Longrightarrow> (t, bs) \<in> set l \<Longrightarrow> pm_drain s = DFree \<Longrightarrow>
     pstep G C s ((take_accum s t True)\<lparr>pm_at := PHeld t bs (remove1 (t, bs) l)\<rparr>)"
| resume_send: "pm_at s = PHeld t bs rest \<Longrightarrow> \<not> waits s \<Longrightarrow> opens s t bs n \<Longrightarrow>
     pstep G C s ((emit s t bs n)\<lparr>pm_at := PResume rest\<rparr>)"
| resume_done: "pm_at s = PResume [] \<Longrightarrow> \<not> waits s \<Longrightarrow> pstep G C s (s\<lparr>pm_at := PIdle\<rparr>)"

definition pump_init :: "'g \<Rightarrow> (string \<Rightarrow> bool) \<Rightarrow> ('g, 'i) pump" where
  "pump_init g staged = \<lparr>pm_gate = g, pm_accum = [], pm_pause = Pause_zero, pm_staged = staged, pm_at = PIdle,
     pm_drain = DFree, pm_cycles = (\<lambda>t. 0), pm_snapshot = (\<lambda>t. False), pm_reslice = (\<lambda>t. RIdle),
     pm_src = (\<lambda>t. []), pm_out = (\<lambda>t. [])\<rparr>"

section \<open>Where a table's batches are\<close>

definition in_flight :: "('g, 'i) pump \<Rightarrow> string \<Rightarrow> 'i list" where
  "in_flight s t = (case pm_drain s of
      DSending t' items own \<Rightarrow> if t' = t then items else []
    | DClosing t' k items \<Rightarrow> if t' = t then items else []
    | _ \<Rightarrow> [])"

definition of_table :: "string \<Rightarrow> (string \<times> 'i list) list \<Rightarrow> 'i list" where
  "of_table t l = concat (map snd (filter (\<lambda>e. fst e = t) l))"

definition resuming :: "('g, 'i) pump \<Rightarrow> string \<Rightarrow> 'i list" where
  "resuming s t = (case pm_at s of
      PResume l \<Rightarrow> of_table t l
    | PHeld t' bs l \<Rightarrow> of_table t ((t', bs) # l)
    | _ \<Rightarrow> [])"

definition in_hand :: "'i pump_cfg \<Rightarrow> ('g, 'i) pump \<Rightarrow> string \<Rightarrow> 'i list" where
  "in_hand C s t = (case pm_at s of
      PGot b \<Rightarrow> if pc_Table C b = t then [b] else []
    | PChecked b \<Rightarrow> if pc_Table C b = t then [b] else []
    | PUnpaused b \<Rightarrow> if pc_Table C b = t then [b] else []
    | PLive b \<Rightarrow> if pc_Table C b = t then [b] else []
    | PTake b \<Rightarrow> if pc_Table C b = t then [b] else []
    | PRoom b \<Rightarrow> if pc_Table C b = t then [b] else []
    | PEnqueue b \<Rightarrow> if pc_Table C b = t then [b] else []
    | _ \<Rightarrow> [])"

definition paused_held :: "('g, 'i) pump \<Rightarrow> string \<Rightarrow> 'i list" where
  "paused_held s t = gm_at [] (pa_held (pm_pause s)) t"

definition gate_held :: "('g, 'i) gate_ops \<Rightarrow> ('g \<Rightarrow> string \<Rightarrow> 'i list) \<Rightarrow> 'g \<Rightarrow> string \<Rightarrow> 'i list" where
  "gate_held G held g t = (case go_openKey G g t of None \<Rightarrow> [] | Some k \<Rightarrow> held g k)"

text \<open>Everything of a table not handed on yet, oldest first.\<close>

definition pending :: "('g, 'i) gate_ops \<Rightarrow> ('g \<Rightarrow> string \<Rightarrow> 'i list) \<Rightarrow> 'i pump_cfg \<Rightarrow> ('g, 'i) pump \<Rightarrow> string \<Rightarrow> 'i list" where
  "pending G held C s t =
     in_flight s t @ accumulated s t @ gate_held G held (pm_gate s) t @ resuming s t @ paused_held s t @ in_hand C s t"

text \<open>
  The two exclusions: no window is open on a table that is paused or has batches of a pause to route, and
  a table stops being staged only with nothing accumulated.
\<close>

definition calm :: "('g, 'i) gate_ops \<Rightarrow> ('g, 'i) pump \<Rightarrow> bool" where
  "calm G s \<longleftrightarrow> (\<forall>t. Paused (pm_pause s) t \<or> paused_held s t \<noteq> [] \<or> resuming s t \<noteq> [] \<longrightarrow> go_openKey G (pm_gate s) t = None)
     \<and> (\<forall>t. \<not> pm_staged s t \<longrightarrow> accumulated s t = [])"

definition pstep_calm :: "('g, 'i) gate_ops \<Rightarrow> 'i pump_cfg \<Rightarrow> ('g, 'i) pump \<Rightarrow> ('g, 'i) pump \<Rightarrow> bool" where
  "pstep_calm G C s s' \<longleftrightarrow> pstep G C s s' \<and> calm G s'"

section \<open>The order is kept\<close>

definition drain_ok :: "('g, 'i) gate_ops \<Rightarrow> ('g, 'i) pump \<Rightarrow> bool" where
  "drain_ok G s = (case pm_drain s of
      DFree \<Rightarrow> True
    | DSending t items own \<Rightarrow> own \<or> go_openKey G (pm_gate s) t \<noteq> None
    | DOpening t \<Rightarrow> go_openKey G (pm_gate s) t \<noteq> None
    | DClose t k \<Rightarrow> go_openKey G (pm_gate s) t = Some k
    | DClosing t k items \<Rightarrow> go_openKey G (pm_gate s) t = Some k)"

definition accum_ok :: "('g, 'i) gate_ops \<Rightarrow> ('g, 'i) pump \<Rightarrow> bool" where
  "accum_ok G s \<longleftrightarrow> (\<forall>t. go_openKey G (pm_gate s) t \<noteq> None \<longrightarrow> accumulated s t = [] \<or> pm_drain s = DOpening t)"

text \<open>What the pump's place says of the batch it has in hand.\<close>

definition at_ok :: "('g, 'i) gate_ops \<Rightarrow> ('g \<Rightarrow> string \<Rightarrow> 'i list) \<Rightarrow> 'i pump_cfg \<Rightarrow> ('g, 'i) pump \<Rightarrow> bool" where
  "at_ok G held C s = (case pm_at s of
      PUnpaused b \<Rightarrow> paused_held s (pc_Table C b) = []
    | PLive b \<Rightarrow> paused_held s (pc_Table C b) = [] \<and> gate_held G held (pm_gate s) (pc_Table C b) = []
        \<and> (\<not> waits s \<longrightarrow> \<not> pm_staged s (pc_Table C b) \<longrightarrow> in_flight s (pc_Table C b) = [])
        \<and> (\<forall>k items. pm_drain s \<noteq> DClosing (pc_Table C b) k items)
    | PTake b \<Rightarrow> paused_held s (pc_Table C b) = []
    | PRoom b \<Rightarrow> paused_held s (pc_Table C b) = []
    | PEnqueue b \<Rightarrow> paused_held s (pc_Table C b) = [] \<and> gate_held G held (pm_gate s) (pc_Table C b) = []
        \<and> in_flight s (pc_Table C b) = [] \<and> accumulated s (pc_Table C b) = []
    | PResume l \<Rightarrow> distinct (map fst l)
    | PHeld t bs l \<Rightarrow> accumulated s t = [] \<and> distinct (map fst ((t, bs) # l))
    | _ \<Rightarrow> True)"

definition in_order :: "('g, 'i) gate_ops \<Rightarrow> ('g \<Rightarrow> string \<Rightarrow> 'i list) \<Rightarrow> 'i pump_cfg \<Rightarrow> ('g, 'i) pump \<Rightarrow> bool" where
  "in_order G held C s \<longleftrightarrow> (\<forall>t. pm_src s t = pm_out s t @ pending G held C s t)"

lemmas pump_defs = accumulated_def in_flight_def resuming_def in_hand_def paused_held_def waits_def take_accum_def emit_def

lemma accumulated_del: "accumulated (s\<lparr>pm_accum := gm_del t (pm_accum s)\<rparr>) t' = (if t' = t then [] else accumulated s t')"
  by (simp add: accumulated_def)

lemma of_table_Nil [simp]: "of_table t [] = []"
  by (simp add: of_table_def)

lemma of_table_Cons [simp]: "of_table t (e # l) = (if fst e = t then snd e @ of_table t l else of_table t l)"
  by (simp add: of_table_def)

lemma of_table_absent: "t \<notin> fst ` set l \<Longrightarrow> of_table t l = []"
  by (induction l) auto

lemma of_table_remove1:
  "distinct (map fst l) \<Longrightarrow> (t, bs) \<in> set l \<Longrightarrow> of_table t' ((t, bs) # remove1 (t, bs) l) = of_table t' l"
proof (induction l)
  case (Cons e l)
  show ?case
  proof (cases "e = (t, bs)")
    case False
    with Cons.prems have "fst e \<noteq> t" by (auto simp: image_iff)
    with Cons False show ?thesis by auto
  qed simp
qed simp

lemma distinct_remove1_keys:
  "distinct (map fst l) \<Longrightarrow> (t, bs) \<in> set l \<Longrightarrow> distinct (map fst ((t, bs) # remove1 (t, bs) l))"
proof (induction l)
  case (Cons e l)
  have sub: "set (remove1 (t, bs) l) \<subseteq> set l" by (rule set_remove1_subset)
  show ?case
  proof (cases "e = (t, bs)")
    case False
    with Cons.prems have "fst e \<noteq> t" by (auto simp: image_iff)
    with Cons False sub show ?thesis by auto
  qed (use Cons in auto)
qed simp

lemma TakeResumed_split:
  assumes "gm_wf (pa_held p)" "TakeResumed p = (p', l)"
  shows "gm_wf (pa_held p')" "distinct (map fst l)" "pa_paused p' = pa_paused p"
    "of_table t l @ gm_at [] (pa_held p') t = gm_at [] (pa_held p) t"
proof -
  have p': "p' = p\<lparr>pa_held := filter (\<lambda>e. \<not> resumable p e) (pa_held p)\<rparr>" and l: "l = filter (resumable p) (pa_held p)"
    using assms(2) by (simp_all add: TakeResumed_def)
  show "gm_wf (pa_held p')" "distinct (map fst l)" "pa_paused p' = pa_paused p"
    using assms(1) by (simp_all add: p' l gm_wf_def distinct_map_filter)
  have "of_table t (filter (resumable p) m) @ gm_at [] (filter (\<lambda>e. \<not> resumable p e) m) t = gm_at [] m t" if "gm_wf m" for m
    using that
  proof (induction m)
    case (Cons e m)
    obtain t' bs where e: "e = (t', bs)" by fastforce
    have fresh: "t \<notin> fst ` set (filter Q m)" if "t' = t" for Q using that Cons.prems e by auto
    show ?case using Cons e
      by (cases "t' = t") (auto simp: gm_at_def of_table_absent [OF fresh] gm_at_fresh [OF fresh, unfolded gm_at_def]
            gm_at_fresh [unfolded gm_at_def])
  qed simp
  then show "of_table t l @ gm_at [] (pa_held p') t = gm_at [] (pa_held p) t" using assms(1) by (simp add: p' l)
qed

context holding_gate
begin

abbreviation gheld :: "'g \<Rightarrow> string \<Rightarrow> 'i list" where
  "gheld \<equiv> gate_held G held"

lemma gheld_append:
  assumes "ok g" "go_openKey G g t = Some k"
  shows "gheld (go_append G g k i) t' = gheld g t' @ (if t' = t then [i] else [])"
proof -
  note law = append_law [OF assms, of i]
  have "k' \<noteq> k" if "go_openKey G g t' = Some k'" "t' \<noteq> t" for k'
    using that key_law [OF assms(1)] assms(2) by metis
  with law assms show ?thesis by (auto simp: gate_held_def split: option.splits)
qed

lemma gheld_take:
  assumes "ok g" "go_openKey G g t = Some k" "go_take G g k = (g', items)"
  shows "items = gheld g t" "gheld g' t' = (if t' = t then [] else gheld g t')"
proof -
  note law = take_law [OF assms(1,3)]
  show "items = gheld g t" using law assms(2) by (simp add: gate_held_def)
  have "k' \<noteq> k" if "go_openKey G g t' = Some k'" "t' \<noteq> t" for k'
    using that key_law [OF assms(1)] assms(2) by metis
  with law assms show "gheld g' t' = (if t' = t then [] else gheld g t')"
    by (auto simp: gate_held_def split: option.splits)
qed

lemma gheld_open:
  assumes "ok g" "go_openKey G g t = None"
  shows "gheld (go_Open G g t p) t' = gheld g t'"
proof -
  note law = open_law [OF assms, of p]
  have "held g k = []" if "go_openKey G (go_Open G g t p) t = Some k" for k
  proof (rule ccontr)
    assume "held g k \<noteq> []"
    then have "go_openKey G g (key_target k) = Some k" by (rule held_law [OF assms(1)])
    moreover have "key_target k = t" using key_law [of "go_Open G g t p" t k] law that by blast
    ultimately show False using assms(2) by simp
  qed
  with law assms show ?thesis by (cases "t' = t") (auto simp: gate_held_def split: option.splits)
qed

lemma gheld_seal:
  assumes "ok g" "go_openKey G g t = Some k" "held g k = []"
  shows "gheld (go_seal G g k) t' = gheld g t'"
  using seal_law [OF assms] assms by (auto simp: gate_held_def split: option.splits)

lemma gheld_same: "held g' = held g \<Longrightarrow> go_openKey G g' = go_openKey G g \<Longrightarrow> gheld g' t = gheld g t"
  by (simp add: gate_held_def split: option.split)

lemma gheld_ready: "ok g \<Longrightarrow> gheld (go_ready G g t p r) t' = gheld g t'"
  using ready_law by (intro gheld_same) auto

lemma gheld_reopen:
  "ok g \<Longrightarrow> go_openKey G g t = Some (Key \<lparr>w_Target = t, w_Partition = p\<rparr>) \<Longrightarrow> gheld (go_Open G g t p) t' = gheld g t'"
  using reopen_law by (intro gheld_same) auto

lemma gheld_closed: "go_openKey G g t = None \<Longrightarrow> gheld g t = []"
  by (simp add: gate_held_def)

text \<open>The last take of a close found nothing, so sealing loses nothing.\<close>

lemma close_seal_law:
  assumes "ok g" "go_openKey G g t = Some k" "go_take G g k = (g', [])"
  shows "ok (go_seal G g' k)" "go_openKey G (go_seal G g' k) = (go_openKey G g)(t := None)" "gheld (go_seal G g' k) t' = gheld g t'"
proof -
  note law = take_law [OF assms(1,3)]
  have op: "go_openKey G g' t = Some k" and e: "held g' k = []" using law assms(2) by simp_all
  note s = seal_law [OF _ op e]
  show "ok (go_seal G g' k)" "go_openKey G (go_seal G g' k) = (go_openKey G g)(t := None)" using s law by simp_all
  have "gheld (go_seal G g' k) t' = gheld g' t'" using gheld_seal [OF _ op e] law by simp
  also have "\<dots> = gheld g t'" using gheld_take [OF assms] by auto
  finally show "gheld (go_seal G g' k) t' = gheld g t'" .
qed

lemma pstep_gate_ok:
  assumes "pstep G C s s'" "ok (pm_gate s)" "drain_ok G s"
  shows "ok (pm_gate s')"
  using assms
proof cases
  case close_seal
  with assms close_seal_law show ?thesis by (auto simp: drain_ok_def)
qed (auto simp: take_accum_def emit_def append_law open_law reopen_law ready_law dest: take_law)

lemma pstep_drain_ok:
  assumes "pstep G C s s'" "ok (pm_gate s)" "drain_ok G s"
  shows "drain_ok G s'"
  using assms
proof cases
  case (open_window t part)
  with assms open_law show ?thesis by (auto simp: drain_ok_def)
qed (auto simp: drain_ok_def take_accum_def emit_def append_law reopen_law ready_law dest: take_law split: drainer.splits)

lemma pstep_accum_ok:
  assumes "pstep G C s s'" "ok (pm_gate s)" "drain_ok G s" "accum_ok G s"
  shows "accum_ok G s'"
  using assms
proof cases
  case (open_window t part)
  with assms open_law [of "pm_gate s" t part] show ?thesis by (auto simp: accum_ok_def accumulated_def)
next
  case close_seal
  with assms close_seal_law show ?thesis by (auto simp: accum_ok_def accumulated_def drain_ok_def split: if_splits)
qed (auto simp: accum_ok_def accumulated_def drain_ok_def take_accum_def emit_def append_law reopen_law ready_law dest: take_law split: if_splits)

lemma pstep_held_wf:
  assumes "pstep G C s s'" "gm_wf (pa_held (pm_pause s))"
  shows "gm_wf (pa_held (pm_pause s'))"
  using assms
proof cases
  case (take_resumed p l)
  with assms TakeResumed_split show ?thesis by simp
qed (auto simp: take_accum_def emit_def pause_Hold_def pause_Pause_def pause_Resume_def split: if_splits)

lemma pstep_at_ok:
  assumes "pstep G C s s'" "ok (pm_gate s)" "drain_ok G s" "calm G s" "gm_wf (pa_held (pm_pause s))" "at_ok G held C s"
  shows "at_ok G held C s'"
  using assms
proof cases
  case (gate_pass b)
  with assms show ?thesis by (auto simp: at_ok_def pump_defs drain_ok_def gheld_closed split: drainer.splits)
next
  case (open_window t part)
  with assms open_law [of "pm_gate s" t part] show ?thesis
    by (auto simp: at_ok_def pump_defs gheld_open split: pump_at.splits)
next
  case (gate_drain t k g items own)
  with assms gheld_take [of "pm_gate s" t k g items] show ?thesis by (auto simp: at_ok_def pump_defs split: pump_at.splits)
next
  case (close_take t k g items)
  with assms gheld_take [of "pm_gate s" t k g items] show ?thesis
    by (auto simp: at_ok_def drain_ok_def pump_defs split: pump_at.splits)
next
  case (close_seal t k g)
  with assms close_seal_law [of "pm_gate s" t k g] show ?thesis
    by (auto simp: at_ok_def drain_ok_def pump_defs split: pump_at.splits)
next
  case (flip t v)
  with assms show ?thesis
    by (auto simp: at_ok_def drain_ok_def calm_def pump_defs split: pump_at.splits drainer.splits)
next
  case (take_resumed p l)
  with assms TakeResumed_split(2) [of "pm_pause s" p l] show ?thesis by (simp add: at_ok_def)
next
  case (resume_flush l t bs)
  with assms distinct_remove1_keys [of l t bs] show ?thesis by (simp add: at_ok_def pump_defs)
next
  case (ready t part r)
  with assms show ?thesis by (auto simp: at_ok_def pump_defs gheld_ready split: pump_at.splits)
next
  case (reopen_window t part)
  with assms show ?thesis by (auto simp: at_ok_def pump_defs gheld_reopen split: pump_at.splits)
next
  case (open_send t)
  with assms show ?thesis by (auto simp: at_ok_def pump_defs calm_def split: pump_at.splits)
next
  case (pause_hold b p hd)
  with assms show ?thesis by (auto simp: at_ok_def pump_defs pause_Hold_def split: if_splits)
next
  case (live b)
  then have "\<not> pm_staged s (pc_Table C b) \<Longrightarrow> accumulated s (pc_Table C b) = []" using assms(4) by (simp add: calm_def)
  with live assms show ?thesis by (auto simp: at_ok_def in_flight_def paused_held_def accumulated_def)
qed (auto simp: at_ok_def pump_defs pause_Pause_def pause_Resume_def split: pump_at.splits)

lemma pstep_in_order:
  assumes "pstep G C s s'" "ok (pm_gate s)" "drain_ok G s" "accum_ok G s" "calm G s" "gm_wf (pa_held (pm_pause s))"
    "at_ok G held C s" "in_order G held C s"
  shows "in_order G held C s'"
proof -
  have order: "pm_src s t = pm_out s t @ pending G held C s t" for t using assms(8) by (simp add: in_order_def)
  have "pm_src s' t' = pm_out s' t' @ pending G held C s' t'" for t'
    using assms(1)
  proof cases
    case (pause_hold b p hd)
    with order [of t'] show ?thesis by (auto simp: pending_def pump_defs pause_Hold_def split: if_splits)
  next
    case (gate_hold b k)
    with order [of t'] assms show ?thesis by (auto simp: pending_def pump_defs gheld_append at_ok_def)
  next
    case (take_gate b k)
    with order [of t'] assms show ?thesis by (auto simp: pending_def pump_defs gheld_append at_ok_def)
  next
    case (take_accum b t a now)
    with order [of t'] assms show ?thesis
      by (auto simp: pending_def pump_defs gheld_closed at_ok_def accum_Add_def NewAccum_def split: option.splits)
  next
    case (enqueue b n)
    with order [of t'] assms show ?thesis by (auto simp: pending_def pump_defs at_ok_def)
  next
    case (open_window t part)
    with order [of t'] assms show ?thesis by (auto simp: pending_def pump_defs gheld_open)
  next
    case (reopen_window t part)
    with order [of t'] assms show ?thesis by (simp add: pending_def pump_defs gheld_reopen)
  next
    case (gate_drain t k g items own)
    then have "accumulated s t = []" using assms(4) by (auto simp: accum_ok_def)
    with gate_drain order [of t'] gheld_take [OF assms(2) gate_drain(3,4)] show ?thesis
      by (auto simp: pending_def in_flight_def accumulated_def resuming_def in_hand_def paused_held_def)
  next
    case (close_take t k g items)
    then have op: "go_openKey G (pm_gate s) t = Some k" using assms(3) by (simp add: drain_ok_def)
    then have "accumulated s t = []" using assms(4) close_take by (auto simp: accum_ok_def)
    with close_take order [of t'] gheld_take [OF assms(2) op close_take(3)] show ?thesis
      by (auto simp: pending_def in_flight_def accumulated_def resuming_def in_hand_def paused_held_def)
  next
    case (close_seal t k g)
    then have op: "go_openKey G (pm_gate s) t = Some k" using assms(3) by (simp add: drain_ok_def)
    with close_seal order [of t'] close_seal_law(3) [OF assms(2) op close_seal(3)] show ?thesis by (simp add: pending_def pump_defs)
  next
    case (ready t part r)
    with order [of t'] assms show ?thesis by (simp add: pending_def pump_defs gheld_ready)
  next
    case (take_resumed p l)
    with order [of t'] TakeResumed_split(4) [OF assms(6) take_resumed(5), of t'] show ?thesis by (simp add: pending_def pump_defs)
  next
    case (resume_flush l t bs)
    then have "distinct (map fst l)" using assms(7) by (simp add: at_ok_def)
    with resume_flush order [of t'] of_table_remove1 [of l t bs t'] show ?thesis
      by (auto simp: pending_def pump_defs simp del: of_table_Cons)
  next
    case (resume_send t bs rest n)
    have "accumulated s t = []" using assms(7) resume_send by (simp add: at_ok_def)
    moreover have "gheld (pm_gate s) t = [] \<and> in_flight s t = []" if "bs \<noteq> []"
    proof -
      have "resuming s t \<noteq> []" using resume_send that by (simp add: resuming_def)
      then have closed: "go_openKey G (pm_gate s) t = None" using assms(5) by (auto simp: calm_def)
      then have "in_flight s t = []" using assms(3) resume_send by (auto simp: drain_ok_def in_flight_def waits_def split: drainer.splits)
      with closed show ?thesis by (simp add: gheld_closed)
    qed
    ultimately show ?thesis using resume_send order [of t']
      by (cases "bs = []") (auto simp: pending_def pump_defs)
  qed (use order [of t'] in \<open>auto simp: pending_def pump_defs pause_Pause_def pause_Resume_def\<close>)
  then show ?thesis by (simp add: in_order_def)
qed

definition pump_inv :: "'i pump_cfg \<Rightarrow> ('g, 'i) pump \<Rightarrow> bool" where
  "pump_inv C s \<longleftrightarrow> ok (pm_gate s) \<and> drain_ok G s \<and> accum_ok G s \<and> calm G s \<and> gm_wf (pa_held (pm_pause s))
     \<and> at_ok G held C s \<and> in_order G held C s"

lemma pump_inv_step: "pstep_calm G C s s' \<Longrightarrow> pump_inv C s \<Longrightarrow> pump_inv C s'"
  using pstep_gate_ok pstep_drain_ok pstep_accum_ok pstep_held_wf pstep_at_ok pstep_in_order
  unfolding pstep_calm_def pump_inv_def by blast

lemma pump_inv_init:
  assumes "ok g" "\<And>k. held g k = []"
  shows "pump_inv C (pump_init g staged)"
proof -
  have "gheld g t = []" for t using assms(2) by (simp add: gate_held_def split: option.split)
  with assms(1) show ?thesis
    by (simp add: pump_inv_def pump_init_def drain_ok_def accum_ok_def calm_def at_ok_def in_order_def pending_def pump_defs
        Paused_def Pause_zero_def)
qed

lemma calm_run_in_order:
  assumes "ok g" "\<And>k. held g k = []" "(pstep_calm G C)\<^sup>*\<^sup>* (pump_init g staged) s"
  shows "pm_src s t = pm_out s t @ pending G held C s t"
proof -
  have "pump_inv C s"
    using assms(3) by (induction rule: rtranclp_induct) (auto intro: pump_inv_init assms(1,2) pump_inv_step)
  then show ?thesis by (simp add: pump_inv_def in_order_def)
qed

end

lemma gate_ok_New: "gate_ok (New_gate maxCount maxBytes sz)"
  by (rule gate_okI) (auto simp: New_gate_def)

section \<open>Properties\<close>

text \<open>
  C3: the pump keeps every table's source order. Under every interleaving of reading, pausing, windows
  opening, draining and closing, accumulators filling and flushing, and re-slices, what was handed on for
  a table followed by what is still held for it, in flight, accumulated, in a window, held by a pause or in
  hand, is exactly what the source produced: nothing is lost, repeated or overtaken. The runs are those in
  which no window is open on a table while it is paused or has batches of a pause to route, and a table
  that stops being staged has nothing accumulated.
\<close>

theorem pump_keeps_source_order:
  assumes "(pstep_calm window_gate C)\<^sup>*\<^sup>* (pump_init (New_gate maxCount maxBytes sz) staged) s"
  shows "pm_src s t = pm_out s t @ pending window_gate held_in C s t"
  by (rule wgate.calm_run_in_order [OF gate_ok_New _ assms]) (simp add: held_in_def New_gate_def)

definition one_table :: "nat pump_cfg" where
  "one_table = \<lparr>pc_Table = (\<lambda>b. ''t''), pc_Rows = (\<lambda>b. 1), pc_Size = (\<lambda>b. 1), pc_Bounds = NewBounds 0 0 0\<rparr>"

definition start_pump :: "(nat gate, nat) pump" where
  "start_pump = pump_init (New_gate 0 0 None) (\<lambda>t. True)"

lemmas run_simps = start_pump_def pump_init_def one_table_def window_gate_def New_gate_def openKeyLocked_def Pause_zero_def
  pause_Hold_def pause_Pause_def pause_Resume_def TakeResumed_def resumable_def Paused_def NewAccum_def accum_Add_def Fits_def
  gm_has_def gm_at_def gm_put_def gm_del_def gate_Open_def fullLocked_def appendLocked_def takeLocked_def Let_def
  opens_def accum_due_def accum_Full_def time_Sub_def minDuration_def maxDuration_def NewBounds_def DefaultCycleMaxRows_def DefaultCycleMaxBytes_def DefaultCycleMaxAge_def

lemma run_step: "pstep G C s s1 \<Longrightarrow> s1 = s2 \<Longrightarrow> (pstep G C)\<^sup>*\<^sup>* s2 u \<Longrightarrow> (pstep G C)\<^sup>*\<^sup>* s u"
  by (simp add: converse_rtranclp_into_rtranclp)

lemma calm_step:
  "pstep G C s s1 \<Longrightarrow> s1 = s2 \<Longrightarrow> calm G s2 \<Longrightarrow> (pstep_calm G C)\<^sup>*\<^sup>* s2 u \<Longrightarrow> (pstep_calm G C)\<^sup>*\<^sup>* s u"
  by (simp add: converse_rtranclp_into_rtranclp pstep_calm_def)

lemma paused_run:
  "\<exists>s. (pstep_calm window_gate one_table)\<^sup>*\<^sup>* start_pump s \<and> pm_src s ''t'' = [0, 1, 2] \<and> pm_out s ''t'' = [0, 1, 2]"
  supply run_simps [simp] pump_defs [simp]
  apply (rule exI, rule conjI)
   apply (rule calm_step, rule pstep.read [where b = 0], simp, simp, simp, simp, simp add: calm_def)
   apply (rule calm_step, rule pstep.unpaused, simp, simp, simp, simp, simp add: calm_def)
   apply (rule calm_step, rule pstep.pause_hold, simp, simp, rule surjective_pairing, simp, simp add: calm_def)
   apply (rule calm_step, rule pstep.gate_pass, simp, simp, simp, simp, simp add: calm_def)
   apply (rule calm_step, rule pstep.live, simp, simp, simp, simp add: calm_def)
   apply (rule calm_step, rule pstep.take_accum [where now = 0], simp, simp, simp, simp, simp, simp, simp, simp add: calm_def)
   apply (rule calm_step, rule pstep.added [where now = 0], simp, simp, simp, simp add: calm_def)
   apply (rule calm_step, rule pstep.flush, simp, simp, simp, simp add: calm_def)
   apply (rule calm_step, rule pstep.deliver [where n = 1], simp, simp, simp, simp add: calm_def)
   apply (rule calm_step, rule pstep.read [where b = 1], simp, simp, simp, simp, simp add: calm_def)
   apply (rule calm_step, rule pstep.unpaused, simp, simp, simp, simp, simp add: calm_def)
   apply (rule calm_step, rule pstep.pause_hold, simp, simp, rule surjective_pairing, simp, simp add: calm_def)
   apply (rule calm_step, rule pstep.gate_pass, simp, simp, simp, simp, simp add: calm_def)
   apply (rule calm_step, rule pstep.live, simp, simp, simp, simp add: calm_def)
   apply (rule calm_step, rule pstep.take_accum [where now = 0], simp, simp, simp, simp, simp, simp, simp, simp add: calm_def)
   apply (rule calm_step, rule pstep.added [where now = 0], simp, simp, simp, simp add: calm_def)
   apply (rule calm_step, rule pstep.admit [where t = "''t''"], simp, simp, simp, simp add: calm_def)
   apply (rule calm_step, rule pstep.pause [where t = "''t''"], simp, simp, simp add: calm_def)
   apply (rule calm_step, rule pstep.read [where b = 2], simp, simp, simp, simp, simp add: calm_def)
   apply (rule calm_step, rule pstep.flush_before_pause, simp, simp, simp, simp, simp add: calm_def)
   apply (rule calm_step, rule pstep.deliver [where n = 1], simp, simp, simp, simp add: calm_def)
   apply (rule calm_step, rule pstep.pause_hold, simp, simp, rule surjective_pairing, simp, simp add: calm_def)
   apply (rule calm_step, rule pstep.commit [where t = "''t''" and n = 1], simp, simp, simp add: calm_def)
   apply (rule calm_step, rule pstep.commit [where t = "''t''" and n = 0], simp, simp, simp add: calm_def)
   apply (rule calm_step, rule pstep.drained [where t = "''t''"], simp, simp, simp, simp add: calm_def)
   apply (rule calm_step, rule pstep.flip [where t = "''t''" and v = True], simp, simp, simp, simp add: calm_def)
   apply (rule calm_step, rule pstep.resume [where t = "''t''"], simp, simp, simp add: calm_def)
   apply (rule calm_step, rule pstep.take_resumed, simp, simp, simp, rule surjective_pairing, simp, simp add: calm_def)
   apply (rule calm_step, rule pstep.resume_flush [where t = "''t''" and bs = "[2]"], simp, simp, simp, simp, simp add: calm_def)
   apply (rule calm_step, rule pstep.deliver [where n = 0], simp, simp, simp, simp add: calm_def)
   apply (rule calm_step, rule pstep.resume_send [where n = 1], simp, simp, simp, simp, simp add: calm_def)
   apply (rule rtranclp.rtrancl_refl)
  apply simp
  done

theorem pump_keeps_source_order_witness:
  "\<exists>s. (pstep_calm window_gate one_table)\<^sup>*\<^sup>* start_pump s \<and> pm_out s ''t'' = [0, 1, 2]
     \<and> pm_src s ''t'' = pm_out s ''t'' @ pending window_gate held_in one_table s ''t''"
proof -
  obtain s where s: "(pstep_calm window_gate one_table)\<^sup>*\<^sup>* start_pump s" "pm_out s ''t'' = [0, 1, 2]"
    using paused_run by auto
  with pump_keeps_source_order [OF s(1) [unfolded start_pump_def], of "''t''"] show ?thesis by auto
qed

lemma flip_run:
  "\<exists>s. (pstep window_gate one_table)\<^sup>*\<^sup>* start_pump s \<and> pm_src s ''t'' = [0, 1, 2] \<and> pm_out s ''t'' = [0, 2, 1]
     \<and> (\<forall>t. \<not> pm_snapshot s t) \<and> openKeyLocked (pm_gate s) ''t'' = None"
  supply run_simps [simp] pump_defs [simp]
  apply (rule exI, rule conjI)
   apply (rule run_step, rule pstep.read [where b = 0], simp, simp, simp, simp)
   apply (rule run_step, rule pstep.unpaused, simp, simp, simp, simp)
   apply (rule run_step, rule pstep.pause_hold, simp, simp, rule surjective_pairing, simp)
   apply (rule run_step, rule pstep.gate_pass, simp, simp, simp, simp)
   apply (rule run_step, rule pstep.live, simp, simp, simp)
   apply (rule run_step, rule pstep.take_accum [where now = 0], simp, simp, simp, simp, simp, simp, simp)
   apply (rule run_step, rule pstep.added [where now = 0], simp, simp, simp)
   apply (rule run_step, rule pstep.flush, simp, simp, simp)
   apply (rule run_step, rule pstep.deliver [where n = 1], simp, simp, simp)
   apply (rule run_step, rule pstep.read [where b = 1], simp, simp, simp, simp)
   apply (rule run_step, rule pstep.unpaused, simp, simp, simp, simp)
   apply (rule run_step, rule pstep.pause_hold, simp, simp, rule surjective_pairing, simp)
   apply (rule run_step, rule pstep.gate_pass, simp, simp, simp, simp)
   apply (rule run_step, rule pstep.live, simp, simp, simp)
   apply (rule run_step, rule pstep.take_accum [where now = 0], simp, simp, simp, simp, simp, simp, simp)
   apply (rule run_step, rule pstep.added [where now = 0], simp, simp, simp)
   apply (rule run_step, rule pstep.admit [where t = "''t''"], simp, simp, simp)
   apply (rule run_step, rule pstep.pause [where t = "''t''"], simp, simp)
   apply (rule run_step, rule pstep.commit [where t = "''t''" and n = 0], simp, simp)
   apply (rule run_step, rule pstep.drained [where t = "''t''"], simp, simp, simp)
   apply (rule run_step, rule pstep.flip [where t = "''t''" and v = False], simp, simp, simp)
   apply (rule run_step, rule pstep.resume [where t = "''t''"], simp, simp)
   apply (rule run_step, rule pstep.read [where b = 2], simp, simp, simp, simp)
   apply (rule run_step, rule pstep.unpaused, simp, simp, simp, simp)
   apply (rule run_step, rule pstep.pause_hold, simp, simp, rule surjective_pairing, simp)
   apply (rule run_step, rule pstep.gate_pass, simp, simp, simp, simp)
   apply (rule run_step, rule pstep.live, simp, simp, simp)
   apply (rule run_step, rule pstep.enqueue [where n = 0], simp, simp, simp, simp)
   apply (rule run_step, rule pstep.tick [where l = "[''t'']" and now = 0], simp, simp, simp, simp, simp)
   apply (rule run_step, rule pstep.tick_flush, simp, simp, simp)
   apply (rule run_step, rule pstep.deliver [where n = 0], simp, simp, simp)
   apply (rule rtranclp.rtrancl_refl)
  apply simp
  done

lemma window_run:
  "\<exists>s. (pstep window_gate one_table)\<^sup>*\<^sup>* start_pump s \<and> pm_src s ''t'' = [0, 1] \<and> pm_out s ''t'' = [1, 0]
     \<and> (\<forall>t. pm_staged s t) \<and> accumulated s ''t'' = []"
  supply run_simps [simp] pump_defs [simp]
  apply (rule exI, rule conjI)
   apply (rule run_step, rule pstep.admit [where t = "''t''"], simp, simp, simp)
   apply (rule run_step, rule pstep.begin_snapshot [where t = "''t''"], simp)
   apply (rule run_step, rule pstep.open_window [where t = "''t''" and part = 0], simp, simp, simp, simp)
   apply (rule run_step, rule pstep.open_send, simp, simp)
   apply (rule run_step, rule pstep.deliver [where own = False and n = 0], simp, simp, simp)
   apply (rule run_step, rule pstep.read [where b = 0], simp, simp, simp, simp)
   apply (rule run_step, rule pstep.unpaused, simp, simp, simp, simp)
   apply (rule run_step, rule pstep.pause_hold, simp, simp, rule surjective_pairing, simp)
   apply (rule run_step, rule pstep.gate_hold [where k = "Key \<lparr>w_Target = ''t'', w_Partition = 0\<rparr>"], simp, simp, simp, simp, simp)
   apply (rule run_step, rule pstep.pause [where t = "''t''"], simp, simp)
   apply (rule run_step, rule pstep.read [where b = 1], simp, simp, simp, simp)
   apply (rule run_step, rule pstep.flush_before_pause, simp, simp, simp, simp)
   apply (rule run_step, rule pstep.deliver [where n = 0], simp, simp, simp)
   apply (rule run_step, rule pstep.pause_hold, simp, simp, rule surjective_pairing, simp)
   apply (rule run_step, rule pstep.drained [where t = "''t''"], simp, simp, simp)
   apply (rule run_step, rule pstep.flip [where t = "''t''" and v = True], simp, simp, simp)
   apply (rule run_step, rule pstep.resume [where t = "''t''"], simp, simp)
   apply (rule run_step, rule pstep.take_resumed, simp, simp, simp, rule surjective_pairing, simp)
   apply (rule run_step, rule pstep.resume_flush [where t = "''t''" and bs = "[1]"], simp, simp, simp, simp)
   apply (rule run_step, rule pstep.deliver [where n = 0], simp, simp, simp)
   apply (rule run_step, rule pstep.resume_send [where n = 1], simp, simp, simp, simp)
   apply (rule run_step, rule pstep.gate_drain [where t = "''t''" and own = False and k = "Key \<lparr>w_Target = ''t'', w_Partition = 0\<rparr>"], simp, simp, rule surjective_pairing, simp)
   apply (rule run_step, rule pstep.deliver [where own = False and n = 1], simp, simp, simp)
   apply (rule rtranclp.rtrancl_refl)
  apply simp
  done


end
