(* ===== verification/Columnar.thy ===== *)
theory Columnar
  imports Routing_Keys
begin

text \<open>
  \<open>internal/columnar\<close>: the batch primitives of the data plane. A record is its field names and its columns;
  a cell is its validity and its value, since the code reads the values of null cells too. A value's
  constructor is its column's Arrow type. Arrow's own kernels (take, equal, not, filter) are parameters with
  their documented behaviour as a hypothesis. Row indices, \<open>int32\<close> in the code, are naturals: a batch of two
  to the thirty-first rows is out of scope. Schema metadata, which the code copies, and reference counts are
  not modelled.

  The lemmas show that the collapse key separates exactly the different keys of a batch, that writing the
  collapsed batch leaves a table as writing every change in order does, and that splitting a batch by owner
  hands every row to its owner once, in order.
\<close>

section \<open>Records\<close>

datatype aval =
    VInt8 "8 word" | VInt16 "16 word" | VInt32 u32 | VInt64 u64
  | VUint8 "8 word" | VUint16 "16 word" | VUint32 u32 | VUint64 u64
  | VFloat32 u32 | VFloat64 u64 | VBool bool | VString string
  | VDate32 u32 | VTime64 u64 | VTimestamp u64 | VDecimal128 u64 u64
  | VBinary string | VFixedSizeBinary string | VOtherType nat

type_synonym acell = "bool \<times> aval"

type_synonym acol = "acell list"

record record_batch =
  rb_names :: "string list"
  rb_cols :: "acol list"
  rb_rows :: nat

definition IsNull :: "acol \<Rightarrow> nat \<Rightarrow> bool" where
  "IsNull c row \<longleftrightarrow> \<not> fst (c ! row)"

definition Value :: "acol \<Rightarrow> nat \<Rightarrow> aval" where
  "Value c row = snd (c ! row)"

datatype columnar_err =
    NoKeyColumns | KeyColumnMissing | KeyIdxsShort | KeyIdxRange | KeyNull | KeyUnsupported
  | OpMissing | OpNotUint8 | OpInvalid | TakeFailed | MaskFailed | FilterFailed

definition OpInsert :: "8 word" where "OpInsert = 0"

definition OpUpdate :: "8 word" where "OpUpdate = 1"

definition OpDelete :: "8 word" where "OpDelete = 2"

text \<open>The loop of \<open>colIndex\<close> from field \<open>i\<close> on; \<open>-1\<close> when no field has the name.\<close>

fun col_from :: "nat \<Rightarrow> string list \<Rightarrow> string \<Rightarrow> int" where
  "col_from i [] name = - 1"
| "col_from i (f # fs) name = (if f = name then int i else col_from (Suc i) fs name)"

definition colIndex :: "string list \<Rightarrow> string \<Rightarrow> int" where
  "colIndex schema name = col_from 0 schema name"

fun validateOpColumn :: "8 word list \<Rightarrow> bool" where
  "validateOpColumn [] = True"
| "validateOpColumn (v # vs) = (if v = OpInsert \<or> v = OpUpdate \<or> v = OpDelete then validateOpColumn vs else False)"

text \<open>The type assertion to \<open>*array.Uint8\<close>: the values, when every one has that type.\<close>

fun as_uint8 :: "aval \<Rightarrow> 8 word option" where
  "as_uint8 (VUint8 v) = Some v"
| "as_uint8 _ = None"

definition uint8_col :: "acol \<Rightarrow> 8 word list option" where
  "uint8_col c = those (map (\<lambda>x. as_uint8 (snd x)) c)"

section \<open>The collapse key\<close>

definition le_bytes :: "nat \<Rightarrow> nat \<Rightarrow> string" where
  "le_bytes k n = map (\<lambda>i. char_of (n div 256 ^ i)) [0..<k]"

definition tagged :: "nat \<Rightarrow> string \<Rightarrow> string" where
  "tagged t payload = char_of t # payload"

definition prefixed :: "string \<Rightarrow> string" where
  "prefixed s = le_bytes 4 (length s) @ s"

fun encode_cell :: "aval \<Rightarrow> string option" where
  "encode_cell (VInt8 v) = Some (tagged 14 (le_bytes 1 (unat v)))"
| "encode_cell (VInt16 v) = Some (tagged 15 (le_bytes 2 (unat v)))"
| "encode_cell (VInt32 v) = Some (tagged 1 (le_bytes 4 (unat v)))"
| "encode_cell (VInt64 v) = Some (tagged 2 (le_bytes 8 (unat v)))"
| "encode_cell (VUint8 v) = Some (tagged 16 (le_bytes 1 (unat v)))"
| "encode_cell (VUint16 v) = Some (tagged 17 (le_bytes 2 (unat v)))"
| "encode_cell (VUint32 v) = Some (tagged 18 (le_bytes 4 (unat v)))"
| "encode_cell (VUint64 v) = Some (tagged 3 (le_bytes 8 (unat v)))"
| "encode_cell (VFloat32 v) = Some (tagged 4 (le_bytes 4 (unat v)))"
| "encode_cell (VFloat64 v) = Some (tagged 5 (le_bytes 8 (unat v)))"
| "encode_cell (VBool b) = Some (tagged 6 [char_of (if b then 1 else 0 :: nat)])"
| "encode_cell (VString s) = Some (tagged 7 (prefixed s))"
| "encode_cell (VDate32 v) = Some (tagged 9 (le_bytes 4 (unat v)))"
| "encode_cell (VTime64 v) = Some (tagged 10 (le_bytes 8 (unat v)))"
| "encode_cell (VTimestamp v) = Some (tagged 11 (le_bytes 8 (unat v)))"
| "encode_cell (VDecimal128 lo hi) = Some (tagged 8 (le_bytes 8 (unat lo) @ le_bytes 8 (unat hi)))"
| "encode_cell (VBinary s) = Some (tagged 12 (prefixed s))"
| "encode_cell (VFixedSizeBinary s) = Some (tagged 13 s)"
| "encode_cell (VOtherType n) = None"

text \<open>The loop of \<open>EncodeKey\<close> over the key columns from \<open>i\<close> on, with what it appended so far.\<close>

fun encode_key_from :: "record_batch \<Rightarrow> nat \<Rightarrow> int list \<Rightarrow> nat \<Rightarrow> string list \<Rightarrow> string \<Rightarrow> (columnar_err, string) res" where
  "encode_key_from rec row pkIdxs i [] buf = Ok buf"
| "encode_key_from rec row pkIdxs i (col # cols) buf =
     (if i \<ge> length pkIdxs then Err KeyIdxsShort
      else (let idx = pkIdxs ! i in
            if idx < 0 \<or> idx \<ge> int (length (rb_cols rec)) then Err KeyIdxRange
            else (let arr = rb_cols rec ! nat idx in
                  if row \<ge> length arr then Panic
                  else if IsNull arr row then Err KeyNull
                  else (case encode_cell (Value arr row) of
                          None \<Rightarrow> Err KeyUnsupported
                        | Some enc \<Rightarrow> encode_key_from rec row pkIdxs (Suc i) cols (buf @ enc)))))"

definition columnar_EncodeKey :: "record_batch \<Rightarrow> nat \<Rightarrow> int list \<Rightarrow> string list \<Rightarrow> (columnar_err, string) res" where
  "columnar_EncodeKey rec row pkIdxs pkCols = encode_key_from rec row pkIdxs 0 pkCols []"

section \<open>Collapse\<close>

text \<open>Arrow's kernels, each of which may fail.\<close>

record kernels =
  kn_take :: "acol \<Rightarrow> nat list \<Rightarrow> acol option"
  kn_equal :: "acol \<Rightarrow> 8 word \<Rightarrow> bool list option"
  kn_not :: "bool list \<Rightarrow> bool list option"
  kn_filter :: "record_batch \<Rightarrow> bool list \<Rightarrow> record_batch option"

fun resolve_idxs :: "string list \<Rightarrow> string list \<Rightarrow> (columnar_err, int list) res" where
  "resolve_idxs schema [] = Ok []"
| "resolve_idxs schema (c # cs) =
     (if colIndex schema c < 0 then Err KeyColumnMissing
      else res_bind (resolve_idxs schema cs) (\<lambda>is. Ok (colIndex schema c # is)))"

fun row_keys :: "record_batch \<Rightarrow> int list \<Rightarrow> string list \<Rightarrow> nat list \<Rightarrow> (columnar_err, string list) res" where
  "row_keys rec pkIdxs pkCols [] = Ok []"
| "row_keys rec pkIdxs pkCols (r # rs) =
     res_bind (columnar_EncodeKey rec r pkIdxs pkCols) (\<lambda>k. res_bind (row_keys rec pkIdxs pkCols rs) (\<lambda>ks. Ok (k # ks)))"

text \<open>The grouping scan from \<open>row\<close> on: the winning row per key and the keys in the order they appeared.\<close>

fun group_rows :: "nat \<Rightarrow> string list \<Rightarrow> (string, nat) gomap \<Rightarrow> string list \<Rightarrow> (string, nat) gomap \<times> string list" where
  "group_rows row [] groups order = (groups, order)"
| "group_rows row (k # ks) groups order =
     group_rows (Suc row) ks (gm_put k row groups) (if gm_has groups k then order else order @ [k])"

definition winners :: "string list \<Rightarrow> nat list" where
  "winners keys = (case group_rows 0 keys [] [] of (groups, order) \<Rightarrow> map (gm_at 0 groups) order)"

fun take_cols :: "kernels \<Rightarrow> acol list \<Rightarrow> nat list \<Rightarrow> (columnar_err, acol list) res" where
  "take_cols K [] idx = Ok []"
| "take_cols K (c # cs) idx =
     (case kn_take K c idx of
        None \<Rightarrow> Err TakeFailed
      | Some t \<Rightarrow> res_bind (take_cols K cs idx) (\<lambda>ts. Ok (t # ts)))"

text \<open>The split of the collapsed record by its operation column.\<close>

definition split_ops :: "kernels \<Rightarrow> record_batch \<Rightarrow> nat \<Rightarrow> (columnar_err, record_batch \<times> record_batch) res" where
  "split_ops K collapsed opIdx =
     (let opArr = rb_cols collapsed ! opIdx in
      case uint8_col opArr of
        None \<Rightarrow> Err OpNotUint8
      | Some ops \<Rightarrow>
          (case kn_equal K opArr OpDelete of
             None \<Rightarrow> Err MaskFailed
           | Some delMask \<Rightarrow>
               (case kn_not K delMask of
                  None \<Rightarrow> Err MaskFailed
                | Some insUpd \<Rightarrow>
                    (case kn_filter K collapsed insUpd of
                       None \<Rightarrow> Err FilterFailed
                     | Some ups \<Rightarrow>
                         (case kn_filter K collapsed delMask of
                            None \<Rightarrow> Err FilterFailed
                          | Some dels \<Rightarrow> Ok (ups, dels))))))"

definition nonempty :: "record_batch \<Rightarrow> record_batch option" where
  "nonempty r = (if rb_rows r > 0 then Some r else None)"

definition Collapse :: "kernels \<Rightarrow> record_batch option \<Rightarrow> string list \<Rightarrow> (columnar_err, record_batch option \<times> record_batch option) res" where
  "Collapse K recopt pkCols =
     (case recopt of
        None \<Rightarrow> Ok (None, None)
      | Some rec \<Rightarrow>
          if rb_rows rec = 0 then Ok (None, None)
          else if pkCols = [] then Err NoKeyColumns
          else res_bind (resolve_idxs (rb_names rec) pkCols) (\<lambda>pkIdxs.
               res_bind (row_keys rec pkIdxs pkCols [0..<rb_rows rec]) (\<lambda>keys.
                 (let opIdx = colIndex (rb_names rec) ''__op'' in
                  if opIdx < 0 then Err OpMissing
                  else (case uint8_col (rb_cols rec ! nat opIdx) of
                          None \<Rightarrow> Err OpNotUint8
                        | Some ops \<Rightarrow>
                            if \<not> validateOpColumn ops then Err OpInvalid
                            else res_bind (take_cols K (rb_cols rec) (winners keys)) (\<lambda>cols.
                                 res_bind (split_ops K (rec\<lparr>rb_cols := cols, rb_rows := length (winners keys)\<rparr>) (nat opIdx))
                                   (\<lambda>(ups, dels). Ok (nonempty ups, nonempty dels))))))))"

section \<open>Splitting by owner\<close>

text \<open>The row indices of each owner; a row whose owner is out of range is in none.\<close>

fun bucket :: "nat \<Rightarrow> int list \<Rightarrow> nat list list \<Rightarrow> nat list list" where
  "bucket i [] bs = bs"
| "bucket i (ow # os) bs =
     bucket (Suc i) os (if ow < 0 \<or> ow \<ge> int (length bs) then bs else bs[nat ow := bs ! nat ow @ [i]])"

text \<open>\<open>compute.Take\<close> on a whole record is the parameter; a bucket that holds every row keeps the record.\<close>

fun split_from :: "(record_batch \<Rightarrow> nat list \<Rightarrow> record_batch option) \<Rightarrow> record_batch \<Rightarrow> nat list list \<Rightarrow>
                   (columnar_err, record_batch option list) res" where
  "split_from takeRec rec [] = Ok []"
| "split_from takeRec rec (b # bs) =
     (if b = [] then res_bind (split_from takeRec rec bs) (\<lambda>out. Ok (None # out))
      else if length b = rb_rows rec then res_bind (split_from takeRec rec bs) (\<lambda>out. Ok (Some rec # out))
      else (case takeRec rec b of
              None \<Rightarrow> Err TakeFailed
            | Some r \<Rightarrow> res_bind (split_from takeRec rec bs) (\<lambda>out. Ok (Some r # out))))"

definition SplitByOwner :: "(record_batch \<Rightarrow> nat list \<Rightarrow> record_batch option) \<Rightarrow> record_batch \<Rightarrow> int list \<Rightarrow> nat \<Rightarrow>
                            (columnar_err, record_batch option list) res" where
  "SplitByOwner takeRec rec ow nOwners = split_from takeRec rec (bucket 0 ow (replicate nOwners []))"

section \<open>The key is exact\<close>

lemma le_bytes_be: "le_bytes k n = rev (be_bytes k n)"
  by (rule nth_equalityI) (auto simp: le_bytes_def be_bytes_def rev_nth)

lemma length_le_bytes [simp]: "length (le_bytes k n) = k"
  by (simp add: le_bytes_def)

lemma le_bytes_inject:
  assumes "le_bytes k m = le_bytes k n" "m < 256 ^ k" "n < 256 ^ k"
  shows "m = n"
  using assms be_bytes_inject [of k m n] by (simp add: le_bytes_be)

lemma le_word_inject:
  fixes v w :: "'a :: len word"
  assumes "2 ^ LENGTH('a) \<le> (256 :: nat) ^ k"
  shows "le_bytes k (unat v) = le_bytes k (unat w) \<longleftrightarrow> v = w"
proof
  assume eq: "le_bytes k (unat v) = le_bytes k (unat w)"
  have "unat v < 256 ^ k" "unat w < 256 ^ k"
    using assms unsigned_less [of v, where 'a = nat] unsigned_less [of w, where 'a = nat] by linarith+
  then show "v = w" using le_bytes_inject [OF eq] by (simp add: word_eq_iff_unsigned [where ?'a = nat])
qed simp

text \<open>A value's Arrow type, with the width of a fixed-size binary.\<close>

fun aval_type :: "aval \<Rightarrow> nat \<times> nat" where
  "aval_type (VInt8 v) = (14, 0)"
| "aval_type (VInt16 v) = (15, 0)"
| "aval_type (VInt32 v) = (1, 0)"
| "aval_type (VInt64 v) = (2, 0)"
| "aval_type (VUint8 v) = (16, 0)"
| "aval_type (VUint16 v) = (17, 0)"
| "aval_type (VUint32 v) = (18, 0)"
| "aval_type (VUint64 v) = (3, 0)"
| "aval_type (VFloat32 v) = (4, 0)"
| "aval_type (VFloat64 v) = (5, 0)"
| "aval_type (VBool b) = (6, 0)"
| "aval_type (VString s) = (7, 0)"
| "aval_type (VDate32 v) = (9, 0)"
| "aval_type (VTime64 v) = (10, 0)"
| "aval_type (VTimestamp v) = (11, 0)"
| "aval_type (VDecimal128 lo hi) = (8, 0)"
| "aval_type (VBinary s) = (12, 0)"
| "aval_type (VFixedSizeBinary s) = (13, length s)"
| "aval_type (VOtherType n) = (0, n)"

fun short_val :: "aval \<Rightarrow> bool" where
  "short_val (VString s) \<longleftrightarrow> length s < 256 ^ 4"
| "short_val (VBinary s) \<longleftrightarrow> length s < 256 ^ 4"
| "short_val _ \<longleftrightarrow> True"

lemma prefixed_inject:
  assumes "length s < 256 ^ 4" "length t < 256 ^ 4" "prefixed s @ x = prefixed t @ y"
  shows "s = t \<and> x = y"
proof -
  have "le_bytes 4 (length s) @ s @ x = le_bytes 4 (length t) @ t @ y" using assms(3) by (simp add: prefixed_def)
  then have l: "le_bytes 4 (length s) = le_bytes 4 (length t)" and r: "s @ x = t @ y" by simp_all
  have "length s = length t" using le_bytes_inject [OF l] assms by simp
  with r show ?thesis by simp
qed

lemma encode_cell_prefix:
  assumes "aval_type a = aval_type b" "short_val a" "short_val b"
    "encode_cell a = Some ea" "encode_cell b = Some eb" "ea @ x = eb @ y"
  shows "a = b \<and> x = y"
proof (cases a)
  case (VString u)
  then obtain v where b: "b = VString v" using assms(1) by (cases b) simp_all
  then have "prefixed u @ x = prefixed v @ y" using VString assms(4-6) by (auto simp: tagged_def)
  then have "u = v \<and> x = y" using VString b assms(2,3) by (intro prefixed_inject) simp_all
  with VString b show ?thesis by simp
next
  case (VBinary u)
  then obtain v where b: "b = VBinary v" using assms(1) by (cases b) simp_all
  then have "prefixed u @ x = prefixed v @ y" using VBinary assms(4-6) by (auto simp: tagged_def)
  then have "u = v \<and> x = y" using VBinary b assms(2,3) by (intro prefixed_inject) simp_all
  with VBinary b show ?thesis by simp
qed (use assms(1,4-6) in \<open>cases b; auto simp: tagged_def le_word_inject split: if_splits\<close>)+

text \<open>A record's rows, and the values of a row's key.\<close>

definition rec_row :: "record_batch \<Rightarrow> nat \<Rightarrow> acell list" where
  "rec_row rec r = map (\<lambda>c. c ! r) (rb_cols rec)"

definition rec_rows :: "record_batch \<Rightarrow> acell list list" where
  "rec_rows rec = map (rec_row rec) [0..<rb_rows rec]"

definition opt_rows :: "record_batch option \<Rightarrow> acell list list" where
  "opt_rows r = (case r of None \<Rightarrow> [] | Some rec \<Rightarrow> rec_rows rec)"

definition field :: "record_batch \<Rightarrow> string \<Rightarrow> nat" where
  "field rec name = nat (colIndex (rb_names rec) name)"

definition row_key :: "record_batch \<Rightarrow> string list \<Rightarrow> acell list \<Rightarrow> aval list" where
  "row_key rec pk row = map (\<lambda>c. snd (row ! field rec c)) pk"

definition rec_ok :: "record_batch \<Rightarrow> bool" where
  "rec_ok rec \<longleftrightarrow> length (rb_names rec) = length (rb_cols rec)
     \<and> (\<forall>c\<in>set (rb_cols rec). length c = rb_rows rec \<and> (\<forall>x\<in>set c. \<forall>y\<in>set c. aval_type (snd x) = aval_type (snd y))
          \<and> (\<forall>x\<in>set c. short_val (snd x)))"

text \<open>What \<open>Collapse\<close> asks of a record: the key columns are there, not null and of a supported type, and
  the operations are known.\<close>

definition collapsible :: "record_batch \<Rightarrow> string list \<Rightarrow> bool" where
  "collapsible rec pk \<longleftrightarrow> pk \<noteq> [] \<and> set pk \<subseteq> set (rb_names rec) \<and> ''__op'' \<in> set (rb_names rec)
     \<and> (\<forall>c\<in>set pk. \<forall>x\<in>set (rb_cols rec ! field rec c). fst x \<and> encode_cell (snd x) \<noteq> None)
     \<and> (\<forall>x\<in>set (rb_cols rec ! field rec ''__op''). fst x \<and> snd x \<in> {VUint8 OpInsert, VUint8 OpUpdate, VUint8 OpDelete})"

lemma col_from_found: "name \<in> set fs \<Longrightarrow> int i \<le> col_from i fs name \<and> col_from i fs name < int (i + length fs)"
proof (induction fs arbitrary: i)
  case (Cons f fs)
  then show ?case using Cons.IH [of "Suc i"] by auto
qed simp

lemma colIndex_found: "name \<in> set (rb_names rec) \<Longrightarrow> rec_ok rec \<Longrightarrow>
    0 \<le> colIndex (rb_names rec) name \<and> field rec name < length (rb_cols rec) \<and> int (field rec name) = colIndex (rb_names rec) name"
  using col_from_found [of name "rb_names rec" 0] by (auto simp: colIndex_def field_def rec_ok_def)

lemma resolve_idxs_found:
  "rec_ok rec \<Longrightarrow> set pk \<subseteq> set (rb_names rec) \<Longrightarrow> resolve_idxs (rb_names rec) pk = Ok (map (colIndex (rb_names rec)) pk)"
  by (induction pk) (auto simp: not_less dest: colIndex_found)

text \<open>The bytes of a row's key: its cells' encodings one after the other.\<close>

definition key_bytes :: "aval list \<Rightarrow> string" where
  "key_bytes vs = concat (map (\<lambda>v. the (encode_cell v)) vs)"

lemma encode_key_from_ok:
  assumes "rec_ok rec" "set pk \<subseteq> set (rb_names rec)" "r < rb_rows rec"
    "\<forall>c\<in>set pk. \<forall>x\<in>set (rb_cols rec ! field rec c). fst x \<and> encode_cell (snd x) \<noteq> None"
  shows "encode_key_from rec r (pre @ map (colIndex (rb_names rec)) pk) (length pre) pk buf
       = Ok (buf @ key_bytes (row_key rec pk (rec_row rec r)))"
  using assms(2,4)
proof (induction pk arbitrary: pre buf)
  case (Cons c pk)
  let ?i = "colIndex (rb_names rec) c" and ?arr = "rb_cols rec ! field rec c"
  have f: "0 \<le> ?i" "field rec c < length (rb_cols rec)" "int (field rec c) = ?i"
    using colIndex_found [OF _ assms(1), of c] Cons.prems by auto
  have len: "length ?arr = rb_rows rec" using assms(1) f(2) by (simp add: rec_ok_def)
  have mem: "?arr ! r \<in> set ?arr" using len assms(3) by simp
  obtain enc where enc: "fst (?arr ! r)" "encode_cell (snd (?arr ! r)) = Some enc" using Cons.prems(2) mem by fastforce
  have row: "row_key rec (c # pk) (rec_row rec r) = snd (?arr ! r) # row_key rec pk (rec_row rec r)"
    using f(2) by (simp add: row_key_def rec_row_def)
  have "nat ?i = field rec c" by (simp add: field_def)
  then have "encode_key_from rec r (pre @ ?i # map (colIndex (rb_names rec)) pk) (length pre) (c # pk) buf
      = encode_key_from rec r ((pre @ [?i]) @ map (colIndex (rb_names rec)) pk) (length (pre @ [?i])) pk (buf @ enc)"
    using f len assms(3) enc by (simp add: IsNull_def Value_def Let_def not_le)
  also have "\<dots> = Ok ((buf @ enc) @ key_bytes (row_key rec pk (rec_row rec r)))"
    using Cons.prems by (intro Cons.IH) simp_all
  finally show ?case using enc(2) by (simp add: row key_bytes_def)
qed (simp add: row_key_def key_bytes_def)

lemma row_keys_ok:
  assumes "rec_ok rec" "collapsible rec pk" "\<forall>r\<in>set rs. r < rb_rows rec"
  shows "row_keys rec (map (colIndex (rb_names rec)) pk) pk rs = Ok (map (\<lambda>r. key_bytes (row_key rec pk (rec_row rec r))) rs)"
proof -
  have "columnar_EncodeKey rec r (map (colIndex (rb_names rec)) pk) pk = Ok (key_bytes (row_key rec pk (rec_row rec r)))"
    if "r < rb_rows rec" for r
    using encode_key_from_ok [OF assms(1) _ that, of pk "[]" "[]"] assms(2) by (simp add: collapsible_def columnar_EncodeKey_def)
  with assms(3) show ?thesis by (induction rs) auto
qed

lemma key_bytes_inject:
  assumes "list_all2 (\<lambda>a b. aval_type a = aval_type b \<and> short_val a \<and> short_val b \<and> encode_cell a \<noteq> None \<and> encode_cell b \<noteq> None) as bs"
  shows "key_bytes as = key_bytes bs \<longleftrightarrow> as = bs"
proof
  assume "key_bytes as = key_bytes bs"
  with assms show "as = bs"
  proof (induction rule: list_all2_induct)
    case (Cons a as b bs)
    then obtain ea eb where e: "encode_cell a = Some ea" "encode_cell b = Some eb" by auto
    then have "ea @ key_bytes as = eb @ key_bytes bs" using Cons.prems by (simp add: key_bytes_def)
    then have "a = b \<and> key_bytes as = key_bytes bs" using encode_cell_prefix [of a b ea eb] Cons e by blast
    with Cons.IH show ?case by simp
  qed simp
qed simp

lemma rec_okD:
  assumes "rec_ok rec" "c \<in> set (rb_cols rec)"
  shows "length c = rb_rows rec" "\<And>x y. x \<in> set c \<Longrightarrow> y \<in> set c \<Longrightarrow> aval_type (snd x) = aval_type (snd y)"
    "\<And>x. x \<in> set c \<Longrightarrow> short_val (snd x)"
  using assms unfolding rec_ok_def by blast+

lemma key_field: "rec_ok rec \<Longrightarrow> collapsible rec pk \<Longrightarrow> n \<in> set pk \<Longrightarrow> field rec n < length (rb_cols rec)"
  using colIndex_found [of n rec] unfolding collapsible_def by blast

lemma key_cell:
  assumes "rec_ok rec" "collapsible rec pk" "n \<in> set pk" "r < rb_rows rec"
  shows "rb_cols rec ! field rec n ! r \<in> set (rb_cols rec ! field rec n)"
    "fst (rb_cols rec ! field rec n ! r)" "encode_cell (snd (rb_cols rec ! field rec n ! r)) \<noteq> None"
proof -
  let ?c = "rb_cols rec ! field rec n"
  have "?c \<in> set (rb_cols rec)" using key_field [OF assms(1-3)] by simp
  then show mem: "?c ! r \<in> set ?c" using rec_okD(1) [OF assms(1)] assms(4) by simp
  show "fst (?c ! r)" "encode_cell (snd (?c ! r)) \<noteq> None" using assms(2,3) mem unfolding collapsible_def by blast+
qed

lemma row_key_cells:
  assumes "rec_ok rec" "collapsible rec pk"
  shows "row_key rec pk (rec_row rec r) = map (\<lambda>n. snd (rb_cols rec ! field rec n ! r)) pk"
  using key_field [OF assms] by (simp add: row_key_def rec_row_def)

lemma row_keys_exact:
  assumes "rec_ok rec" "collapsible rec pk" "r < rb_rows rec" "q < rb_rows rec"
  shows "key_bytes (row_key rec pk (rec_row rec r)) = key_bytes (row_key rec pk (rec_row rec q))
     \<longleftrightarrow> row_key rec pk (rec_row rec r) = row_key rec pk (rec_row rec q)"
proof (rule key_bytes_inject)
  let ?P = "\<lambda>a b. aval_type a = aval_type b \<and> short_val a \<and> short_val b \<and> encode_cell a \<noteq> None \<and> encode_cell b \<noteq> None"
  have "?P (snd (rb_cols rec ! field rec n ! r)) (snd (rb_cols rec ! field rec n ! q))" if n: "n \<in> set pk" for n
  proof -
    have c: "rb_cols rec ! field rec n \<in> set (rb_cols rec)" using key_field [OF assms(1,2) n] by simp
    note m = key_cell [OF assms(1,2) n assms(3)] key_cell [OF assms(1,2) n assms(4)]
    show ?thesis using rec_okD(2,3) [OF assms(1) c] m by blast
  qed
  then show "list_all2 ?P (row_key rec pk (rec_row rec r)) (row_key rec pk (rec_row rec q))"
    unfolding row_key_cells [OF assms(1,2)] list_all2_map1 list_all2_map2 by (simp add: list_all2_same)
qed

section \<open>Collapsing is replaying\<close>

definition last_at :: "'k list \<Rightarrow> nat \<Rightarrow> bool" where
  "last_at ks i \<longleftrightarrow> i < length ks \<and> (\<forall>j. i < j \<and> j < length ks \<longrightarrow> ks ! j \<noteq> ks ! i)"

lemma last_at_snoc: "last_at (ks @ [k]) i \<longleftrightarrow> i = length ks \<or> (last_at ks i \<and> ks ! i \<noteq> k)"
proof (cases "i < length ks")
  case True
  have "(\<forall>j. i < j \<and> j < Suc (length ks) \<longrightarrow> (ks @ [k]) ! j \<noteq> ks ! i)
      \<longleftrightarrow> (\<forall>j. i < j \<and> j < length ks \<longrightarrow> ks ! j \<noteq> ks ! i) \<and> ks ! i \<noteq> k"
    using True by (auto simp: nth_append less_Suc_eq)
  with True show ?thesis by (auto simp: last_at_def nth_append)
qed (auto simp: last_at_def nth_append)

definition grouped :: "string list \<Rightarrow> (string, nat) gomap \<Rightarrow> string list \<Rightarrow> bool" where
  "grouped seen groups order \<longleftrightarrow> distinct order \<and> set order = set seen \<and> dom (map_of groups) = set seen
     \<and> (\<forall>k i. map_of groups k = Some i \<longrightarrow> last_at seen i \<and> seen ! i = k)"

lemma grouped_step:
  assumes "grouped seen groups order"
  shows "grouped (seen @ [k]) (gm_put k (length seen) groups) (if gm_has groups k then order else order @ [k])"
proof -
  have has: "gm_has groups k \<longleftrightarrow> k \<in> set seen" using assms by (auto simp: grouped_def gm_has_def dom_def)
  have "last_at (seen @ [k]) i \<and> (seen @ [k]) ! i = k'" if "map_of (gm_put k (length seen) groups) k' = Some i" for k' i
  proof (cases "k' = k")
    case True
    with that show ?thesis by (auto simp: last_at_snoc)
  next
    case False
    then have "last_at seen i" "seen ! i = k'" using that assms by (auto simp: grouped_def)
    with False show ?thesis by (simp add: last_at_snoc) (simp add: last_at_def nth_append)
  qed
  with assms has show ?thesis by (auto simp: grouped_def)
qed

lemma group_rows_spec:
  "grouped seen groups order \<Longrightarrow> group_rows (length seen) ks groups order = (groups', order') \<Longrightarrow> grouped (seen @ ks) groups' order'"
proof (induction ks arbitrary: seen groups order)
  case (Cons k ks)
  from Cons.IH [OF grouped_step [OF Cons.prems(1), of k]] Cons.prems(2) show ?case by simp
qed simp

lemma winners_spec:
  shows "distinct (map (nth keys) (winners keys))" "set (map (nth keys) (winners keys)) = set keys"
    "\<And>w. w \<in> set (winners keys) \<Longrightarrow> last_at keys w"
proof -
  obtain groups order where run: "group_rows 0 keys [] [] = (groups, order)" by fastforce
  have g: "grouped keys groups order" using group_rows_spec [of "[]" "[]" "[]" keys] run by (simp add: grouped_def)
  have w: "winners keys = map (gm_at 0 groups) order" by (simp add: winners_def run)
  have at: "last_at keys (gm_at 0 groups k) \<and> keys ! gm_at 0 groups k = k" if k: "k \<in> set order" for k
  proof -
    have "k \<in> dom (map_of groups)" using g k by (simp add: grouped_def)
    then obtain i where "map_of groups k = Some i" by auto
    with g show ?thesis by (simp add: grouped_def gm_at_def)
  qed
  then have "map (nth keys) (winners keys) = order" unfolding w by (simp add: map_idI)
  with g show "distinct (map (nth keys) (winners keys))" "set (map (nth keys) (winners keys)) = set keys"
    unfolding grouped_def by simp_all
  show "last_at keys v" if "v \<in> set (winners keys)" for v using that at unfolding w by auto
qed

text \<open>Writing a change to a table keyed by \<open>key\<close>, and a list of changes in order.\<close>

definition write_row :: "('r \<Rightarrow> 'k) \<Rightarrow> ('r \<Rightarrow> bool) \<Rightarrow> 'r \<Rightarrow> ('k \<Rightarrow> 'r option) \<Rightarrow> 'k \<Rightarrow> 'r option" where
  "write_row key del r tbl = tbl(key r := (if del r then None else Some r))"

definition replay :: "('r \<Rightarrow> 'k) \<Rightarrow> ('r \<Rightarrow> bool) \<Rightarrow> 'r list \<Rightarrow> ('k \<Rightarrow> 'r option) \<Rightarrow> 'k \<Rightarrow> 'r option" where
  "replay key del rs tbl = fold (write_row key del) rs tbl"

lemma replay_other: "k \<notin> key ` set rs \<Longrightarrow> replay key del rs tbl k = tbl k"
  by (induction rs arbitrary: tbl) (auto simp: replay_def write_row_def)

lemma replay_last:
  "last_at (map key rs) i \<Longrightarrow> replay key del rs tbl (key (rs ! i)) = (if del (rs ! i) then None else Some (rs ! i))"
proof (induction rs rule: rev_induct)
  case (snoc r rs)
  have i: "i = length rs \<or> (last_at (map key rs) i \<and> key (rs ! i) \<noteq> key r)"
    using snoc.prems last_at_snoc [of "map key rs" "key r" i] by (auto simp: last_at_def)
  show ?case
  proof (cases "i = length rs")
    case False
    with i have "last_at (map key rs) i" "key (rs ! i) \<noteq> key r" "i < length rs" by (auto simp: last_at_def)
    with snoc.IH show ?thesis by (simp add: replay_def write_row_def nth_append)
  qed (simp add: replay_def write_row_def)
qed (simp add: last_at_def)

lemma replay_distinct:
  assumes "distinct (map key rs)" "r \<in> set rs"
  shows "replay key del rs tbl (key r) = (if del r then None else Some r)"
proof -
  obtain i where i: "i < length rs" "rs ! i = r" using assms(2) by (auto simp: in_set_conv_nth)
  have "last_at (map key rs) i" using assms(1) i(1) by (auto simp: last_at_def distinct_conv_nth)
  from replay_last [OF this] i show ?thesis by simp
qed

text \<open>One change per key, the last, with the deletions first: the same table.\<close>

lemma replay_winners:
  assumes "distinct (map key ws)" "key ` set ws = key ` set rs"
    and last: "\<And>w. w \<in> set ws \<Longrightarrow> \<exists>i. last_at (map key rs) i \<and> rs ! i = w"
  shows "replay key del (filter (\<lambda>r. \<not> del r) ws) (replay key del (filter del ws) tbl) = replay key del rs tbl"
proof
  fix k
  have d: "distinct (map key (filter P ws))" for P using assms(1) by (simp add: distinct_map_filter)
  show "replay key del (filter (\<lambda>r. \<not> del r) ws) (replay key del (filter del ws) tbl) k = replay key del rs tbl k"
  proof (cases "k \<in> key ` set ws")
    case True
    then obtain w where w: "w \<in> set ws" "key w = k" by auto
    then obtain i where i: "last_at (map key rs) i" "rs ! i = w" using last by blast
    have whole: "replay key del rs tbl k = (if del w then None else Some w)" using replay_last [OF i(1)] i(2) w(2) by simp
    have uniq: "v = w" if "v \<in> set ws" "key v = k" for v using that w assms(1) by (auto simp: distinct_map inj_on_def)
    show ?thesis
    proof (cases "del w")
      case True
      then have "k \<notin> key ` set (filter (\<lambda>r. \<not> del r) ws)" using uniq by auto
      moreover have "replay key del (filter del ws) tbl k = None"
        using replay_distinct [OF d, of w del del] True w by simp
      ultimately show ?thesis using whole True by (simp add: replay_other)
    next
      case False
      then show ?thesis using replay_distinct [OF d, of w "\<lambda>r. \<not> del r" del] w whole by simp
    qed
  next
    case False
    then have "k \<notin> key ` set (filter P ws)" for P by auto
    moreover have "k \<notin> key ` set rs" using False assms(2) by simp
    ultimately show ?thesis by (simp add: replay_other)
  qed
qed

section \<open>The kernels\<close>

text \<open>The rows \<open>idx\<close> of a record, and Arrow's kernels as documented: \<open>take\<close> gathers, \<open>equal\<close> compares
  valid cells, \<open>not\<close> negates, \<open>filter\<close> keeps the rows whose mask is set.\<close>

definition select_rows :: "record_batch \<Rightarrow> nat list \<Rightarrow> record_batch" where
  "select_rows rec idx = rec\<lparr>rb_cols := map (\<lambda>c. map (nth c) idx) (rb_cols rec), rb_rows := length idx\<rparr>"

definition set_rows :: "bool list \<Rightarrow> nat list" where
  "set_rows keep = filter (nth keep) [0..<length keep]"

definition kernels_ok :: "kernels \<Rightarrow> bool" where
  "kernels_ok K \<longleftrightarrow>
     (\<forall>c idx. (\<forall>i\<in>set idx. i < length c) \<longrightarrow> kn_take K c idx = Some (map (nth c) idx))
   \<and> (\<forall>c v. (\<forall>x\<in>set c. fst x) \<and> uint8_col c \<noteq> None \<longrightarrow> kn_equal K c v = Some (map (\<lambda>x. snd x = VUint8 v) c))
   \<and> (\<forall>keep. kn_not K keep = Some (map Not keep))
   \<and> (\<forall>rec keep. rec_ok rec \<and> length keep = rb_rows rec \<longrightarrow> kn_filter K rec keep = Some (select_rows rec (set_rows keep)))"

lemma select_rows_ok: "rec_ok rec \<Longrightarrow> \<forall>i\<in>set idx. i < rb_rows rec \<Longrightarrow> rec_ok (select_rows rec idx)"
  unfolding rec_ok_def select_rows_def by (auto 0 3 dest: nth_mem)

lemma rec_rows_select: "rec_rows (select_rows rec idx) = map (rec_row rec) idx"
  by (rule nth_equalityI) (auto simp: rec_rows_def rec_row_def select_rows_def)

lemma take_cols_ok:
  assumes "kernels_ok K" "\<forall>c\<in>set cols. \<forall>i\<in>set idx. i < length c"
  shows "take_cols K cols idx = Ok (map (\<lambda>c. map (nth c) idx) cols)"
  using assms(2)
proof (induction cols)
  case (Cons c cols)
  have "kn_take K c idx = Some (map (nth c) idx)" using assms(1) Cons.prems unfolding kernels_ok_def by simp
  with Cons show ?case by simp
qed simp

lemma rec_rows_mask:
  assumes "rb_rows rec = n"
  shows "map (rec_row rec) (set_rows (map (\<lambda>r. P (rec_row rec r)) [0..<n])) = filter P (rec_rows rec)"
proof -
  have "set_rows (map (\<lambda>r. P (rec_row rec r)) [0..<n]) = filter (\<lambda>r. P (rec_row rec r)) [0..<n]"
    unfolding set_rows_def by (rule filter_cong) simp_all
  with assms show ?thesis by (simp add: rec_rows_def filter_map comp_def)
qed

definition is_delete :: "record_batch \<Rightarrow> acell list \<Rightarrow> bool" where
  "is_delete rec row \<longleftrightarrow> snd (row ! field rec ''__op'') = VUint8 OpDelete"

lemma opt_rows_nonempty: "opt_rows (nonempty r) = rec_rows r"
  by (simp add: opt_rows_def nonempty_def rec_rows_def)

lemma uint8_col_ops:
  assumes "\<forall>x\<in>set c. snd x \<in> {VUint8 OpInsert, VUint8 OpUpdate, VUint8 OpDelete}"
  shows "\<exists>ops. uint8_col c = Some ops \<and> validateOpColumn ops"
  using assms
proof (induction c)
  case (Cons x c)
  then obtain ops where "uint8_col c = Some ops" "validateOpColumn ops" by auto
  with Cons.prems show ?case by (auto simp: uint8_col_def)
qed (simp add: uint8_col_def)

lemma split_ops_rows:
  assumes "kernels_ok K" "rec_ok rec" "field rec ''__op'' < length (rb_cols rec)"
    "\<forall>x\<in>set (rb_cols rec ! field rec ''__op''). fst x \<and> snd x \<in> {VUint8 OpInsert, VUint8 OpUpdate, VUint8 OpDelete}"
  obtains ups dels where "split_ops K rec (field rec ''__op'') = Ok (ups, dels)"
    "rec_rows ups = filter (\<lambda>r. \<not> is_delete rec r) (rec_rows rec)" "rec_rows dels = filter (is_delete rec) (rec_rows rec)"
proof -
  let ?op = "rb_cols rec ! field rec ''__op''" and ?n = "rb_rows rec"
  have len: "length ?op = ?n" using rec_okD(1) [OF assms(2)] assms(3) by simp
  obtain ops where ops: "uint8_col ?op = Some ops" using uint8_col_ops assms(4) by blast
  have eq: "kn_equal K ?op OpDelete = Some (map (\<lambda>x. snd x = VUint8 OpDelete) ?op)"
    using assms(1,4) ops unfolding kernels_ok_def by simp
  have m: "map (\<lambda>x. snd x = VUint8 OpDelete) ?op = map (\<lambda>r. is_delete rec (rec_row rec r)) [0..<?n]"
    using len assms(3) by (intro nth_equalityI) (simp_all add: is_delete_def rec_row_def)
  have fl: "kn_filter K rec (map (\<lambda>r. P (rec_row rec r)) [0..<?n]) = Some (select_rows rec (set_rows (map (\<lambda>r. P (rec_row rec r)) [0..<?n])))"
    for P using assms(1,2) unfolding kernels_ok_def by simp
  have nt: "kn_not K (map (\<lambda>r. is_delete rec (rec_row rec r)) [0..<?n]) = Some (map (\<lambda>r. \<not> is_delete rec (rec_row rec r)) [0..<?n])"
    using assms(1) unfolding kernels_ok_def by (simp add: comp_def)
  show ?thesis
  proof
    show "split_ops K rec (field rec ''__op'') =
        Ok (select_rows rec (set_rows (map (\<lambda>r. \<not> is_delete rec (rec_row rec r)) [0..<?n])),
            select_rows rec (set_rows (map (\<lambda>r. is_delete rec (rec_row rec r)) [0..<?n])))"
      unfolding split_ops_def Let_def ops eq m by (simp add: nt fl [of "is_delete rec"] fl [of "\<lambda>r. \<not> is_delete rec r"])
  qed (simp_all add: rec_rows_select rec_rows_mask [of rec ?n "is_delete rec"] rec_rows_mask [of rec ?n "\<lambda>r. \<not> is_delete rec r"])
qed

lemma Collapse_rows:
  assumes "kernels_ok K" "rec_ok rec" "collapsible rec pk" "rb_rows rec > 0"
  obtains ups dels ws where "Collapse K (Some rec) pk = Ok (ups, dels)"
    "ws = map (rec_row rec) (winners (map (\<lambda>r. key_bytes (row_key rec pk (rec_row rec r))) [0..<rb_rows rec]))"
    "opt_rows ups = filter (\<lambda>r. \<not> is_delete rec r) ws" "opt_rows dels = filter (is_delete rec) ws"
proof -
  define keys where "keys = map (\<lambda>r. key_bytes (row_key rec pk (rec_row rec r))) [0..<rb_rows rec]"
  let ?w = "winners keys" and ?op = "field rec ''__op''"
  let ?col = "select_rows rec ?w"
  have op: "0 \<le> colIndex (rb_names rec) ''__op''" "?op < length (rb_cols rec)"
    using colIndex_found [OF _ assms(2), of "''__op''"] assms(3) by (auto simp: collapsible_def)
  have nat_op: "nat (colIndex (rb_names rec) ''__op'') = ?op" by (simp add: field_def)
  have cells: "\<forall>x\<in>set (rb_cols rec ! ?op). fst x \<and> snd x \<in> {VUint8 OpInsert, VUint8 OpUpdate, VUint8 OpDelete}"
    using assms(3) by (simp add: collapsible_def)
  have w: "\<forall>i\<in>set ?w. i < rb_rows rec" using winners_spec(3) [of _ keys] by (auto simp: last_at_def keys_def)
  obtain ops where ops: "uint8_col (rb_cols rec ! ?op) = Some ops" "validateOpColumn ops" using uint8_col_ops cells by blast
  have idxs: "resolve_idxs (rb_names rec) pk = Ok (map (colIndex (rb_names rec)) pk)"
    using resolve_idxs_found [OF assms(2)] assms(3) by (simp add: collapsible_def)
  have ks: "row_keys rec (map (colIndex (rb_names rec)) pk) pk [0..<rb_rows rec] = Ok keys"
    unfolding keys_def by (rule row_keys_ok [OF assms(2,3)]) simp
  have cols: "take_cols K (rb_cols rec) ?w = Ok (map (\<lambda>c. map (nth c) ?w) (rb_cols rec))"
    using w rec_okD(1) [OF assms(2)] by (intro take_cols_ok [OF assms(1)]) simp
  have fop: "field ?col ''__op'' = ?op" "is_delete ?col = is_delete rec"
    by (simp_all add: field_def select_rows_def is_delete_def fun_eq_iff)
  have len: "field ?col ''__op'' < length (rb_cols ?col)" using op(2) by (simp add: select_rows_def field_def)
  have "rb_cols ?col ! ?op = map (nth (rb_cols rec ! ?op)) ?w" using op(2) by (simp add: select_rows_def)
  moreover have "\<forall>i\<in>set ?w. rb_cols rec ! ?op ! i \<in> set (rb_cols rec ! ?op)"
    using w op(2) rec_okD(1) [OF assms(2), of "rb_cols rec ! ?op"] by simp
  ultimately have "\<forall>x\<in>set (rb_cols ?col ! field ?col ''__op''). fst x \<and> snd x \<in> {VUint8 OpInsert, VUint8 OpUpdate, VUint8 OpDelete}"
    using cells unfolding fop by auto
  from split_ops_rows [OF assms(1) select_rows_ok [OF assms(2) w] len this] obtain ups dels
    where sp: "split_ops K ?col ?op = Ok (ups, dels)"
      "rec_rows ups = filter (\<lambda>r. \<not> is_delete rec r) (rec_rows ?col)" "rec_rows dels = filter (is_delete rec) (rec_rows ?col)"
    unfolding fop .
  show ?thesis
  proof (rule that [of "nonempty ups" "nonempty dels"])
    show "Collapse K (Some rec) pk = Ok (nonempty ups, nonempty dels)"
      using assms(3,4) op(1) sp(1)
      by (simp add: Collapse_def idxs ks nat_op ops cols select_rows_def [symmetric] collapsible_def Let_def)
  qed (simp_all add: opt_rows_nonempty sp(2,3) rec_rows_select keys_def)
qed

section \<open>Properties\<close>

text \<open>
  C2: collapsing a batch loses nothing a table can see. For a well-formed batch with a key, \<open>Collapse\<close>
  succeeds, and writing its deletions and then its upserts leaves any table, keyed by the batch's primary
  key, exactly as writing every change of the batch in order does.
\<close>

theorem Collapse_equals_replay:
  assumes "kernels_ok K" "rec_ok rec" "collapsible rec pk" "rb_rows rec > 0"
  shows "\<exists>ups dels. Collapse K (Some rec) pk = Ok (ups, dels) \<and>
     replay (row_key rec pk) (is_delete rec) (opt_rows ups) (replay (row_key rec pk) (is_delete rec) (opt_rows dels) tbl)
   = replay (row_key rec pk) (is_delete rec) (rec_rows rec) tbl"
proof -
  let ?key = "row_key rec pk" and ?n = "rb_rows rec"
  let ?keys = "map (\<lambda>r. key_bytes (?key (rec_row rec r))) [0..<?n]"
  obtain ups dels ws where run: "Collapse K (Some rec) pk = Ok (ups, dels)" "ws = map (rec_row rec) (winners ?keys)"
    "opt_rows ups = filter (\<lambda>r. \<not> is_delete rec r) ws" "opt_rows dels = filter (is_delete rec) ws"
    using Collapse_rows [OF assms] .
  have w: "i < ?n" if "i \<in> set (winners ?keys)" for i using winners_spec(3) [OF that] by (simp add: last_at_def)
  then have nths: "map (nth ?keys) (winners ?keys) = map key_bytes (map ?key ws)" by (simp add: run(2))
  have "distinct (map ?key ws)" using winners_spec(1) [of ?keys] unfolding nths by (auto simp: distinct_map dest: inj_on_imageI2)
  moreover have "?key ` set ws = ?key ` set (rec_rows rec)"
  proof
    show "?key ` set ws \<subseteq> ?key ` set (rec_rows rec)" using w by (auto simp: run(2) rec_rows_def)
    show "?key ` set (rec_rows rec) \<subseteq> ?key ` set ws"
    proof
      fix k assume "k \<in> ?key ` set (rec_rows rec)"
      then obtain r where r: "r < ?n" "k = ?key (rec_row rec r)" by (auto simp: rec_rows_def)
      then have "key_bytes k \<in> set (map (nth ?keys) (winners ?keys))" unfolding winners_spec(2) by auto
      then obtain i where i: "i \<in> set (winners ?keys)" "key_bytes k = key_bytes (?key (rec_row rec i))"
        unfolding nths by (auto simp: run(2))
      then have "k = ?key (rec_row rec i)" using row_keys_exact [OF assms(2,3) r(1) w [OF i(1)]] r(2) by simp
      with i(1) show "k \<in> ?key ` set ws" by (auto simp: run(2))
    qed
  qed
  moreover have "\<exists>i. last_at (map ?key (rec_rows rec)) i \<and> rec_rows rec ! i = r" if r: "r \<in> set ws" for r
  proof -
    obtain i where i: "i \<in> set (winners ?keys)" "r = rec_row rec i" using r by (auto simp: run(2))
    have "?key (rec_row rec j) \<noteq> ?key (rec_row rec i)" if "i < j" "j < ?n" for j
      using winners_spec(3) [OF i(1)] that by (fastforce simp: last_at_def)
    then have "last_at (map ?key (rec_rows rec)) i" using w [OF i(1)] by (simp add: last_at_def rec_rows_def)
    with i(2) w [OF i(1)] show ?thesis by (auto simp: rec_rows_def)
  qed
  ultimately show ?thesis using replay_winners [of ?key ws "rec_rows rec" "is_delete rec" tbl] run by simp
qed

definition plain_kernels :: kernels where
  "plain_kernels = \<lparr>kn_take = (\<lambda>c idx. Some (map (nth c) idx)), kn_equal = (\<lambda>c v. Some (map (\<lambda>x. snd x = VUint8 v) c)),
     kn_not = (\<lambda>keep. Some (map Not keep)), kn_filter = (\<lambda>rec keep. Some (select_rows rec (set_rows keep)))\<rparr>"

text \<open>Row 1 inserted, row 2 inserted, row 1 deleted.\<close>

definition three_changes :: record_batch where
  "three_changes = \<lparr>rb_names = [''id'', ''__op''],
     rb_cols = [[(True, VInt32 1), (True, VInt32 2), (True, VInt32 1)], [(True, VUint8 0), (True, VUint8 0), (True, VUint8 2)]],
     rb_rows = 3\<rparr>"

theorem Collapse_equals_replay_witness:
  "kernels_ok plain_kernels \<and> (\<exists>ups dels. Collapse plain_kernels (Some three_changes) [''id''] = Ok (ups, dels) \<and>
     replay (row_key three_changes [''id'']) (is_delete three_changes) (opt_rows ups)
       (replay (row_key three_changes [''id'']) (is_delete three_changes) (opt_rows dels) (\<lambda>k. None))
   = replay (row_key three_changes [''id'']) (is_delete three_changes) (rec_rows three_changes) (\<lambda>k. None))"
proof
  show K: "kernels_ok plain_kernels" by (simp add: kernels_ok_def plain_kernels_def)
  have "rec_ok three_changes" by (simp add: rec_ok_def three_changes_def)
  moreover have "collapsible three_changes [''id'']"
    by (simp add: collapsible_def three_changes_def field_def colIndex_def OpInsert_def OpUpdate_def OpDelete_def)
  moreover have "rb_rows three_changes > 0" by (simp add: three_changes_def)
  ultimately show "\<exists>ups dels. Collapse plain_kernels (Some three_changes) [''id''] = Ok (ups, dels) \<and>
     replay (row_key three_changes [''id'']) (is_delete three_changes) (opt_rows ups)
       (replay (row_key three_changes [''id'']) (is_delete three_changes) (opt_rows dels) (\<lambda>k. None))
   = replay (row_key three_changes [''id'']) (is_delete three_changes) (rec_rows three_changes) (\<lambda>k. None)"
    by (rule Collapse_equals_replay [OF K])
qed

lemma bucket_spec:
  assumes "p < length bs"
  shows "length (bucket i ow bs) = length bs \<and>
    bucket i ow bs ! p = bs ! p @ filter (\<lambda>j. ow ! (j - i) = int p) [i..<i + length ow]"
  using assms
proof (induction ow arbitrary: i bs)
  case (Cons x ow)
  let ?bs = "if x < 0 \<or> x \<ge> int (length bs) then bs else bs[nat x := bs ! nat x @ [i]]"
  have len: "length ?bs = length bs" by simp
  have here: "?bs ! p = bs ! p @ (if x = int p then [i] else [])" using Cons.prems by (auto simp: nth_list_update)
  have tail: "filter (\<lambda>j. (x # ow) ! (j - i) = int p) [Suc i..<Suc i + length ow] = filter (\<lambda>j. ow ! (j - Suc i) = int p) [Suc i..<Suc i + length ow]"
    by (rule filter_cong) (auto simp: nth_Cons')
  have "[i..<i + length (x # ow)] = i # [Suc i..<Suc i + length ow]" by (simp add: upt_rec)
  then have split: "filter (\<lambda>j. (x # ow) ! (j - i) = int p) [i..<i + length (x # ow)]
      = (if x = int p then [i] else []) @ filter (\<lambda>j. ow ! (j - Suc i) = int p) [Suc i..<Suc i + length ow]"
    using tail by (auto simp del: upt_Suc)
  have "bucket i (x # ow) bs = bucket (Suc i) ow ?bs" by simp
  then show ?case using Cons.IH [of ?bs "Suc i"] Cons.prems len here unfolding split by (simp del: upt_Suc)
qed simp

lemma split_from_spec:
  assumes "\<And>b. b \<in> set bs \<Longrightarrow> b \<noteq> [] \<Longrightarrow> length b \<noteq> rb_rows rec \<Longrightarrow> takeRec rec b = Some (select_rows rec b)"
    and "\<And>b. b \<in> set bs \<Longrightarrow> length b = rb_rows rec \<Longrightarrow> b = [0..<rb_rows rec]"
  shows "\<exists>out. split_from takeRec rec bs = Ok out \<and> list_all2 (\<lambda>b r. opt_rows r = map (rec_row rec) b \<and> (r = None \<longleftrightarrow> b = [])) bs out"
  using assms
proof (induction bs)
  case (Cons b bs)
  then obtain out where out: "split_from takeRec rec bs = Ok out"
    "list_all2 (\<lambda>b r. opt_rows r = map (rec_row rec) b \<and> (r = None \<longleftrightarrow> b = [])) bs out" by fastforce
  consider "b = []" | "b \<noteq> []" "length b = rb_rows rec" | "b \<noteq> []" "length b \<noteq> rb_rows rec" by blast
  then show ?case
  proof cases
    case 2
    then have "b = [0..<rb_rows rec]" using Cons.prems(2) by simp
    with 2 out show ?thesis by (simp add: opt_rows_def rec_rows_def)
  next
    case 3
    with Cons.prems(1) [of b] out show ?thesis by (simp add: opt_rows_def rec_rows_select)
  qed (use out in \<open>simp add: opt_rows_def\<close>)
qed simp

text \<open>
  C21: splitting a batch by owner hands every row to its owner exactly once and in order. Owner \<open>p\<close>'s part is
  the rows assigned to \<open>p\<close>, in the batch's order, and is absent exactly when there are none.
\<close>

theorem SplitByOwner_partitions:
  assumes "\<forall>idx. (\<forall>i\<in>set idx. i < rb_rows rec) \<longrightarrow> takeRec rec idx = Some (select_rows rec idx)"
    "length ow = rb_rows rec" "p < nOwners"
  shows "\<exists>out. SplitByOwner takeRec rec ow nOwners = Ok out \<and> length out = nOwners
     \<and> opt_rows (out ! p) = map (rec_row rec) (filter (\<lambda>i. ow ! i = int p) [0..<rb_rows rec])
     \<and> (out ! p = None \<longleftrightarrow> int p \<notin> set ow)"
proof -
  let ?bs = "bucket 0 ow (replicate nOwners [])"
  have len: "length ?bs = nOwners" using bucket_spec [of p "replicate nOwners []" 0 ow] assms(3) by simp
  have b: "?bs ! q = filter (\<lambda>i. ow ! i = int q) [0..<rb_rows rec]" if "q < nOwners" for q
    using bucket_spec [of q "replicate nOwners []" 0 ow] that assms(2) by simp
  have all: "\<exists>q<nOwners. x = filter (\<lambda>i. ow ! i = int q) [0..<rb_rows rec]" if "x \<in> set ?bs" for x
    using that len b by (metis in_set_conv_nth)
  have "takeRec rec x = Some (select_rows rec x)" if "x \<in> set ?bs" for x
    using all [OF that] assms(1) by auto
  moreover have "x = [0..<rb_rows rec]" if x: "x \<in> set ?bs" "length x = rb_rows rec" for x
  proof -
    obtain q where q: "x = filter (\<lambda>i. ow ! i = int q) [0..<rb_rows rec]" using all [OF x(1)] by auto
    with x(2) have "length (filter (\<lambda>i. ow ! i = int q) [0..<rb_rows rec]) = length [0..<rb_rows rec]" by simp
    then show ?thesis unfolding q by (metis filter_id_conv length_filter_less nat_less_le)
  qed
  ultimately obtain out where out: "split_from takeRec rec ?bs = Ok out"
    "list_all2 (\<lambda>b r. opt_rows r = map (rec_row rec) b \<and> (r = None \<longleftrightarrow> b = [])) ?bs out"
    using split_from_spec [of ?bs rec takeRec] by blast
  have at: "opt_rows (out ! p) = map (rec_row rec) (?bs ! p) \<and> (out ! p = None \<longleftrightarrow> ?bs ! p = [])"
    using list_all2_nthD [OF out(2), of p] len assms(3) by simp
  have "?bs ! p = [] \<longleftrightarrow> int p \<notin> set ow"
    using b [OF assms(3)] assms(2) by (auto simp: filter_empty_conv in_set_conv_nth)
  with at b [OF assms(3)] out list_all2_lengthD [OF out(2)] len show ?thesis by (simp add: SplitByOwner_def)
qed

theorem SplitByOwner_partitions_witness:
  "\<exists>out. SplitByOwner (\<lambda>rec idx. Some (select_rows rec idx)) three_changes [1, 0, 1] 2 = Ok out \<and> length out = 2
     \<and> opt_rows (out ! 1) = map (rec_row three_changes) (filter (\<lambda>i. [1, 0, 1] ! i = int 1) [0..<rb_rows three_changes])
     \<and> (out ! 1 = None \<longleftrightarrow> int 1 \<notin> set [1, 0, 1])"
  by (rule SplitByOwner_partitions) (simp_all add: three_changes_def)

end
