(* ===== verification/Resume.thy ===== *)
theory Resume
  imports Position_Fold Snapshot_State
begin

text \<open>
  \<open>internal/resume/resume.go\<close>: where a pipeline resumes and which tables it must snapshot or adopt. The
  source's parser and the sink's committed positions and properties are parameters; parsing the same text
  twice gives the same position.

  The lemmas show that the stream starts at a position every table has committed, so no change a table
  misses is skipped, and that every table that needs a snapshot gets one or is adopted; and that the start
  taken from explicit positions may skip changes when they diverge.
\<close>

section \<open>Inputs and results\<close>

record resume_ref =
  rr_Source :: string
  rr_Target :: string
  rr_PrimaryKey :: "string list"
  rr_Owner :: string
  rr_OwnerCount :: nat
  rr_Owners :: "string list"

record bootstrap =
  bs_Mode :: string
  bs_StartAt :: string
  bs_Position :: string

definition Adopt :: string where "Adopt = ''adopt''"

definition AdoptVerify :: string where "AdoptVerify = ''adopt-verify''"

definition StartAtExplicit :: string where "StartAtExplicit = ''explicit''"

record resume_opts =
  ro_Snapshot :: bool
  ro_Owners :: "(string \<Rightarrow> string list) option"
  ro_Bootstrap :: "(string, bootstrap) gomap"

record 'f resume_sink =
  rk_Position :: "resume_ref \<Rightarrow> string option"
  rk_Properties :: "resume_ref \<Rightarrow> 'f props option"

record resume_result =
  rs_Resume :: "position option"
  rs_Start :: "position option"
  rs_Snapshot :: "resume_ref list"
  rs_Adopt :: "resume_ref list"
  rs_Explicit :: "position list"
  rs_BootCommitted :: "(string, position) gomap"
  rs_Recovery :: "string list"

datatype resume_err = SinkFailed | BadCommitted | PropertiesFailed | BadExplicit | DivergedCommits safe_err

section \<open>Resolving\<close>

definition adoptTargets :: "(string, bootstrap) gomap \<Rightarrow> (string, bool) gomap" where
  "adoptTargets bootstraps =
     foldl (\<lambda>adopt (target, b). if bs_Mode b = Adopt \<or> bs_Mode b = AdoptVerify then gm_put target True adopt else adopt) [] bootstraps"

definition need :: "resume_ref \<Rightarrow> bool \<Rightarrow> (string, bool) gomap \<Rightarrow> resume_result \<Rightarrow> resume_result" where
  "need ref snap adopt res =
     (if \<not> snap then res
      else if gm_at False adopt (rr_Target ref) then res\<lparr>rs_Adopt := rs_Adopt res @ [ref]\<rparr>
      else res\<lparr>rs_Snapshot := rs_Snapshot res @ [ref]\<rparr>)"

fun parse_explicit_from :: "(string \<Rightarrow> position option) \<Rightarrow> (string, bootstrap) gomap \<Rightarrow> string list \<Rightarrow> position list \<Rightarrow>
    (resume_err, position list) res" where
  "parse_explicit_from parse bootstraps [] acc = Ok acc"
| "parse_explicit_from parse bootstraps (t # ts) acc =
     (case map_of bootstraps t of
        None \<Rightarrow> parse_explicit_from parse bootstraps ts acc
      | Some b \<Rightarrow>
          if bs_StartAt b \<noteq> StartAtExplicit \<or> bs_Position b = [] then parse_explicit_from parse bootstraps ts acc
          else (case parse (bs_Position b) of
                  None \<Rightarrow> Err BadExplicit
                | Some p \<Rightarrow> parse_explicit_from parse bootstraps ts (acc @ [p])))"

definition parseExplicit :: "(string \<Rightarrow> position option) \<Rightarrow> (string, bootstrap) gomap \<Rightarrow> resume_result \<Rightarrow> (resume_err, resume_result) res" where
  "parseExplicit parse bootstraps res =
     res_bind (parse_explicit_from parse bootstraps (sort (map fst bootstraps)) (rs_Explicit res)) (\<lambda>ps. Ok (res\<lparr>rs_Explicit := ps\<rparr>))"

text \<open>\<open>explicitStart\<close>; \<open>None\<close> is a panic of \<open>Compare\<close>.\<close>

definition explicitStart :: "position list \<Rightarrow> position option option" where
  "explicitStart explicit = (if explicit = [] then Some None else Min_pos explicit)"

definition with_owners :: "(string \<Rightarrow> string list) option \<Rightarrow> resume_ref \<Rightarrow> resume_ref" where
  "with_owners ow ref =
     (case ow of
        None \<Rightarrow> ref
      | Some f \<Rightarrow> ref\<lparr>rr_OwnerCount := length (f (rr_Target ref)), rr_Owners := f (rr_Target ref)\<rparr>)"

text \<open>The loop over the tables: the result so far, the positions and each table's.\<close>

fun resolve_refs :: "(string \<Rightarrow> position option) \<Rightarrow> 'f resume_sink \<Rightarrow> resume_opts \<Rightarrow> (string, bool) gomap \<Rightarrow> resume_ref list \<Rightarrow>
    resume_result \<times> position list \<times> (string, position option) gomap \<Rightarrow>
    (resume_err, resume_result \<times> position list \<times> (string, position option) gomap) res" where
  "resolve_refs parse snk opts adopt [] st = Ok st"
| "resolve_refs parse snk opts adopt (ref0 # refs) (res, ps, byTarget) =
     (let ref = with_owners (ro_Owners opts) ref0 in
      case rk_Position snk ref of
        None \<Rightarrow> Err SinkFailed
      | Some pos \<Rightarrow>
          if pos = [] then resolve_refs parse snk opts adopt refs (need ref (ro_Snapshot opts) adopt res, ps, byTarget)
          else (case parse pos of
                  None \<Rightarrow> Err BadCommitted
                | Some p \<Rightarrow>
                    (let res1 = res\<lparr>rs_BootCommitted := gm_put (rr_Target ref) p (rs_BootCommitted res)\<rparr>;
                         ps1 = ps @ [p]; by1 = gm_put (rr_Target ref) (Some p) byTarget
                     in if \<not> ro_Snapshot opts then resolve_refs parse snk opts adopt refs (res1, ps1, by1)
                        else (case rk_Properties snk ref of
                                None \<Rightarrow> Err PropertiesFailed
                              | Some props \<Rightarrow>
                                  resolve_refs parse snk opts adopt refs
                                    (if Unfinished props then need ref (ro_Snapshot opts) adopt res1 else res1, ps1, by1)))))"

definition Resolve :: "(string \<Rightarrow> position option) \<Rightarrow> 'f resume_sink \<Rightarrow> resume_ref list \<Rightarrow> resume_opts \<Rightarrow> (resume_err, resume_result) res" where
  "Resolve parse snk refs opts =
     (let res0 = \<lparr>rs_Resume = None, rs_Start = None, rs_Snapshot = [], rs_Adopt = [], rs_Explicit = [], rs_BootCommitted = [],
                 rs_Recovery = []\<rparr>
      in res_bind (resolve_refs parse snk opts (adoptTargets (ro_Bootstrap opts)) refs (res0, [], [])) (\<lambda>(res, ps, byTarget).
           if ps = [] then
             res_bind (parseExplicit parse (ro_Bootstrap opts) res) (\<lambda>res1.
               case explicitStart (rs_Explicit res1) of None \<Rightarrow> Panic | Some st \<Rightarrow> Ok (res1\<lparr>rs_Start := st\<rparr>))
           else
             (case MinSafe ps of
                Err e \<Rightarrow> Err (DivergedCommits e)
              | Panic \<Rightarrow> Panic
              | Ok best \<Rightarrow>
                  (case Ahead best byTarget of
                     None \<Rightarrow> Panic
                   | Some names \<Rightarrow>
                       parseExplicit parse (ro_Bootstrap opts) (res\<lparr>rs_Resume := best, rs_Start := best, rs_Recovery := names\<rparr>)))))"

section \<open>What a resolution gives\<close>

text \<open>The tables a resolution looks at, with their committed texts, and which of them need a snapshot.\<close>

definition committed :: "'f resume_sink \<Rightarrow> resume_opts \<Rightarrow> resume_ref \<Rightarrow> string" where
  "committed snk opts ref = (case rk_Position snk (with_owners (ro_Owners opts) ref) of None \<Rightarrow> [] | Some s \<Rightarrow> s)"

definition needs_snapshot :: "'f resume_sink \<Rightarrow> resume_opts \<Rightarrow> resume_ref \<Rightarrow> bool" where
  "needs_snapshot snk opts ref \<longleftrightarrow> ro_Snapshot opts \<and>
     (committed snk opts ref = [] \<or> (\<exists>props. rk_Properties snk (with_owners (ro_Owners opts) ref) = Some props \<and> Unfinished props))"

definition to_load :: "resume_result \<Rightarrow> resume_ref set" where
  "to_load res = set (rs_Snapshot res) \<union> set (rs_Adopt res)"

lemma to_load_need: "to_load (need ref snap adopt res) = (if snap then insert ref (to_load res) else to_load res)"
  by (auto simp: need_def to_load_def)

lemma need_Explicit: "rs_Explicit (need ref snap adopt res) = rs_Explicit res"
  by (simp add: need_def)

lemma to_load_put [simp]: "to_load (res\<lparr>rs_BootCommitted := m\<rparr>) = to_load res"
  by (simp add: to_load_def)

lemma resolve_refs_spec:
  assumes "resolve_refs parse snk opts adopt refs (res, ps, m) = Ok (res', ps', m')"
  shows "ps' = ps @ map (\<lambda>r. the (parse (committed snk opts r))) (filter (\<lambda>r. committed snk opts r \<noteq> []) refs)
    \<and> (\<forall>r\<in>set refs. committed snk opts r \<noteq> [] \<longrightarrow> parse (committed snk opts r) \<noteq> None)
    \<and> to_load res' = to_load res \<union> with_owners (ro_Owners opts) ` {r \<in> set refs. needs_snapshot snk opts r}
    \<and> rs_Explicit res' = rs_Explicit res"
  using assms
proof (induction refs arbitrary: res ps m)
  case (Cons ref refs)
  let ?ref = "with_owners (ro_Owners opts) ref"
  obtain pos where pos: "rk_Position snk ?ref = Some pos" using Cons.prems by (auto simp: Let_def split: option.splits)
  then have c: "committed snk opts ref = pos" by (simp add: committed_def)
  show ?case
  proof (cases "pos = []")
    case True
    have rest: "resolve_refs parse snk opts adopt refs (need ?ref (ro_Snapshot opts) adopt res, ps, m) = Ok (res', ps', m')"
      using Cons.prems pos True by (simp add: Let_def)
    from Cons.IH [OF rest] c True show ?thesis by (auto simp: to_load_need needs_snapshot_def need_Explicit)
  next
    case False
    then obtain p where p: "parse pos = Some p" using Cons.prems pos by (auto simp: Let_def split: option.splits)
    let ?res1 = "res\<lparr>rs_BootCommitted := gm_put (rr_Target ?ref) p (rs_BootCommitted res)\<rparr>"
    obtain res2 where res2: "resolve_refs parse snk opts adopt refs (res2, ps @ [p], gm_put (rr_Target ?ref) (Some p) m) = Ok (res', ps', m')"
      and load: "to_load res2 = (if needs_snapshot snk opts ref then insert ?ref (to_load res) else to_load res)"
      and ex: "rs_Explicit res2 = rs_Explicit res"
    proof (cases "ro_Snapshot opts")
      case False
      with Cons.prems pos p \<open>pos \<noteq> []\<close> show ?thesis by (intro that [of ?res1]) (simp_all add: Let_def needs_snapshot_def)
    next
      case True
      then obtain props where pr: "rk_Properties snk ?ref = Some props"
        using Cons.prems pos p False by (auto simp: Let_def split: option.splits)
      let ?res2 = "if Unfinished props then need ?ref (ro_Snapshot opts) adopt ?res1 else ?res1"
      have "needs_snapshot snk opts ref \<longleftrightarrow> Unfinished props" using True pr False c by (simp add: needs_snapshot_def)
      with Cons.prems pos p pr True False show ?thesis
        by (intro that [of ?res2]) (simp_all add: Let_def to_load_need need_Explicit)
    qed
    from Cons.IH [OF res2] load ex c False p show ?thesis by auto
  qed
qed simp

lemma Resolve_Ok_cases:
  assumes "Resolve parse snk refs opts = Ok res"
  obtains ps where
    "ps = map (\<lambda>r. the (parse (committed snk opts r))) (filter (\<lambda>r. committed snk opts r \<noteq> []) refs)"
    "\<forall>r\<in>set refs. committed snk opts r \<noteq> [] \<longrightarrow> parse (committed snk opts r) \<noteq> None"
    "to_load res = with_owners (ro_Owners opts) ` {r \<in> set refs. needs_snapshot snk opts r}"
    "ps \<noteq> [] \<Longrightarrow> MinSafe ps = Ok (rs_Start res)"
proof -
  let ?res0 = "\<lparr>rs_Resume = None, rs_Start = None, rs_Snapshot = [], rs_Adopt = [], rs_Explicit = [], rs_BootCommitted = [], rs_Recovery = []\<rparr>"
  obtain res1 ps m where loop: "resolve_refs parse snk opts (adoptTargets (ro_Bootstrap opts)) refs (?res0, [], []) = Ok (res1, ps, m)"
    using assms by (auto simp: Resolve_def Let_def res_bind_Ok_conv)
  have spec: "ps = map (\<lambda>r. the (parse (committed snk opts r))) (filter (\<lambda>r. committed snk opts r \<noteq> []) refs)"
    "\<forall>r\<in>set refs. committed snk opts r \<noteq> [] \<longrightarrow> parse (committed snk opts r) \<noteq> None"
    "to_load res1 = with_owners (ro_Owners opts) ` {r \<in> set refs. needs_snapshot snk opts r}"
    using resolve_refs_spec [OF loop] by (auto simp: to_load_def)
  have "to_load res = to_load res1 \<and> (ps \<noteq> [] \<longrightarrow> MinSafe ps = Ok (rs_Start res))"
    using assms loop
    by (auto simp: Resolve_def res_bind_Ok_conv to_load_def parseExplicit_def split: if_splits option.splits res.splits)
  with spec show ?thesis by (intro that) auto
qed

text \<open>
  C7: a resolution that succeeds starts the stream at a position contained in every table's committed
  position, and the tables it loads, by snapshot or by adoption, are exactly those of a snapshotting source
  with no committed position or an unfinished snapshot, each with its current owners.
\<close>

theorem Resolve_resumes_safely:
  assumes "\<forall>s p. parse s = Some p \<longrightarrow> of_kind k p" "Resolve parse snk refs opts = Ok res"
  shows "(\<forall>r\<in>set refs. committed snk opts r \<noteq> [] \<longrightarrow>
            (\<exists>m p. rs_Start res = Some m \<and> parse (committed snk opts r) = Some p \<and> pos_le m p))
    \<and> to_load res = with_owners (ro_Owners opts) ` {r \<in> set refs. needs_snapshot snk opts r}"
  using assms(2)
proof (rule Resolve_Ok_cases)
  fix ps
  assume ps: "ps = map (\<lambda>r. the (parse (committed snk opts r))) (filter (\<lambda>r. committed snk opts r \<noteq> []) refs)"
    and parsed: "\<forall>r\<in>set refs. committed snk opts r \<noteq> [] \<longrightarrow> parse (committed snk opts r) \<noteq> None"
    and load: "to_load res = with_owners (ro_Owners opts) ` {r \<in> set refs. needs_snapshot snk opts r}"
    and safe: "ps \<noteq> [] \<Longrightarrow> MinSafe ps = Ok (rs_Start res)"
  have kinds: "\<forall>p\<in>set ps. of_kind k p" using parsed assms(1) by (auto simp: ps)
  have "\<exists>m p. rs_Start res = Some m \<and> parse (committed snk opts r) = Some p \<and> pos_le m p"
    if r: "r \<in> set refs" "committed snk opts r \<noteq> []" for r
  proof -
    obtain p where p: "parse (committed snk opts r) = Some p" using parsed r by blast
    then have mem: "p \<in> set ps" using r by (force simp: ps)
    then obtain m where m: "MinSafe ps = Ok (Some m)" "rs_Start res = Some m"
      using safe pk.minsafe_none [of ps] by (cases "rs_Start res") force+
    from pk.minsafe_glb(2) [OF m(1) kinds] mem m p show ?thesis by blast
  qed
  with load show ?thesis by blast
qed

definition uuid_b :: string where
  "uuid_b = ''7f3e0c52-71ca-11e1-9e33-c80aa9429562''"

definition demo_parse :: "string \<Rightarrow> position option" where
  "demo_parse s = (if s = ''5'' then Some (PLSN 5) else if s = ''9'' then Some (PLSN 9) else None)"

definition demo_ref :: "string \<Rightarrow> resume_ref" where
  "demo_ref t = \<lparr>rr_Source = t, rr_Target = t, rr_PrimaryKey = [], rr_Owner = [], rr_OwnerCount = 0, rr_Owners = []\<rparr>"

definition demo_sink :: "unit resume_sink" where
  "demo_sink = \<lparr>rk_Position = (\<lambda>r. Some (if rr_Target r = ''a'' then ''9'' else if rr_Target r = ''b'' then ''5'' else [])),
     rk_Properties = (\<lambda>r. Some [])\<rparr>"

definition demo_opts :: resume_opts where
  "demo_opts = \<lparr>ro_Snapshot = True, ro_Owners = None, ro_Bootstrap = []\<rparr>"

theorem Resolve_resumes_safely_witness:
  "\<exists>res. Resolve demo_parse demo_sink [demo_ref ''a'', demo_ref ''b'', demo_ref ''c''] demo_opts = Ok res
    \<and> (\<exists>m. rs_Start res = Some m \<and> pos_le m (PLSN 9) \<and> pos_le m (PLSN 5)) \<and> demo_ref ''c'' \<in> to_load res"
proof -
  let ?refs = "[demo_ref ''a'', demo_ref ''b'', demo_ref ''c'']"
  have k: "\<forall>s p. demo_parse s = Some p \<longrightarrow> of_kind KLSN p" by (simp add: demo_parse_def)
  have "case Resolve demo_parse demo_sink ?refs demo_opts of Ok _ \<Rightarrow> True | _ \<Rightarrow> False" by code_simp
  then obtain res where res: "Resolve demo_parse demo_sink ?refs demo_opts = Ok res" by (auto split: res.splits)
  have c: "committed demo_sink demo_opts (demo_ref ''a'') = ''9''" "committed demo_sink demo_opts (demo_ref ''b'') = ''5''"
    "needs_snapshot demo_sink demo_opts (demo_ref ''c'')" "with_owners (ro_Owners demo_opts) (demo_ref ''c'') = demo_ref ''c''"
    by (simp_all add: committed_def needs_snapshot_def demo_sink_def demo_opts_def demo_ref_def with_owners_def)
  note safe = Resolve_resumes_safely [OF k res]
  have "\<exists>m. rs_Start res = Some m \<and> pos_le m (PLSN 9)"
    using safe [THEN conjunct1, THEN bspec, of "demo_ref ''a''"] c(1) by (auto simp: demo_parse_def)
  moreover have "\<exists>m. rs_Start res = Some m \<and> pos_le m (PLSN 5)"
    using safe [THEN conjunct1, THEN bspec, of "demo_ref ''b''"] c(2) by (auto simp: demo_parse_def)
  moreover have "demo_ref ''c'' \<in> to_load res"
    unfolding safe [THEN conjunct2] by (rule image_eqI [of _ _ "demo_ref ''c''"]) (simp_all add: c(3,4))
  ultimately show ?thesis using res by auto
qed

lemma Min_pos_pair:
  assumes "of_kind KGTID p" "of_kind KGTID q" "\<not> pos_le p q" "\<not> pos_le q p"
  shows "Min_pos [p, q] = Some (Some p)" "MinSafe [p, q] = Err (ErrIncomparable q p)"
proof -
  obtain g h where "p = PGTID g" "q = PGTID h" using assms(1,2) by (cases p; cases q) auto
  moreover have "Compare q p = Some Incomparable" using assms by (simp add: pk.compare_ok [of KGTID])
  ultimately show "Min_pos [p, q] = Some (Some p)" "MinSafe [p, q] = Err (ErrIncomparable q p)"
    by (simp_all add: Min_pos_def MinSafe_def pos_meet_def)
qed

text \<open>
  C38: the start taken from explicit positions depends on their order when two MySQL positions diverge. For
  any two GTID sets neither of which contains the other, the start is the one listed first. It is not
  contained in the other, so a table that asked for the other misses transactions. \<open>MinSafe\<close>, which folds
  the committed positions, refuses the same pair.
\<close>

theorem explicitStart_skips_on_divergence:
  assumes "of_kind KGTID p" "of_kind KGTID q" "\<not> pos_le p q" "\<not> pos_le q p"
  shows "explicitStart [p, q] = Some (Some p) \<and> explicitStart [q, p] = Some (Some q)
    \<and> MinSafe [p, q] = Err (ErrIncomparable q p)"
  using Min_pos_pair [OF assms] Min_pos_pair(1) [OF assms(2,1,4,3)] by (simp add: explicitStart_def)

theorem explicitStart_skips_on_divergence_witness:
  "explicitStart [PGTID [(uuid_a, [mk_interval 1 10])], PGTID [(uuid_b, [mk_interval 1 10])]]
     = Some (Some (PGTID [(uuid_a, [mk_interval 1 10])]))
   \<and> \<not> pos_le (PGTID [(uuid_a, [mk_interval 1 10])]) (PGTID [(uuid_b, [mk_interval 1 10])])"
proof -
  let ?p = "PGTID [(uuid_a, [mk_interval 1 10])]" and ?q = "PGTID [(uuid_b, [mk_interval 1 10])]"
  have "of_kind KGTID ?p" "of_kind KGTID ?q" by code_simp+
  moreover have "\<not> pos_le ?p ?q" "\<not> pos_le ?q ?p" by code_simp+
  ultimately show ?thesis using explicitStart_skips_on_divergence [of ?p ?q] by simp
qed

end
