(* ===== verification/Row_Filter.thy ===== *)
theory Row_Filter
  imports Complex_Main Go_Text
begin

text \<open>
  Row filters: the filter tree of \<open>spec/filter.go\<close> and its validation (\<open>spec/validate.go\<close>), the rendering for
  streamed changes (\<open>internal/source/filterexpr\<close> and the leaf builders of both sources) and the renderings for
  snapshot queries (\<open>internal/source/mysql/filter.go\<close>, \<open>internal/source/postgres/chunk/filter.go\<close>).

  Rendered text is represented by its syntax tree. The evaluation of the expression language and of SQL
  conditions follows their documentation: two-valued with short circuit for the first, three-valued for the
  second; how the expression language and the database compare a column with a literal is a parameter of each,
  and so is the query builder the Postgres snapshot uses. The two exact comparisons the sources register with
  the expression language, \<open>pg_numeric_cmp\<close> and \<open>mysql_decimal_cmp\<close>, are modelled over the conversions of
  \<open>math/big\<close> and of the decimal library.

  The lemmas show that negating a filter negates its three-valued meaning, and that a streamed change is
  kept exactly when the snapshot's condition is true of it, unless a list holds a null.
\<close>

section \<open>Filters\<close>

datatype 'f fval =
    VNil | VBool bool | VFloat 'f | VInt64 int | VInt int | VStr string | VList "'f fval list" | VOther

datatype fop =
    OpEq | OpNeq | OpLt | OpLte | OpGt | OpGte | OpIn | OpNotIn | OpIsNull | OpIsNotNull | OpUnknown string

record 'f predicate =
  pr_Column :: string
  pr_Op :: fop
  pr_Value :: "'f fval"

datatype 'f filter_node =
  FilterNode (f_All: "'f filter_node list") (f_Any: "'f filter_node list") (f_Not: "'f filter_node option")
    (f_Predicate: "'f predicate option")

fun op_Negate :: "fop \<Rightarrow> fop" where
  "op_Negate OpEq = OpNeq"
| "op_Negate OpNeq = OpEq"
| "op_Negate OpLt = OpGte"
| "op_Negate OpLte = OpGt"
| "op_Negate OpGt = OpLte"
| "op_Negate OpGte = OpLt"
| "op_Negate OpIn = OpNotIn"
| "op_Negate OpNotIn = OpIn"
| "op_Negate OpIsNull = OpIsNotNull"
| "op_Negate OpIsNotNull = OpIsNull"
| "op_Negate (OpUnknown s) = OpUnknown s"

definition Predicate_Negate :: "'f predicate \<Rightarrow> 'f predicate" where
  "Predicate_Negate p = \<lparr>pr_Column = pr_Column p, pr_Op = op_Negate (pr_Op p), pr_Value = pr_Value p\<rparr>"

text \<open>\<open>Negate\<close> of a node; a member that negates to nil is dereferenced, which panics.\<close>

fun Negate :: "'f filter_node \<Rightarrow> ('e, 'f filter_node option) res"
and negate_members :: "'f filter_node list \<Rightarrow> ('e, 'f filter_node list) res" where
  "Negate (FilterNode al an nt pr) =
     (if al \<noteq> [] then res_bind (negate_members al) (\<lambda>out. Ok (Some (FilterNode [] out None None)))
      else if an \<noteq> [] then res_bind (negate_members an) (\<lambda>out. Ok (Some (FilterNode out [] None None)))
      else (case nt of
              Some n \<Rightarrow> Ok (Some n)
            | None \<Rightarrow> (case pr of
                        Some p \<Rightarrow> Ok (Some (FilterNode [] [] None (Some (Predicate_Negate p))))
                      | None \<Rightarrow> Ok None)))"
| "negate_members [] = Ok []"
| "negate_members (n # ns) =
     res_bind (Negate n) (\<lambda>m. case m of
        None \<Rightarrow> Panic
      | Some m \<Rightarrow> res_bind (negate_members ns) (\<lambda>ms. Ok (m # ms)))"

section \<open>Validation\<close>

datatype filter_problem =
    ColRequired | ValueRequired | ListRequired | ListEmpty | TakesNoValue | OpRequired | OpUnknownProblem
  | NilFilterNode | AmbiguousFilterNode

definition validatePredicate :: "'f predicate \<Rightarrow> string \<Rightarrow> (string \<times> filter_problem) list" where
  "validatePredicate p path =
     (if pr_Column p = [] then [(path @ ''.col'', ColRequired)] else []) @
     (case pr_Op p of
        OpIn \<Rightarrow> (case pr_Value p of VList vs \<Rightarrow> if vs = [] then [(path, ListEmpty)] else [] | _ \<Rightarrow> [(path, ListRequired)])
      | OpNotIn \<Rightarrow> (case pr_Value p of VList vs \<Rightarrow> if vs = [] then [(path, ListEmpty)] else [] | _ \<Rightarrow> [(path, ListRequired)])
      | OpIsNull \<Rightarrow> (if pr_Value p \<noteq> VNil then [(path, TakesNoValue)] else [])
      | OpIsNotNull \<Rightarrow> (if pr_Value p \<noteq> VNil then [(path, TakesNoValue)] else [])
      | OpUnknown s \<Rightarrow> (if s = [] then [(path @ ''.op'', OpRequired)] else [(path @ ''.op'', OpUnknownProblem)])
      | _ \<Rightarrow> (if pr_Value p = VNil then [(path, ValueRequired)] else []))"

definition node_shapes :: "'f filter_node \<Rightarrow> nat" where
  "node_shapes f = (if f_All f \<noteq> [] then 1 else 0) + (if f_Any f \<noteq> [] then 1 else 0) + (if f_Not f \<noteq> None then 1 else 0)
     + (if f_Predicate f \<noteq> None then 1 else 0)"

definition member_path :: "string \<Rightarrow> string \<Rightarrow> nat \<Rightarrow> string" where
  "member_path path kind i = path @ kind @ ''['' @ FormatUint i @ '']''"

fun validateFilter :: "'f filter_node \<Rightarrow> string \<Rightarrow> (string \<times> filter_problem) list"
and validate_members :: "'f filter_node list \<Rightarrow> string \<Rightarrow> string \<Rightarrow> nat \<Rightarrow> (string \<times> filter_problem) list" where
  "validateFilter (FilterNode al an nt pr) path =
     validate_members al path ''.all'' 0 @ validate_members an path ''.any'' 0 @
     (case nt of None \<Rightarrow> [] | Some n \<Rightarrow> validateFilter n (path @ ''.not'')) @
     (case pr of None \<Rightarrow> [] | Some p \<Rightarrow> validatePredicate p (path @ ''.where'')) @
     (let shapes = node_shapes (FilterNode al an nt pr)
      in (if shapes = 0 then [(path, NilFilterNode)] else []) @ (if shapes > 1 then [(path, AmbiguousFilterNode)] else []))"
| "validate_members [] path kind i = []"
| "validate_members (n # ns) path kind i =
     validateFilter n (member_path path kind i) @ validate_members ns path kind (i + 1)"

section \<open>The expression of a filter\<close>

datatype conv = ConvRaw | ConvFloat | ConvLower

datatype 'f xlit = Lit "'f fval" | LitLower "'f fval"

text \<open>The helpers a source registers with the expression language.\<close>

datatype exact_fn = PgNumericCmp | MysqlDecimalCmp

datatype 'f xexpr =
    XAnd "'f xexpr list"
  | XOr "'f xexpr list"
  | XNot "'f xexpr"
  | XEqNil string
  | XNeNil string
  | XCmp conv string fop "'f xlit"
  | XIn conv string "'f xlit list"
  | XExact exact_fn string "'f xlit" fop
  | XFalse

datatype filter_err = EmptyNode | NoShape | BadLiteral | ListNeeded | BadOperator | NoColumn string

fun Literal :: "'f fval \<Rightarrow> (filter_err, 'f xlit) res" where
  "Literal (VList vs) = Err BadLiteral"
| "Literal VOther = Err BadLiteral"
| "Literal v = Ok (Lit v)"

fun filter_weight :: "'f filter_node \<Rightarrow> nat" where
  "filter_weight (FilterNode al an nt pr) =
     Suc (sum_list (map filter_weight al) + sum_list (map filter_weight an) + (case nt of None \<Rightarrow> 0 | Some n \<Rightarrow> filter_weight n))"

lemma filter_weight_pos [simp]: "0 < filter_weight f"
  by (cases f) simp

lemma Negate_weight:
  "Negate f = (Ok (Some g) :: ('e, 'f filter_node option) res) \<Longrightarrow> filter_weight g \<le> filter_weight f"
  "negate_members fs = (Ok gs :: ('e, 'f filter_node list) res) \<Longrightarrow> sum_list (map filter_weight gs) \<le> sum_list (map filter_weight fs)"
proof (induction f and fs arbitrary: g and gs rule: Negate_negate_members.induct)
  case (1 al an nt pr)
  then show ?case by (auto simp: res_bind_Ok_conv split: if_splits option.splits)
next
  case (3 n ns)
  then obtain m ms where "Negate n = (Ok (Some m) :: ('e, 'f filter_node option) res)" "negate_members ns = (Ok ms :: ('e, 'f filter_node list) res)"
    "gs = m # ms"
    by (auto simp: res_bind_Ok_conv split: option.splits)
  with 3 show ?case by (fastforce intro: add_mono)
qed simp

function Source :: "('f predicate \<Rightarrow> (filter_err, 'f xexpr) res) \<Rightarrow> 'f filter_node option \<Rightarrow> (filter_err, 'f xexpr) res"
and group :: "('f predicate \<Rightarrow> (filter_err, 'f xexpr) res) \<Rightarrow> 'f filter_node list \<Rightarrow> (filter_err, 'f xexpr list) res" where
  "Source b None = Err EmptyNode"
| "Source b (Some (FilterNode al an nt pr)) =
     (if al \<noteq> [] then (case group b al of Ok xs \<Rightarrow> Ok (XAnd xs) | Err e \<Rightarrow> Err e | Panic \<Rightarrow> Panic)
      else if an \<noteq> [] then (case group b an of Ok xs \<Rightarrow> Ok (XOr xs) | Err e \<Rightarrow> Err e | Panic \<Rightarrow> Panic)
      else (case nt of
              Some n \<Rightarrow> (case Negate n of Ok m \<Rightarrow> Source b m | Err e \<Rightarrow> Err e | Panic \<Rightarrow> Panic)
            | None \<Rightarrow> (case pr of Some p \<Rightarrow> b p | None \<Rightarrow> Err NoShape)))"
| "group b [] = Ok []"
| "group b (n # ns) =
     (case Source b (Some n) of
        Ok x \<Rightarrow> (case group b ns of Ok xs \<Rightarrow> Ok (x # xs) | Err e \<Rightarrow> Err e | Panic \<Rightarrow> Panic)
      | Err e \<Rightarrow> Err e
      | Panic \<Rightarrow> Panic)"
  by pat_completeness auto
termination
  by (relation "measure (\<lambda>z. case z of
        Inl (b, f) \<Rightarrow> (case f of None \<Rightarrow> 0 | Some f \<Rightarrow> 2 * filter_weight f)
      | Inr (b, fs) \<Rightarrow> Suc (2 * sum_list (map filter_weight fs)))")
    (auto dest: Negate_weight(1) split: option.splits)

text \<open>\<open>CheckColumns\<close> with the table's \<open>FindColumn\<close>.\<close>

fun CheckColumns :: "(string \<Rightarrow> int) \<Rightarrow> 'f filter_node \<Rightarrow> (filter_err, unit) res"
and check_members :: "(string \<Rightarrow> int) \<Rightarrow> 'f filter_node list \<Rightarrow> (filter_err, unit) res" where
  "CheckColumns look (FilterNode al an nt pr) =
     (if al \<noteq> [] then check_members look al
      else if an \<noteq> [] then check_members look an
      else (case nt of
              Some n \<Rightarrow> CheckColumns look n
            | None \<Rightarrow> (case pr of
                        Some p \<Rightarrow> (if look (pr_Column p) < 0 then Err (NoColumn (pr_Column p)) else Ok ())
                      | None \<Rightarrow> Ok ())))"
| "check_members look [] = Ok ()"
| "check_members look (n # ns) = (case CheckColumns look n of Ok u \<Rightarrow> check_members look ns | Err e \<Rightarrow> Err e | Panic \<Rightarrow> Panic)"

fun literals :: "('f fval \<Rightarrow> (filter_err, 'f xlit) res) \<Rightarrow> 'f fval list \<Rightarrow> (filter_err, 'f xlit list) res" where
  "literals lit [] = Ok []"
| "literals lit (v # vs) = res_bind (lit v) (\<lambda>l. res_bind (literals lit vs) (\<lambda>ls. Ok (l # ls)))"

definition as_list :: "'f fval \<Rightarrow> 'f fval list option" where
  "as_list v = (case v of VList vs \<Rightarrow> Some vs | _ \<Rightarrow> None)"

definition is_comparison :: "fop \<Rightarrow> bool" where
  "is_comparison op \<longleftrightarrow> op \<in> {OpEq, OpNeq, OpLt, OpLte, OpGt, OpGte}"

definition guarded :: "string \<Rightarrow> 'f xexpr \<Rightarrow> 'f xexpr" where
  "guarded col x = XAnd [XNeNil col, x]"

text \<open>A leaf on a column compared in the expression language, and one compared by an exact helper.\<close>

definition plain_leaf :: "conv \<Rightarrow> ('f fval \<Rightarrow> (filter_err, 'f xlit) res) \<Rightarrow> 'f predicate \<Rightarrow> (filter_err, 'f xexpr) res" where
  "plain_leaf cv lit p =
     (if is_comparison (pr_Op p) then
        res_bind (lit (pr_Value p)) (\<lambda>l. Ok (guarded (pr_Column p) (XCmp cv (pr_Column p) (pr_Op p) l)))
      else if pr_Op p = OpIn \<or> pr_Op p = OpNotIn then
        (case as_list (pr_Value p) of
           None \<Rightarrow> Err ListNeeded
         | Some vs \<Rightarrow> res_bind (literals lit vs) (\<lambda>ls.
             let inner = XIn cv (pr_Column p) ls
             in Ok (guarded (pr_Column p) (if pr_Op p = OpNotIn then XNot inner else inner))))
      else Err BadOperator)"

definition exact_leaf :: "exact_fn \<Rightarrow> 'f predicate \<Rightarrow> (filter_err, 'f xexpr) res" where
  "exact_leaf fn p =
     (if is_comparison (pr_Op p) then
        res_bind (Literal (pr_Value p)) (\<lambda>l. Ok (guarded (pr_Column p) (XExact fn (pr_Column p) l (pr_Op p))))
      else if pr_Op p = OpIn \<or> pr_Op p = OpNotIn then
        (case as_list (pr_Value p) of
           None \<Rightarrow> Err ListNeeded
         | Some vs \<Rightarrow> res_bind (literals Literal vs) (\<lambda>ls.
             let inner = (if ls = [] then XFalse else XOr (map (\<lambda>l. XExact fn (pr_Column p) l OpEq) ls))
             in Ok (guarded (pr_Column p) (if pr_Op p = OpNotIn then XNot inner else inner))))
      else Err BadOperator)"

definition filterExprPgNumeric :: "'f predicate \<Rightarrow> (filter_err, 'f xexpr) res" where
  "filterExprPgNumeric p = exact_leaf PgNumericCmp p"

definition filterExprDecimal :: "'f predicate \<Rightarrow> (filter_err, 'f xexpr) res" where
  "filterExprDecimal p = exact_leaf MysqlDecimalCmp p"

subsection \<open>Postgres leaves\<close>

record pg_column =
  pc_Name :: string
  pc_DataType :: string

type_synonym table_state = "pg_column list"

fun find_from :: "int \<Rightarrow> pg_column list \<Rightarrow> string \<Rightarrow> int" where
  "find_from i [] name = - 1"
| "find_from i (c # cs) name = (if pc_Name c = name then i else find_from (i + 1) cs name)"

definition FindColumn :: "table_state \<Rightarrow> string \<Rightarrow> int" where
  "FindColumn st name = find_from 0 st name"

text \<open>\<open>strings.ToLower\<close> on the names of types, which are ASCII.\<close>

definition lower_char :: "char \<Rightarrow> char" where
  "lower_char c = (if (65 :: nat) \<le> of_char c \<and> (of_char c :: nat) \<le> 90 then char_of (of_char c + 32 :: nat) else c)"

definition column_type_in :: "table_state \<Rightarrow> string \<Rightarrow> string list \<Rightarrow> bool" where
  "column_type_in st name kinds =
     (let i = FindColumn st name in if i < 0 then False else map lower_char (pc_DataType (st ! nat i)) \<in> set kinds)"

definition columnIsPgNumeric :: "table_state \<Rightarrow> string \<Rightarrow> bool" where
  "columnIsPgNumeric st name = column_type_in st name [''numeric'', ''real'', ''double precision'', ''money'']"

definition columnIsInteger :: "table_state \<Rightarrow> string \<Rightarrow> bool" where
  "columnIsInteger st name = column_type_in st name [''smallint'', ''integer'', ''bigint'']"

definition pg_filterExprPredicate :: "table_state \<Rightarrow> 'f predicate \<Rightarrow> (filter_err, 'f xexpr) res" where
  "pg_filterExprPredicate st p =
     (if pr_Op p = OpIsNull then Ok (XEqNil (pr_Column p))
      else if pr_Op p = OpIsNotNull then Ok (XNeNil (pr_Column p))
      else if columnIsPgNumeric st (pr_Column p) then filterExprPgNumeric p
      else plain_leaf (if columnIsInteger st (pr_Column p) then ConvFloat else ConvRaw) Literal p)"

definition pg_compileFilterExpr :: "table_state \<Rightarrow> 'f filter_node option \<Rightarrow> (filter_err, 'f xexpr option) res" where
  "pg_compileFilterExpr st f =
     (case f of
        None \<Rightarrow> Ok None
      | Some n \<Rightarrow> res_bind (CheckColumns (FindColumn st) n) (\<lambda>_.
          res_bind (Source (pg_filterExprPredicate st) (Some n)) (\<lambda>x. Ok (Some x))))"

subsection \<open>MySQL leaves\<close>

datatype my_type = TYPE_NUMBER | TYPE_MEDIUM_INT | TYPE_FLOAT | TYPE_DECIMAL | TYPE_STRING | TYPE_ENUM | TYPE_SET | TYPE_OTHER

text \<open>A MySQL table, by its columns' types and collations.\<close>

record my_column =
  mc_Type :: my_type
  mc_Collation :: string

type_synonym my_table = "string \<Rightarrow> my_column option"

fun contains_sub :: "string \<Rightarrow> string \<Rightarrow> bool" where
  "contains_sub sub [] \<longleftrightarrow> sub = []"
| "contains_sub sub (c # cs) \<longleftrightarrow> take (length sub) (c # cs) = sub \<or> contains_sub sub cs"

definition columnType :: "my_table \<Rightarrow> string \<Rightarrow> my_type option" where
  "columnType tbl name = map_option mc_Type (tbl name)"

definition columnIsNumeric :: "my_table \<Rightarrow> string \<Rightarrow> bool" where
  "columnIsNumeric tbl name \<longleftrightarrow> columnType tbl name \<in> {Some TYPE_NUMBER, Some TYPE_MEDIUM_INT, Some TYPE_FLOAT}"

definition columnIsDecimal :: "my_table \<Rightarrow> string \<Rightarrow> bool" where
  "columnIsDecimal tbl name \<longleftrightarrow> columnType tbl name = Some TYPE_DECIMAL"

definition columnIsCaseInsensitive :: "my_table \<Rightarrow> string \<Rightarrow> bool" where
  "columnIsCaseInsensitive tbl name =
     (case tbl name of
        None \<Rightarrow> False
      | Some c \<Rightarrow> mc_Type c \<in> {TYPE_STRING, TYPE_ENUM, TYPE_SET} \<and> contains_sub ''_ci'' (map lower_char (mc_Collation c)))"

fun lower_lit :: "'f xlit \<Rightarrow> 'f xlit" where
  "lower_lit (Lit v) = LitLower v"
| "lower_lit (LitLower v) = LitLower v"

definition my_literal :: "my_table \<Rightarrow> string \<Rightarrow> 'f fval \<Rightarrow> (filter_err, 'f xlit) res" where
  "my_literal tbl col v = res_bind (Literal v) (\<lambda>l. Ok (if columnIsCaseInsensitive tbl col then lower_lit l else l))"

definition my_filterExprPredicate :: "my_table \<Rightarrow> 'f predicate \<Rightarrow> (filter_err, 'f xexpr) res" where
  "my_filterExprPredicate tbl p =
     (let col = pr_Column p in
      if pr_Op p = OpIsNull then Ok (XEqNil col)
      else if pr_Op p = OpIsNotNull then Ok (XNeNil col)
      else if columnIsDecimal tbl col then filterExprDecimal p
      else plain_leaf (if columnIsNumeric tbl col then ConvFloat else if columnIsCaseInsensitive tbl col then ConvLower else ConvRaw)
             (my_literal tbl col) p)"

definition my_compileFilterExpr :: "my_table \<Rightarrow> 'f filter_node option \<Rightarrow> (filter_err, 'f xexpr option) res" where
  "my_compileFilterExpr tbl f =
     (case f of
        None \<Rightarrow> Ok None
      | Some n \<Rightarrow> res_bind (CheckColumns (\<lambda>c. if tbl c = None then - 1 else 0) n) (\<lambda>_.
          res_bind (Source (my_filterExprPredicate tbl) (Some n)) (\<lambda>x. Ok (Some x))))"

section \<open>Exact comparison\<close>

text \<open>
  A value as the helpers receive it, by its Go type, and the conversions they call: \<open>big.Rat\<close>'s from text and
  from a float, the float predicates of \<open>math\<close>, and the decimal library's, whose conversion of a float that is
  not finite panics. The expression language reports a panic or an error of a helper as its own error, \<open>None\<close>.
\<close>

datatype 'f goval =
    GoNil | GoBool bool | GoString string | GoInt64 int | GoInt int | GoFloat64 'f | GoDecimal rat | GoOther

record 'f num_ops =
  no_Rat_SetString :: "string \<Rightarrow> rat option"
  no_IsNaN :: "'f \<Rightarrow> bool"
  no_IsPosInf :: "'f \<Rightarrow> bool"
  no_IsNegInf :: "'f \<Rightarrow> bool"
  no_Rat_SetFloat64 :: "'f \<Rightarrow> rat"
  no_NewFromString :: "string \<Rightarrow> rat option"
  no_NewFromFloat :: "'f \<Rightarrow> rat option"

datatype pgNumeric = PgFinite rat | PgNegInf | PgPosInf | PgNaN

fun parsePgNumeric :: "'f num_ops \<Rightarrow> 'f goval \<Rightarrow> pgNumeric option" where
  "parsePgNumeric N (GoString t) =
     (let s = map lower_char (TrimSpace t)
      in if s = ''nan'' then Some PgNaN
         else if s \<in> {''infinity'', ''+infinity'', ''inf'', ''+inf''} then Some PgPosInf
         else if s \<in> {''-infinity'', ''-inf''} then Some PgNegInf
         else map_option PgFinite (no_Rat_SetString N t))"
| "parsePgNumeric N (GoInt64 i) = Some (PgFinite (of_int i))"
| "parsePgNumeric N (GoInt i) = Some (PgFinite (of_int i))"
| "parsePgNumeric N (GoFloat64 f) =
     Some (if no_IsNaN N f then PgNaN else if no_IsPosInf N f then PgPosInf else if no_IsNegInf N f then PgNegInf
           else PgFinite (no_Rat_SetFloat64 N f))"
| "parsePgNumeric N _ = None"

definition rat_Cmp :: "rat \<Rightarrow> rat \<Rightarrow> int" where
  "rat_Cmp p q = (if p < q then - 1 else if p = q then 0 else 1)"

fun is_finite :: "pgNumeric \<Rightarrow> bool" where
  "is_finite (PgFinite q) = True"
| "is_finite _ = False"

fun same_kind :: "pgNumeric \<Rightarrow> pgNumeric \<Rightarrow> bool" where
  "same_kind (PgFinite p) (PgFinite q) = True"
| "same_kind a b = (a = b)"

definition cmpPgNumeric :: "pgNumeric \<Rightarrow> pgNumeric \<Rightarrow> int" where
  "cmpPgNumeric a b =
     (if a = PgNaN \<or> b = PgNaN then (if a = PgNaN \<and> b = PgNaN then 0 else if a = PgNaN then 1 else - 1)
      else if \<not> same_kind a b then
        (if is_finite a then (if b = PgPosInf then - 1 else 1)
         else if is_finite b then (if a = PgPosInf then 1 else - 1)
         else if a = PgPosInf then 1 else - 1)
      else (case (a, b) of (PgFinite p, PgFinite q) \<Rightarrow> rat_Cmp p q | _ \<Rightarrow> 0))"

definition numericCompare :: "'f num_ops \<Rightarrow> 'f goval \<Rightarrow> 'f goval \<Rightarrow> int option" where
  "numericCompare N a b =
     Option.bind (parsePgNumeric N a) (\<lambda>av. Option.bind (parsePgNumeric N b) (\<lambda>bv. Some (cmpPgNumeric av bv)))"

fun toDecimal :: "'f num_ops \<Rightarrow> 'f goval \<Rightarrow> rat option" where
  "toDecimal N (GoDecimal d) = Some d"
| "toDecimal N (GoString t) = no_NewFromString N (TrimSpace t)"
| "toDecimal N (GoInt64 i) = Some (of_int i)"
| "toDecimal N (GoInt i) = Some (of_int i)"
| "toDecimal N (GoFloat64 f) = no_NewFromFloat N f"
| "toDecimal N _ = None"

definition decimalCompare :: "'f num_ops \<Rightarrow> 'f goval \<Rightarrow> 'f goval \<Rightarrow> int option" where
  "decimalCompare N a b =
     Option.bind (toDecimal N a) (\<lambda>av. Option.bind (toDecimal N b) (\<lambda>bv. Some (rat_Cmp av bv)))"

fun exact_compare :: "'f num_ops \<Rightarrow> exact_fn \<Rightarrow> 'f goval \<Rightarrow> 'f goval \<Rightarrow> int option" where
  "exact_compare N PgNumericCmp = numericCompare N"
| "exact_compare N MysqlDecimalCmp = decimalCompare N"

text \<open>The value a rendered literal has in the expression language, where an integer literal is an \<open>int\<close>.\<close>

fun fval_go :: "'f fval \<Rightarrow> 'f goval" where
  "fval_go VNil = GoNil"
| "fval_go (VBool b) = GoBool b"
| "fval_go (VFloat f) = GoFloat64 f"
| "fval_go (VInt64 i) = GoInt i"
| "fval_go (VInt i) = GoInt i"
| "fval_go (VStr t) = GoString t"
| "fval_go _ = GoOther"

fun lit_go :: "'f xlit \<Rightarrow> 'f goval" where
  "lit_go (Lit v) = fval_go v"
| "lit_go (LitLower v) = GoOther"

text \<open>
  The order Postgres documents for numbers: minus infinity, the finite ones by value, infinity, then NaN, which
  equals itself.
\<close>

fun pg_rank :: "pgNumeric \<Rightarrow> nat" where
  "pg_rank PgNegInf = 0"
| "pg_rank (PgFinite q) = 1"
| "pg_rank PgPosInf = 2"
| "pg_rank PgNaN = 3"

fun pg_less :: "pgNumeric \<Rightarrow> pgNumeric \<Rightarrow> bool" where
  "pg_less (PgFinite p) (PgFinite q) \<longleftrightarrow> p < q"
| "pg_less a b \<longleftrightarrow> pg_rank a < pg_rank b"

lemma cmpPgNumeric_order: "cmpPgNumeric a b < 0 \<longleftrightarrow> pg_less a b" "cmpPgNumeric a b = 0 \<longleftrightarrow> a = b"
  by (cases a; cases b; simp add: cmpPgNumeric_def rat_Cmp_def)+

lemma rat_Cmp_order: "rat_Cmp p q < 0 \<longleftrightarrow> p < q" "rat_Cmp p q = 0 \<longleftrightarrow> p = q"
  by (auto simp: rat_Cmp_def)

section \<open>Snapshot conditions\<close>

text \<open>MySQL: a condition with placeholders, by its tree; \<open>sql_text\<close> is its text and arguments.\<close>

datatype 'f sql =
    QAnd "'f sql list"
  | QOr "'f sql list"
  | QNot "'f sql"
  | QCmp string fop "'f fval"
  | QIn string "'f fval list"
  | QNotIn string "'f fval list"
  | QIsNull string
  | QNotNull string

definition filterPredicateSQL :: "'f predicate \<Rightarrow> (filter_err, 'f sql) res" where
  "filterPredicateSQL p =
     (let col = pr_Column p in
      if is_comparison (pr_Op p) then Ok (QCmp col (pr_Op p) (pr_Value p))
      else if pr_Op p = OpIn \<or> pr_Op p = OpNotIn then
        (case as_list (pr_Value p) of
           None \<Rightarrow> Err ListNeeded
         | Some vs \<Rightarrow> Ok (if pr_Op p = OpNotIn then QNotIn col vs else QIn col vs))
      else if pr_Op p = OpIsNull then Ok (QIsNull col)
      else if pr_Op p = OpIsNotNull then Ok (QNotNull col)
      else Err BadOperator)"

fun filterNodeSQL :: "'f filter_node \<Rightarrow> (filter_err, 'f sql) res"
and filterGroupSQL :: "'f filter_node list \<Rightarrow> (filter_err, 'f sql list) res" where
  "filterNodeSQL (FilterNode al an nt pr) =
     (if al \<noteq> [] then res_bind (filterGroupSQL al) (\<lambda>qs. Ok (QAnd qs))
      else if an \<noteq> [] then res_bind (filterGroupSQL an) (\<lambda>qs. Ok (QOr qs))
      else (case nt of
              Some n \<Rightarrow> res_bind (filterNodeSQL n) (\<lambda>q. Ok (QNot q))
            | None \<Rightarrow> (case pr of Some p \<Rightarrow> filterPredicateSQL p | None \<Rightarrow> Err NoShape)))"
| "filterGroupSQL [] = Ok []"
| "filterGroupSQL (n # ns) = res_bind (filterNodeSQL n) (\<lambda>q. res_bind (filterGroupSQL ns) (\<lambda>qs. Ok (q # qs)))"

definition compileFilterSQL :: "'f filter_node option \<Rightarrow> (filter_err, 'f sql option) res" where
  "compileFilterSQL f = (case f of None \<Rightarrow> Ok None | Some n \<Rightarrow> res_bind (filterNodeSQL n) (\<lambda>q. Ok (Some q)))"

definition quoteBacktick :: "string \<Rightarrow> string" where
  "quoteBacktick s = ''`'' @ concat (map (\<lambda>c. if c = CHR ''`'' then ''``'' else [c]) s) @ ''`''"

fun op_text :: "fop \<Rightarrow> string" where
  "op_text OpEq = '' = ?''"
| "op_text OpNeq = '' <> ?''"
| "op_text OpLt = '' < ?''"
| "op_text OpLte = '' <= ?''"
| "op_text OpGt = '' > ?''"
| "op_text OpGte = '' >= ?''"
| "op_text _ = []"

fun join_text :: "string \<Rightarrow> string list \<Rightarrow> string" where
  "join_text sep [] = []"
| "join_text sep [x] = x"
| "join_text sep (x # y # zs) = x @ sep @ join_text sep (y # zs)"

definition in_text :: "string \<Rightarrow> string \<Rightarrow> 'f fval list \<Rightarrow> string" where
  "in_text col op vs = quoteBacktick col @ op @ join_text '', '' (map (\<lambda>_. ''?'') vs) @ '')''"

fun sql_text :: "'f sql \<Rightarrow> string \<times> 'f fval list" where
  "sql_text (QAnd qs) =
     (join_text '' AND '' (map (\<lambda>q. ''('' @ fst (sql_text q) @ '')'') qs), concat (map (\<lambda>q. snd (sql_text q)) qs))"
| "sql_text (QOr qs) =
     (join_text '' OR '' (map (\<lambda>q. ''('' @ fst (sql_text q) @ '')'') qs), concat (map (\<lambda>q. snd (sql_text q)) qs))"
| "sql_text (QNot q) = (''NOT ('' @ fst (sql_text q) @ '')'', snd (sql_text q))"
| "sql_text (QCmp col op v) = (quoteBacktick col @ op_text op, [v])"
| "sql_text (QIn col vs) = (in_text col '' IN ('' vs, vs)"
| "sql_text (QNotIn col vs) = (in_text col '' NOT IN ('' vs, vs)"
| "sql_text (QIsNull col) = (quoteBacktick col @ '' IS NULL'', [])"
| "sql_text (QNotNull col) = (quoteBacktick col @ '' IS NOT NULL'', [])"

text \<open>Postgres: the conditions of a query builder.\<close>

record ('f, 'q) squirrel =
  sq_And :: "'q list \<Rightarrow> 'q"
  sq_Or :: "'q list \<Rightarrow> 'q"
  sq_NotExpr :: "'q \<Rightarrow> 'q"
  sq_Eq :: "string \<Rightarrow> 'f fval \<Rightarrow> 'q"
  sq_NotEq :: "string \<Rightarrow> 'f fval \<Rightarrow> 'q"
  sq_Lt :: "string \<Rightarrow> 'f fval \<Rightarrow> 'q"
  sq_LtOrEq :: "string \<Rightarrow> 'f fval \<Rightarrow> 'q"
  sq_Gt :: "string \<Rightarrow> 'f fval \<Rightarrow> 'q"
  sq_GtOrEq :: "string \<Rightarrow> 'f fval \<Rightarrow> 'q"

definition QuoteIdent :: "string \<Rightarrow> string" where
  "QuoteIdent s = [CHR 0x22] @ concat (map (\<lambda>c. if c = CHR 0x22 then [CHR 0x22, CHR 0x22] else [c]) s) @ [CHR 0x22]"

definition filterPredicateToSquirrel :: "('f, 'q) squirrel \<Rightarrow> 'f predicate \<Rightarrow> (filter_err, 'q) res" where
  "filterPredicateToSquirrel S p =
     (let col = QuoteIdent (pr_Column p); v = pr_Value p in
      case pr_Op p of
        OpEq \<Rightarrow> Ok (sq_Eq S col v)
      | OpNeq \<Rightarrow> Ok (sq_NotEq S col v)
      | OpLt \<Rightarrow> Ok (sq_Lt S col v)
      | OpLte \<Rightarrow> Ok (sq_LtOrEq S col v)
      | OpGt \<Rightarrow> Ok (sq_Gt S col v)
      | OpGte \<Rightarrow> Ok (sq_GtOrEq S col v)
      | OpIn \<Rightarrow> (case as_list v of None \<Rightarrow> Err ListNeeded | Some vs \<Rightarrow> Ok (sq_Eq S col (VList vs)))
      | OpNotIn \<Rightarrow> (case as_list v of None \<Rightarrow> Err ListNeeded | Some vs \<Rightarrow> Ok (sq_NotEq S col (VList vs)))
      | OpIsNull \<Rightarrow> Ok (sq_Eq S col VNil)
      | OpIsNotNull \<Rightarrow> Ok (sq_NotEq S col VNil)
      | OpUnknown s \<Rightarrow> Err BadOperator)"

fun filterNodeToSquirrel :: "('f, 'q) squirrel \<Rightarrow> 'f filter_node \<Rightarrow> (filter_err, 'q) res"
and filterGroupToSquirrel :: "('f, 'q) squirrel \<Rightarrow> 'f filter_node list \<Rightarrow> (filter_err, 'q list) res" where
  "filterNodeToSquirrel S (FilterNode al an nt pr) =
     (if al \<noteq> [] then res_bind (filterGroupToSquirrel S al) (\<lambda>qs. Ok (sq_And S qs))
      else if an \<noteq> [] then res_bind (filterGroupToSquirrel S an) (\<lambda>qs. Ok (sq_Or S qs))
      else (case nt of
              Some n \<Rightarrow> res_bind (filterNodeToSquirrel S n) (\<lambda>q. Ok (sq_NotExpr S q))
            | None \<Rightarrow> (case pr of Some p \<Rightarrow> filterPredicateToSquirrel S p | None \<Rightarrow> Err NoShape)))"
| "filterGroupToSquirrel S [] = Ok []"
| "filterGroupToSquirrel S (n # ns) =
     res_bind (filterNodeToSquirrel S n) (\<lambda>q. res_bind (filterGroupToSquirrel S ns) (\<lambda>qs. Ok (q # qs)))"

definition CompileFilter :: "('f, 'q) squirrel \<Rightarrow> 'f filter_node option \<Rightarrow> (filter_err, 'q option) res" where
  "CompileFilter S f = (case f of None \<Rightarrow> Ok None | Some n \<Rightarrow> res_bind (filterNodeToSquirrel S n) (\<lambda>q. Ok (Some q)))"

section \<open>Meaning\<close>

text \<open>Three-valued truth: \<open>None\<close> is unknown.\<close>

definition and3 :: "bool option list \<Rightarrow> bool option" where
  "and3 ts = (if Some False \<in> set ts then Some False else if None \<in> set ts then None else Some True)"

definition or3 :: "bool option list \<Rightarrow> bool option" where
  "or3 ts = (if Some True \<in> set ts then Some True else if None \<in> set ts then None else Some False)"

definition not3 :: "bool option \<Rightarrow> bool option" where
  "not3 t = map_option Not t"

fun op_holds :: "fop \<Rightarrow> int \<Rightarrow> bool" where
  "op_holds OpEq c \<longleftrightarrow> c = 0"
| "op_holds OpNeq c \<longleftrightarrow> c \<noteq> 0"
| "op_holds OpLt c \<longleftrightarrow> c < 0"
| "op_holds OpLte c \<longleftrightarrow> c \<le> 0"
| "op_holds OpGt c \<longleftrightarrow> c > 0"
| "op_holds OpGte c \<longleftrightarrow> c \<ge> 0"
| "op_holds _ c \<longleftrightarrow> False"

text \<open>A row gives each column's value, \<open>None\<close> for null; \<open>D c x v\<close> compares column \<open>c\<close>'s value \<open>x\<close> with the literal \<open>v\<close>.\<close>

type_synonym 'v trow = "string \<Rightarrow> 'v option"
type_synonym ('f, 'v) db_cmp = "string \<Rightarrow> 'v \<Rightarrow> 'f fval \<Rightarrow> int"

definition cmp3 :: "('f, 'v) db_cmp \<Rightarrow> 'v trow \<Rightarrow> string \<Rightarrow> fop \<Rightarrow> 'f fval \<Rightarrow> bool option" where
  "cmp3 D r c op v = (case r c of None \<Rightarrow> None | Some x \<Rightarrow> if v = VNil then None else Some (op_holds op (D c x v)))"

definition in3 :: "('f, 'v) db_cmp \<Rightarrow> 'v trow \<Rightarrow> string \<Rightarrow> 'f fval list \<Rightarrow> bool option" where
  "in3 D r c vs = or3 (map (cmp3 D r c OpEq) vs)"

fun sql_eval :: "('f, 'v) db_cmp \<Rightarrow> 'v trow \<Rightarrow> 'f sql \<Rightarrow> bool option" where
  "sql_eval D r (QAnd qs) = and3 (map (sql_eval D r) qs)"
| "sql_eval D r (QOr qs) = or3 (map (sql_eval D r) qs)"
| "sql_eval D r (QNot q) = not3 (sql_eval D r q)"
| "sql_eval D r (QCmp c op v) = cmp3 D r c op v"
| "sql_eval D r (QIn c vs) = in3 D r c vs"
| "sql_eval D r (QNotIn c vs) = not3 (in3 D r c vs)"
| "sql_eval D r (QIsNull c) = Some (r c = None)"
| "sql_eval D r (QNotNull c) = Some (r c \<noteq> None)"

text \<open>
  The expression language. The first two operations are its own: they compare a converted column value with a
  literal; \<open>None\<close> is a run time error. A null operand outside a guard is one. \<open>eo_dyn\<close> is a row's value as the
  registered helpers receive it.
\<close>

record ('f, 'v) expr_ops =
  eo_cmp :: "conv \<Rightarrow> 'v \<Rightarrow> 'f xlit \<Rightarrow> int option"
  eo_equal :: "conv \<Rightarrow> 'v \<Rightarrow> 'f xlit \<Rightarrow> bool"
  eo_dyn :: "'v \<Rightarrow> 'f goval"
  eo_num :: "'f num_ops"

fun x_eval :: "('f, 'v) expr_ops \<Rightarrow> 'v trow \<Rightarrow> 'f xexpr \<Rightarrow> bool option"
and x_all :: "('f, 'v) expr_ops \<Rightarrow> 'v trow \<Rightarrow> 'f xexpr list \<Rightarrow> bool option"
and x_any :: "('f, 'v) expr_ops \<Rightarrow> 'v trow \<Rightarrow> 'f xexpr list \<Rightarrow> bool option" where
  "x_eval E r (XAnd xs) = x_all E r xs"
| "x_eval E r (XOr xs) = x_any E r xs"
| "x_eval E r (XNot x) = map_option Not (x_eval E r x)"
| "x_eval E r (XEqNil c) = Some (r c = None)"
| "x_eval E r (XNeNil c) = Some (r c \<noteq> None)"
| "x_eval E r (XCmp cv c op l) = Option.bind (r c) (\<lambda>x. map_option (op_holds op) (eo_cmp E cv x l))"
| "x_eval E r (XIn cv c ls) = map_option (\<lambda>x. \<exists>l\<in>set ls. eo_equal E cv x l) (r c)"
| "x_eval E r (XExact fn c l op) =
     Option.bind (r c) (\<lambda>x. map_option (op_holds op) (exact_compare (eo_num E) fn (eo_dyn E x) (lit_go l)))"
| "x_eval E r XFalse = Some False"
| "x_all E r [] = Some True"
| "x_all E r (x # xs) = (case x_eval E r x of None \<Rightarrow> None | Some b \<Rightarrow> if b then x_all E r xs else Some False)"
| "x_any E r [] = Some False"
| "x_any E r (x # xs) = (case x_eval E r x of None \<Rightarrow> None | Some b \<Rightarrow> if b then Some True else x_any E r xs)"

text \<open>What a filter means, independently of the renderings.\<close>

definition leaf3 :: "('f, 'v) db_cmp \<Rightarrow> 'v trow \<Rightarrow> 'f predicate \<Rightarrow> bool option" where
  "leaf3 D r p =
     (let c = pr_Column p; v = pr_Value p in
      case pr_Op p of
        OpIsNull \<Rightarrow> Some (r c = None)
      | OpIsNotNull \<Rightarrow> Some (r c \<noteq> None)
      | OpIn \<Rightarrow> in3 D r c (case as_list v of Some vs \<Rightarrow> vs | None \<Rightarrow> [])
      | OpNotIn \<Rightarrow> not3 (in3 D r c (case as_list v of Some vs \<Rightarrow> vs | None \<Rightarrow> []))
      | OpUnknown s \<Rightarrow> None
      | op \<Rightarrow> cmp3 D r c op v)"

fun meaning :: "('f, 'v) db_cmp \<Rightarrow> 'v trow \<Rightarrow> 'f filter_node \<Rightarrow> bool option" where
  "meaning D r (FilterNode al an nt pr) =
     (if al \<noteq> [] then and3 (map (meaning D r) al)
      else if an \<noteq> [] then or3 (map (meaning D r) an)
      else (case nt of
              Some n \<Rightarrow> not3 (meaning D r n)
            | None \<Rightarrow> (case pr of Some p \<Rightarrow> leaf3 D r p | None \<Rightarrow> None)))"

lemma not3_simps [simp]: "not3 None = None" "not3 (Some b) = Some (\<not> b)"
  by (simp_all add: not3_def)

lemma not3_not3 [simp]: "not3 (not3 t) = t"
  by (cases t) simp_all

lemma not3_eq [simp]: "not3 t = Some b \<longleftrightarrow> t = Some (\<not> b)" "not3 t = None \<longleftrightarrow> t = None"
  by (cases t; auto)+

lemma Some_in_not3: "Some b \<in> not3 ` T \<longleftrightarrow> Some (\<not> b) \<in> T"
  by (metis imageE imageI not3_eq(1) not3_not3)

lemma None_in_not3: "None \<in> not3 ` T \<longleftrightarrow> None \<in> T"
  by (metis imageE imageI not3_eq(2))

lemma de_morgan3: "or3 (map not3 ts) = not3 (and3 ts)" "and3 (map not3 ts) = not3 (or3 ts)"
  by (simp_all add: or3_def and3_def Some_in_not3 None_in_not3)

lemma leaf3_Negate: "leaf3 D r (Predicate_Negate p) = not3 (leaf3 D r p)"
  by (cases "pr_Op p") (simp_all add: leaf3_def Predicate_Negate_def Let_def cmp3_def not_less not_le split: option.splits)

text \<open>Negation, pushed to the leaves, is three-valued negation.\<close>

lemma Negate_meaning:
  "Negate f = (Ok (Some g) :: ('e, 'f filter_node option) res) \<Longrightarrow> meaning D r g = not3 (meaning D r f)"
  "negate_members fs = (Ok gs :: ('e, 'f filter_node list) res) \<Longrightarrow> map (meaning D r) gs = map not3 (map (meaning D r) fs)"
proof (induction f and fs arbitrary: g and gs rule: Negate_negate_members.induct)
  case (1 al an nt pr)
  consider (al) out where "al \<noteq> []" "negate_members al = (Ok out :: ('e, 'f filter_node list) res)" "g = FilterNode [] out None None"
    | (an) out where "al = []" "an \<noteq> []" "negate_members an = (Ok out :: ('e, 'f filter_node list) res)" "g = FilterNode out [] None None"
    | (rest) "al = []" "an = []"
    using 1(3) by (auto simp: res_bind_Ok_conv split: if_splits)
  then show ?case
  proof cases
    case al
    with 1(1) have ih: "map (meaning D r) out = map not3 (map (meaning D r) al)" by blast
    then have "out \<noteq> []" using al(1) by auto
    with al ih show ?thesis by (simp only: meaning.simps de_morgan3 if_True if_False not_not simp_thms)
  next
    case an
    with 1(2) have ih: "map (meaning D r) out = map not3 (map (meaning D r) an)" by blast
    then have "out \<noteq> []" using an(2) by auto
    with an ih show ?thesis by (simp only: meaning.simps de_morgan3 if_True if_False not_not simp_thms)
  next
    case rest
    with 1(3) show ?thesis by (cases nt; cases pr) (auto simp: leaf3_Negate)
  qed
next
  case (3 n ns)
  then obtain m ms where "Negate n = (Ok (Some m) :: ('e, 'f filter_node option) res)" "negate_members ns = (Ok ms :: ('e, 'f filter_node list) res)"
    "gs = m # ms"
    by (auto simp: res_bind_Ok_conv split: option.splits)
  with 3(1) 3(2) show ?case by auto
qed simp

section \<open>The snapshot's conditions mean the filter\<close>

lemma filterPredicateSQL_meaning: "filterPredicateSQL p = Ok q \<Longrightarrow> sql_eval D r q = leaf3 D r p"
  by (cases "pr_Op p") (auto simp: filterPredicateSQL_def leaf3_def is_comparison_def Let_def split: option.splits)

lemma filterNodeSQL_meaning:
  "filterNodeSQL f = Ok q \<Longrightarrow> sql_eval D r q = meaning D r f"
  "filterGroupSQL fs = Ok qs \<Longrightarrow> map (sql_eval D r) qs = map (meaning D r) fs"
proof (induction f and fs arbitrary: q and qs rule: filterNodeSQL_filterGroupSQL.induct)
  case (1 al an nt pr)
  then show ?case
    by (cases nt) (auto simp: res_bind_Ok_conv filterPredicateSQL_meaning simp del: map_map split: if_splits option.splits)
qed (auto simp: res_bind_Ok_conv)

text \<open>The leaves a filter reads, and what the query builder documents of its conditions.\<close>

fun leaves :: "'f filter_node \<Rightarrow> 'f predicate set" where
  "leaves (FilterNode al an nt pr) =
     (if al \<noteq> [] then \<Union> (set (map leaves al))
      else if an \<noteq> [] then \<Union> (set (map leaves an))
      else (case nt of Some n \<Rightarrow> leaves n | None \<Rightarrow> (case pr of Some p \<Rightarrow> {p} | None \<Rightarrow> {})))"

definition scalar :: "'f fval \<Rightarrow> bool" where
  "scalar v \<longleftrightarrow> v \<noteq> VNil \<and> as_list v = None"

definition squirrel_ok :: "('f, 'q) squirrel \<Rightarrow> ('q \<Rightarrow> 'v trow \<Rightarrow> bool option) \<Rightarrow> ('f, 'v) db_cmp \<Rightarrow> bool" where
  "squirrel_ok S run D \<longleftrightarrow>
     (\<forall>qs r. qs \<noteq> [] \<longrightarrow> run (sq_And S qs) r = and3 (map (\<lambda>q. run q r) qs) \<and> run (sq_Or S qs) r = or3 (map (\<lambda>q. run q r) qs))
   \<and> (\<forall>q r. run (sq_NotExpr S q) r = not3 (run q r))
   \<and> (\<forall>c r. run (sq_Eq S (QuoteIdent c) VNil) r = Some (r c = None) \<and> run (sq_NotEq S (QuoteIdent c) VNil) r = Some (r c \<noteq> None))
   \<and> (\<forall>c vs r. vs \<noteq> [] \<longrightarrow> run (sq_Eq S (QuoteIdent c) (VList vs)) r = in3 D r c vs \<and>
        run (sq_NotEq S (QuoteIdent c) (VList vs)) r = not3 (in3 D r c vs))
   \<and> (\<forall>c v r. scalar v \<longrightarrow> run (sq_Eq S (QuoteIdent c) v) r = cmp3 D r c OpEq v \<and> run (sq_NotEq S (QuoteIdent c) v) r = cmp3 D r c OpNeq v
        \<and> run (sq_Lt S (QuoteIdent c) v) r = cmp3 D r c OpLt v \<and> run (sq_LtOrEq S (QuoteIdent c) v) r = cmp3 D r c OpLte v
        \<and> run (sq_Gt S (QuoteIdent c) v) r = cmp3 D r c OpGt v \<and> run (sq_GtOrEq S (QuoteIdent c) v) r = cmp3 D r c OpGte v)"

definition leaf_shaped :: "'f predicate \<Rightarrow> bool" where
  "leaf_shaped p \<longleftrightarrow> (is_comparison (pr_Op p) \<longrightarrow> scalar (pr_Value p)) \<and>
     (pr_Op p \<in> {OpIn, OpNotIn} \<longrightarrow> (\<exists>vs. pr_Value p = VList vs \<and> vs \<noteq> []))"

lemma squirrel_leaf:
  assumes "squirrel_ok S run D" "leaf_shaped p" "filterPredicateToSquirrel S p = Ok q"
  shows "run q r = leaf3 D r p"
  using assms
  by (cases "pr_Op p") (auto simp: squirrel_ok_def filterPredicateToSquirrel_def leaf3_def leaf_shaped_def is_comparison_def as_list_def Let_def)

lemma squirrel_meaning:
  "squirrel_ok S run D \<Longrightarrow> filterNodeToSquirrel S f = Ok q \<Longrightarrow> \<forall>p\<in>leaves f. leaf_shaped p \<Longrightarrow> run q r = meaning D r f"
  "squirrel_ok S run D \<Longrightarrow> filterGroupToSquirrel S fs = Ok qs \<Longrightarrow> \<forall>f\<in>set fs. \<forall>p\<in>leaves f. leaf_shaped p \<Longrightarrow>
     map (\<lambda>q. run q r) qs = map (meaning D r) fs"
proof (induction S f and S fs arbitrary: q and qs rule: filterNodeToSquirrel_filterGroupToSquirrel.induct)
  case (1 S al an nt pr)
  have grp: "run (sq_And S qs) r = and3 (map (\<lambda>q. run q r) qs)" "run (sq_Or S qs) r = or3 (map (\<lambda>q. run q r) qs)"
    if "qs \<noteq> []" for qs using 1(4) that by (simp_all add: squirrel_ok_def)
  have neg: "run (sq_NotExpr S n) r = not3 (run n r)" for n using 1(4) by (simp add: squirrel_ok_def)
  have ne: "qs \<noteq> []" if "map (\<lambda>q. run q r) qs = map (meaning D r) fs" "fs \<noteq> []" for qs fs
    using that by auto
  consider (al) qs where "al \<noteq> []" "filterGroupToSquirrel S al = Ok qs" "q = sq_And S qs"
    | (an) qs where "al = []" "an \<noteq> []" "filterGroupToSquirrel S an = Ok qs" "q = sq_Or S qs"
    | (rest) "al = []" "an = []"
    using 1(5) by (auto simp: res_bind_Ok_conv split: if_splits)
  then show ?case
  proof cases
    case al
    have "\<forall>f\<in>set al. \<forall>p\<in>leaves f. leaf_shaped p" using 1(6) al(1) by auto
    with 1(1) [OF al(1) 1(4) al(2)] have ih: "map (\<lambda>q. run q r) qs = map (meaning D r) al" by blast
    with al ne [OF ih] show ?thesis by (simp only: meaning.simps grp if_True simp_thms)
  next
    case an
    have "\<forall>f\<in>set an. \<forall>p\<in>leaves f. leaf_shaped p" using 1(6) an(1,2) by auto
    with 1(2) [OF _ an(2) 1(4) an(3)] an(1) have ih: "map (\<lambda>q. run q r) qs = map (meaning D r) an" by blast
    with an ne [OF ih] show ?thesis by (simp only: meaning.simps grp if_True if_False simp_thms)
  next
    case rest
    show ?thesis
    proof (cases nt)
      case None
      with rest 1(5,6) show ?thesis by (cases pr) (auto simp: squirrel_leaf [OF 1(4)])
    next
      case (Some n)
      with rest 1(5) obtain k where k: "filterNodeToSquirrel S n = Ok k" "q = sq_NotExpr S k" by (auto simp: res_bind_Ok_conv)
      moreover have "run k r = meaning D r n" using 1(3) [OF _ _ Some 1(4) k(1)] rest Some 1(6) by simp
      ultimately show ?thesis using rest Some by (simp add: neg)
    qed
  qed
qed (auto simp: res_bind_Ok_conv)

section \<open>The stream's expression means the filter\<close>

lemma Negate_leaves:
  assumes inv: "\<And>p. P p \<Longrightarrow> P (Predicate_Negate p)"
  shows "Negate f = (Ok (Some g) :: ('e, 'f filter_node option) res) \<Longrightarrow> \<forall>p\<in>leaves f. P p \<Longrightarrow> \<forall>p\<in>leaves g. P p"
    and "negate_members fs = (Ok gs :: ('e, 'f filter_node list) res) \<Longrightarrow> \<forall>f\<in>set fs. \<forall>p\<in>leaves f. P p \<Longrightarrow> \<forall>f\<in>set gs. \<forall>p\<in>leaves f. P p"
proof (induction f and fs arbitrary: g and gs rule: Negate_negate_members.induct)
  case (1 al an nt pr)
  consider (al) out where "al \<noteq> []" "negate_members al = (Ok out :: ('e, 'f filter_node list) res)" "g = FilterNode [] out None None"
    | (an) out where "al = []" "an \<noteq> []" "negate_members an = (Ok out :: ('e, 'f filter_node list) res)" "g = FilterNode out [] None None"
    | (rest) "al = []" "an = []"
    using 1(3) by (auto simp: res_bind_Ok_conv split: if_splits)
  then show ?case
  proof cases
    case al
    have "\<forall>f\<in>set out. \<forall>p\<in>leaves f. P p" using 1(1) [OF al(1,2)] 1(4) al(1) by auto
    with al(3) show ?thesis by auto
  next
    case an
    have "\<forall>f\<in>set out. \<forall>p\<in>leaves f. P p" using 1(2) [OF _ an(2,3)] 1(4) an(1,2) by auto
    with an(4) show ?thesis by auto
  next
    case rest
    with 1(3,4) show ?thesis by (cases nt; cases pr) (auto intro: inv)
  qed
next
  case (3 n ns)
  then obtain m ms where "Negate n = (Ok (Some m) :: ('e, 'f filter_node option) res)" "negate_members ns = (Ok ms :: ('e, 'f filter_node list) res)"
    "gs = m # ms"
    by (auto simp: res_bind_Ok_conv split: option.splits)
  with 3(1) 3(2) 3(4) show ?case by auto
qed simp

text \<open>Short-circuit evaluation of members that have a value.\<close>

lemma x_all_values: "(\<And>x. x \<in> set xs \<Longrightarrow> x_eval E r x = Some (f x)) \<Longrightarrow> x_all E r xs = Some (\<forall>x\<in>set xs. f x)"
  by (induction xs) auto

lemma x_any_values: "(\<And>x. x \<in> set xs \<Longrightarrow> x_eval E r x = Some (f x)) \<Longrightarrow> x_any E r xs = Some (\<exists>x\<in>set xs. f x)"
  by (induction xs) auto

lemma and3_true: "and3 ts = Some True \<longleftrightarrow> (\<forall>t\<in>set ts. t = Some True)"
  by (auto simp: and3_def) (metis (full_types) option.exhaust)

lemma or3_true: "or3 ts = Some True \<longleftrightarrow> Some True \<in> set ts"
  by (simp add: or3_def)

lemma x_all_map: "map (x_eval E r) xs = map (\<lambda>n. Some (g n = Some True)) ns \<Longrightarrow> x_all E r xs = Some (and3 (map g ns) = Some True)"
  by (induction xs arbitrary: ns) (auto simp: and3_true Cons_eq_map_conv)

lemma x_any_map: "map (x_eval E r) xs = map (\<lambda>n. Some (g n = Some True)) ns \<Longrightarrow> x_any E r xs = Some (or3 (map g ns) = Some True)"
  by (induction xs arbitrary: ns) (auto simp: or3_true Cons_eq_map_conv)

text \<open>A rendering whose leaves mean theirs means the filter.\<close>

lemma Source_meaning:
  "Source b fo = Ok x \<Longrightarrow> fo = Some f \<Longrightarrow> (\<forall>p. P p \<longrightarrow> P (Predicate_Negate p)) \<Longrightarrow>
     (\<forall>p y. P p \<longrightarrow> b p = Ok y \<longrightarrow> x_eval E r y = Some (leaf3 D r p = Some True)) \<Longrightarrow>
     \<forall>p\<in>leaves f. P p \<Longrightarrow> x_eval E r x = Some (meaning D r f = Some True)"
  "group b fs = Ok xs \<Longrightarrow> (\<forall>p. P p \<longrightarrow> P (Predicate_Negate p)) \<Longrightarrow>
     (\<forall>p y. P p \<longrightarrow> b p = Ok y \<longrightarrow> x_eval E r y = Some (leaf3 D r p = Some True)) \<Longrightarrow>
     \<forall>f\<in>set fs. \<forall>p\<in>leaves f. P p \<Longrightarrow> map (x_eval E r) xs = map (\<lambda>f. Some (meaning D r f = Some True)) fs"
proof (induction b fo and b fs arbitrary: x f and xs rule: Source_group.induct)
  case (2 b al an nt pr)
  note inv = "2.prems"(3) and leaf = "2.prems"(4)
  have f: "f = FilterNode al an nt pr" using "2.prems"(2) by simp
  consider (al) xs where "al \<noteq> []" "group b al = Ok xs" "x = XAnd xs"
    | (an) xs where "al = []" "an \<noteq> []" "group b an = Ok xs" "x = XOr xs"
    | (nt) n m where "al = []" "an = []" "nt = Some n" "Negate n = (Ok m :: (filter_err, 'a filter_node option) res)" "Source b m = Ok x"
    | (pr) p where "al = []" "an = []" "nt = None" "pr = Some p" "b p = Ok x"
    using "2.prems"(1) by (auto split: if_splits option.splits res.splits)
  then show ?case
  proof cases
    case al
    have "\<forall>f\<in>set al. \<forall>p\<in>leaves f. P p" using "2.prems"(5) al(1) unfolding f by auto
    from x_all_map [OF "2.IH"(1) [OF al(1,2) inv leaf this]] al show ?thesis unfolding f by simp
  next
    case an
    have "\<forall>f\<in>set an. \<forall>p\<in>leaves f. P p" using "2.prems"(5) an(1,2) unfolding f by auto
    from x_any_map [OF "2.IH"(2) [OF _ an(2,3) inv leaf this]] an show ?thesis unfolding f by simp
  next
    case nt
    obtain g where g: "m = Some g" using nt(5) by (cases m) auto
    have "\<forall>p\<in>leaves n. P p" using "2.prems"(5) nt(1-3) unfolding f by simp
    with Negate_leaves(1) [of P n g] inv nt(4) g have "\<forall>p\<in>leaves g. P p" by blast
    from "2.IH"(3) [OF _ _ nt(3,4,5) g inv leaf this] nt(1,2) have "x_eval E r x = Some (meaning D r g = Some True)" by simp
    moreover have "meaning D r g = not3 (meaning D r n)" using Negate_meaning(1) nt(4) g by blast
    ultimately show ?thesis using nt(1-3) unfolding f by simp
  next
    case pr
    with "2.prems"(5) leaf show ?thesis unfolding f by simp
  qed
next
  case (4 b n ns)
  obtain y ys where y: "Source b (Some n) = Ok y" "group b ns = Ok ys" "xs = y # ys"
    using "4.prems"(1) by (auto split: res.splits)
  have "x_eval E r y = Some (meaning D r n = Some True)"
    using "4.IH"(1) [OF y(1) refl "4.prems"(2,3)] "4.prems"(4) by simp
  moreover have "map (x_eval E r) ys = map (\<lambda>f. Some (meaning D r f = Some True)) ns"
    using "4.IH"(2) [OF y(1,2) "4.prems"(2,3)] "4.prems"(4) by simp
  ultimately show ?case by (simp add: y(3))
qed simp_all

subsection \<open>Leaves\<close>

definition pred_values :: "'f predicate \<Rightarrow> 'f fval list" where
  "pred_values p = (case as_list (pr_Value p) of Some vs \<Rightarrow> vs | None \<Rightarrow> [pr_Value p])"

text \<open>
  What is relied on of the expression language and the database, on a leaf the language compares itself: for the
  row's value and the leaf's literals the language's comparison has a result, of the sign the database's has,
  and its membership test finds the literals the database finds equal. On a case-insensitive column this is a
  statement about the lower-cased values, so it excludes values only an accent-insensitive collation equates.
\<close>

definition plain_agree :: "('f, 'v) expr_ops \<Rightarrow> ('f, 'v) db_cmp \<Rightarrow> 'v trow \<Rightarrow> conv \<Rightarrow> ('f fval \<Rightarrow> (filter_err, 'f xlit) res) \<Rightarrow> 'f predicate \<Rightarrow> bool" where
  "plain_agree E D r cv lit p \<longleftrightarrow>
     (\<forall>x v l. r (pr_Column p) = Some x \<longrightarrow> v \<in> set (pred_values p) \<longrightarrow> lit v = Ok l \<longrightarrow>
        (\<exists>n. eo_cmp E cv x l = Some n \<and> sgn n = sgn (D (pr_Column p) x v)) \<and> (eo_equal E cv x l \<longleftrightarrow> D (pr_Column p) x v = 0))"

text \<open>
  What is relied on of the database alone, on a leaf compared by a helper: the row's value and the literals are
  numbers, and the database orders them as it documents, a Postgres number with the infinities and NaN, a
  MySQL decimal by its value.
\<close>

definition pg_orders :: "('f, 'v) expr_ops \<Rightarrow> ('f, 'v) db_cmp \<Rightarrow> 'v trow \<Rightarrow> 'f predicate \<Rightarrow> bool" where
  "pg_orders E D r p \<longleftrightarrow>
     (\<forall>x v. r (pr_Column p) = Some x \<longrightarrow> v \<in> set (pred_values p) \<longrightarrow>
        (\<exists>a b. parsePgNumeric (eo_num E) (eo_dyn E x) = Some a \<and> parsePgNumeric (eo_num E) (fval_go v) = Some b
          \<and> (D (pr_Column p) x v < 0 \<longleftrightarrow> pg_less a b) \<and> (D (pr_Column p) x v = 0 \<longleftrightarrow> a = b)))"

definition my_orders :: "('f, 'v) expr_ops \<Rightarrow> ('f, 'v) db_cmp \<Rightarrow> 'v trow \<Rightarrow> 'f predicate \<Rightarrow> bool" where
  "my_orders E D r p \<longleftrightarrow>
     (\<forall>x v. r (pr_Column p) = Some x \<longrightarrow> v \<in> set (pred_values p) \<longrightarrow>
        (\<exists>a b. toDecimal (eo_num E) (eo_dyn E x) = Some a \<and> toDecimal (eo_num E) (fval_go v) = Some b
          \<and> (D (pr_Column p) x v < 0 \<longleftrightarrow> a < b) \<and> (D (pr_Column p) x v = 0 \<longleftrightarrow> a = b)))"

definition exact_agree :: "exact_fn \<Rightarrow> ('f, 'v) expr_ops \<Rightarrow> ('f, 'v) db_cmp \<Rightarrow> 'v trow \<Rightarrow> 'f predicate \<Rightarrow> bool" where
  "exact_agree fn E D r p \<longleftrightarrow>
     (\<forall>x v l. r (pr_Column p) = Some x \<longrightarrow> v \<in> set (pred_values p) \<longrightarrow> Literal v = Ok l \<longrightarrow>
        (\<exists>n. exact_compare (eo_num E) fn (eo_dyn E x) (lit_go l) = Some n \<and> sgn n = sgn (D (pr_Column p) x v)))"

lemma sgn_eqI: "(m < 0 \<longleftrightarrow> n < 0) \<Longrightarrow> (m = 0 \<longleftrightarrow> n = 0) \<Longrightarrow> sgn m = sgn (n :: int)"
  by (auto simp: sgn_if)

lemma Literal_scalar: "Literal v = Ok l \<Longrightarrow> as_list v = None \<and> l = Lit v"
  by (cases v) (auto simp: as_list_def)

text \<open>The helpers order numbers as the databases do.\<close>

lemma pg_orders_agree:
  assumes "pg_orders E D r p"
  shows "exact_agree PgNumericCmp E D r p"
  unfolding exact_agree_def
proof (intro allI impI)
  fix x v l
  assume x: "r (pr_Column p) = Some x" and v: "v \<in> set (pred_values p)" and l: "Literal v = Ok l"
  from assms x v obtain a b where ab: "parsePgNumeric (eo_num E) (eo_dyn E x) = Some a"
    "parsePgNumeric (eo_num E) (fval_go v) = Some b"
    "D (pr_Column p) x v < 0 \<longleftrightarrow> pg_less a b" "D (pr_Column p) x v = 0 \<longleftrightarrow> a = b"
    unfolding pg_orders_def by blast
  have "sgn (cmpPgNumeric a b) = sgn (D (pr_Column p) x v)"
    by (rule sgn_eqI) (use ab(3,4) cmpPgNumeric_order in simp_all)
  with ab(1,2) Literal_scalar [OF l]
  show "\<exists>n. exact_compare (eo_num E) PgNumericCmp (eo_dyn E x) (lit_go l) = Some n \<and> sgn n = sgn (D (pr_Column p) x v)"
    by (simp add: numericCompare_def)
qed

lemma my_orders_agree:
  assumes "my_orders E D r p"
  shows "exact_agree MysqlDecimalCmp E D r p"
  unfolding exact_agree_def
proof (intro allI impI)
  fix x v l
  assume x: "r (pr_Column p) = Some x" and v: "v \<in> set (pred_values p)" and l: "Literal v = Ok l"
  from assms x v obtain a b where ab: "toDecimal (eo_num E) (eo_dyn E x) = Some a"
    "toDecimal (eo_num E) (fval_go v) = Some b"
    "D (pr_Column p) x v < 0 \<longleftrightarrow> a < b" "D (pr_Column p) x v = 0 \<longleftrightarrow> a = b"
    unfolding my_orders_def by blast
  have "sgn (rat_Cmp a b) = sgn (D (pr_Column p) x v)"
    by (rule sgn_eqI) (use ab(3,4) rat_Cmp_order in simp_all)
  with ab(1,2) Literal_scalar [OF l]
  show "\<exists>n. exact_compare (eo_num E) MysqlDecimalCmp (eo_dyn E x) (lit_go l) = Some n \<and> sgn n = sgn (D (pr_Column p) x v)"
    by (simp add: decimalCompare_def)
qed

lemma op_holds_sgn: "sgn m = sgn n \<Longrightarrow> op_holds op m = op_holds op (n :: int)"
  by (cases op) (auto simp: sgn_if split: if_splits)

lemma literals_all2: "literals lit vs = Ok ls \<Longrightarrow> list_all2 (\<lambda>v l. lit v = Ok l) vs ls"
  by (induction vs arbitrary: ls) (auto simp: res_bind_Ok_conv)

lemma in3_value:
  assumes "r c = Some x" "VNil \<notin> set vs"
  shows "in3 D r c vs = Some (\<exists>v\<in>set vs. D c x v = 0)"
  using assms by (auto simp: in3_def or3_def cmp3_def image_iff split: if_splits)

lemma in3_null: "r c = None \<Longrightarrow> vs \<noteq> [] \<Longrightarrow> in3 D r c vs = None"
  by (cases vs) (auto simp: in3_def or3_def cmp3_def)

lemma list_all2_ex:
  assumes "list_all2 (\<lambda>v l. R v l) vs ls" "\<And>v l. v \<in> set vs \<Longrightarrow> R v l \<Longrightarrow> Q l \<longleftrightarrow> S v"
  shows "(\<exists>l\<in>set ls. Q l) \<longleftrightarrow> (\<exists>v\<in>set vs. S v)"
  using assms by (induction rule: list_all2_induct) auto

lemma guarded_eval: "x_eval E r (guarded c x) = (if r c = None then Some False else x_eval E r x)"
  by (auto simp: guarded_def split: option.splits)

text \<open>Within one leaf, \<open>leaf_fine\<close>: literals are not null, and a list is not empty.\<close>

definition leaf_fine :: "'f predicate \<Rightarrow> bool" where
  "leaf_fine p \<longleftrightarrow> pr_Op p \<in> {OpIsNull, OpIsNotNull} \<or> (VNil \<notin> set (pred_values p) \<and> pred_values p \<noteq> [])"

lemma leaf_comparison:
  assumes "is_comparison (pr_Op p)"
  shows "leaf3 D r p = cmp3 D r (pr_Column p) (pr_Op p) (pr_Value p)"
  using assms by (cases "pr_Op p") (auto simp: is_comparison_def leaf3_def)

lemma leaf_member:
  assumes "pr_Op p = OpIn \<or> pr_Op p = OpNotIn" "as_list (pr_Value p) = Some vs" "leaf_fine p"
  shows "(leaf3 D r p = Some True) \<longleftrightarrow>
    (\<exists>x. r (pr_Column p) = Some x \<and> ((\<exists>v\<in>set vs. D (pr_Column p) x v = 0) \<longleftrightarrow> pr_Op p = OpIn))"
proof -
  have vs: "VNil \<notin> set vs" "vs \<noteq> []" using assms by (auto simp: leaf_fine_def pred_values_def)
  show ?thesis using assms(1,2) in3_value [of r "pr_Column p" _ vs D] in3_null [of r "pr_Column p" vs D] vs
    by (cases "r (pr_Column p)") (auto simp: leaf3_def Let_def)
qed

text \<open>A comparison leaf, given the comparison's result for the row's value.\<close>

lemma comparison_meaning:
  assumes "is_comparison (pr_Op p)" "leaf_fine p" "as_list (pr_Value p) = None"
    and "\<And>x. r (pr_Column p) = Some x \<Longrightarrow> \<exists>n. x_eval E r y = Some (op_holds (pr_Op p) n) \<and> sgn n = sgn (D (pr_Column p) x (pr_Value p))"
  shows "x_eval E r (guarded (pr_Column p) y) = Some (leaf3 D r p = Some True)"
proof (cases "r (pr_Column p)")
  case None
  with assms(1) show ?thesis by (simp add: guarded_eval leaf_comparison cmp3_def)
next
  case (Some x)
  have "pr_Value p \<noteq> VNil" using assms(1,2,3) by (auto simp: leaf_fine_def is_comparison_def pred_values_def)
  moreover obtain n where "x_eval E r y = Some (op_holds (pr_Op p) n)" "sgn n = sgn (D (pr_Column p) x (pr_Value p))"
    using assms(4) [OF Some] by blast
  ultimately show ?thesis using Some assms(1) op_holds_sgn [of n "D (pr_Column p) x (pr_Value p)" "pr_Op p"]
    by (simp add: guarded_eval leaf_comparison cmp3_def)
qed

lemma plain_leaf_meaning:
  assumes "plain_leaf cv lit p = Ok y" "leaf_fine p" "plain_agree E D r cv lit p"
    and lit: "\<And>v l. lit v = Ok l \<Longrightarrow> as_list v = None"
  shows "x_eval E r y = Some (leaf3 D r p = Some True)"
proof (cases "is_comparison (pr_Op p)")
  case True
  then obtain l where l: "lit (pr_Value p) = Ok l" "y = guarded (pr_Column p) (XCmp cv (pr_Column p) (pr_Op p) l)"
    using assms(1) by (auto simp: plain_leaf_def res_bind_Ok_conv)
  have "pr_Value p \<in> set (pred_values p)" using lit [OF l(1)] by (simp add: pred_values_def)
  then have "\<exists>n. x_eval E r (XCmp cv (pr_Column p) (pr_Op p) l) = Some (op_holds (pr_Op p) n) \<and> sgn n = sgn (D (pr_Column p) x (pr_Value p))"
    if "r (pr_Column p) = Some x" for x
    using assms(3) that l(1) by (fastforce simp: plain_agree_def)
  then show ?thesis unfolding l(2) by (intro comparison_meaning True assms(2) lit [OF l(1)])
next
  case False
  then obtain vs ls where op: "pr_Op p = OpIn \<or> pr_Op p = OpNotIn" "as_list (pr_Value p) = Some vs" "literals lit vs = Ok ls"
    "y = guarded (pr_Column p) (if pr_Op p = OpNotIn then XNot (XIn cv (pr_Column p) ls) else XIn cv (pr_Column p) ls)"
    using assms(1) by (auto simp: plain_leaf_def res_bind_Ok_conv Let_def split: if_splits option.splits)
  have "(\<exists>l\<in>set ls. eo_equal E cv x l) \<longleftrightarrow> (\<exists>v\<in>set vs. D (pr_Column p) x v = 0)" if "r (pr_Column p) = Some x" for x
    using assms(3) op(2) that by (intro list_all2_ex [OF literals_all2 [OF op(3)]]) (auto simp: plain_agree_def pred_values_def)
  with op(1) show ?thesis unfolding op(4) leaf_member [OF op(1,2) assms(2)]
    by (cases "r (pr_Column p)") (auto simp: guarded_eval)
qed

lemma exact_leaf_meaning:
  assumes "exact_leaf fn p = Ok y" "leaf_fine p" "exact_agree fn E D r p"
  shows "x_eval E r y = Some (leaf3 D r p = Some True)"
proof (cases "is_comparison (pr_Op p)")
  case True
  then obtain l where l: "Literal (pr_Value p) = Ok l" "y = guarded (pr_Column p) (XExact fn (pr_Column p) l (pr_Op p))"
    using assms(1) by (auto simp: exact_leaf_def res_bind_Ok_conv)
  have "as_list (pr_Value p) = None" using Literal_scalar [OF l(1)] by simp
  moreover have "\<exists>n. x_eval E r (XExact fn (pr_Column p) l (pr_Op p)) = Some (op_holds (pr_Op p) n) \<and> sgn n = sgn (D (pr_Column p) x (pr_Value p))"
    if "r (pr_Column p) = Some x" for x
    using assms(3) that l(1) calculation by (fastforce simp: exact_agree_def pred_values_def)
  ultimately show ?thesis unfolding l(2) by (intro comparison_meaning True assms(2))
next
  case False
  then obtain vs ls where op: "pr_Op p = OpIn \<or> pr_Op p = OpNotIn" "as_list (pr_Value p) = Some vs" "literals Literal vs = Ok ls"
    "y = guarded (pr_Column p) (if pr_Op p = OpNotIn then XNot (if ls = [] then XFalse else XOr (map (\<lambda>l. XExact fn (pr_Column p) l OpEq) ls))
         else (if ls = [] then XFalse else XOr (map (\<lambda>l. XExact fn (pr_Column p) l OpEq) ls)))"
    using assms(1) by (auto simp: exact_leaf_def res_bind_Ok_conv Let_def split: if_splits option.splits)
  have inner: "x_eval E r (if ls = [] then XFalse else XOr (map (\<lambda>l. XExact fn (pr_Column p) l OpEq) ls))
      = Some (\<exists>v\<in>set vs. D (pr_Column p) x v = 0)" if x: "r (pr_Column p) = Some x" for x
  proof -
    have e: "\<exists>n. exact_compare (eo_num E) fn (eo_dyn E x) (lit_go l) = Some n \<and> (n = 0 \<longleftrightarrow> D (pr_Column p) x v = 0)" if "v \<in> set vs" "Literal v = Ok l" for v l
      using assms(3) op(2) that x by (fastforce simp: exact_agree_def pred_values_def sgn_0_0)
    from literals_all2 [OF op(3)] have "x_any E r (map (\<lambda>l. XExact fn (pr_Column p) l OpEq) ls) = Some (\<exists>v\<in>set vs. D (pr_Column p) x v = 0)"
      using e by (induction rule: list_all2_induct) (fastforce simp: x)+
    then show ?thesis by (cases ls) auto
  qed
  show ?thesis unfolding op(4) leaf_member [OF op(1,2) assms(2)] using op(1) inner
    by (cases "r (pr_Column p)") (auto simp: guarded_eval simp del: x_eval.simps(2))
qed

subsection \<open>Validated filters\<close>

text \<open>\<open>clean\<close>: a list holds no null, and a comparison no list.\<close>

definition clean :: "'f predicate \<Rightarrow> bool" where
  "clean p \<longleftrightarrow> (pr_Op p \<in> {OpIn, OpNotIn} \<longrightarrow> VNil \<notin> set (pred_values p)) \<and> (is_comparison (pr_Op p) \<longrightarrow> as_list (pr_Value p) = None)"

definition pg_agree :: "table_state \<Rightarrow> ('f, 'v) expr_ops \<Rightarrow> ('f, 'v) db_cmp \<Rightarrow> 'v trow \<Rightarrow> 'f predicate \<Rightarrow> bool" where
  "pg_agree st E D r p =
     (if columnIsPgNumeric st (pr_Column p) then pg_orders E D r p
      else plain_agree E D r (if columnIsInteger st (pr_Column p) then ConvFloat else ConvRaw) Literal p)"

definition my_agree :: "my_table \<Rightarrow> ('f, 'v) expr_ops \<Rightarrow> ('f, 'v) db_cmp \<Rightarrow> 'v trow \<Rightarrow> 'f predicate \<Rightarrow> bool" where
  "my_agree tbl E D r p =
     (if columnIsDecimal tbl (pr_Column p) then my_orders E D r p
      else plain_agree E D r (if columnIsNumeric tbl (pr_Column p) then ConvFloat
             else if columnIsCaseInsensitive tbl (pr_Column p) then ConvLower else ConvRaw) (my_literal tbl (pr_Column p)) p)"

lemma validate_leaves:
  "validateFilter f path = [] \<Longrightarrow> p \<in> leaves f \<Longrightarrow> \<exists>path. validatePredicate p path = []"
  "validate_members fs path kind i = [] \<Longrightarrow> p \<in> \<Union> (leaves ` set fs) \<Longrightarrow> \<exists>path. validatePredicate p path = []"
proof (induction f path and fs path kind i rule: validateFilter_validate_members.induct)
  case (1 al an nt pr path)
  then show ?case by (cases nt; cases pr) (auto split: if_splits)
qed auto

lemma validated_leaf:
  assumes "validatePredicate p path = []" "clean p"
  shows "leaf_fine p" "leaf_shaped p"
  using assms
  by (cases "pr_Op p"; auto simp: validatePredicate_def clean_def leaf_fine_def leaf_shaped_def is_comparison_def scalar_def pred_values_def
        as_list_def split: if_splits fval.splits)+

lemma Negate_fields [simp]:
  "pr_Column (Predicate_Negate p) = pr_Column p" "pr_Op (Predicate_Negate p) = op_Negate (pr_Op p)" "pred_values (Predicate_Negate p) = pred_values p"
  by (simp_all add: Predicate_Negate_def pred_values_def split: option.splits)

lemma leaf_fine_Negate [simp]: "leaf_fine (Predicate_Negate p) = leaf_fine p"
  by (cases "pr_Op p") (simp_all add: leaf_fine_def)

lemma agree_Negate [simp]:
  "plain_agree E D r cv lit (Predicate_Negate p) = plain_agree E D r cv lit p"
  "pg_orders E D r (Predicate_Negate p) = pg_orders E D r p"
  "my_orders E D r (Predicate_Negate p) = my_orders E D r p"
  by (simp_all add: plain_agree_def pg_orders_def my_orders_def)

lemma source_agree_Negate [simp]:
  "pg_agree st E D r (Predicate_Negate p) = pg_agree st E D r p" "my_agree tbl E D r (Predicate_Negate p) = my_agree tbl E D r p"
  by (simp_all add: pg_agree_def my_agree_def)

lemma null_leaf:
  "pr_Op p = OpIsNull \<Longrightarrow> leaf3 D r p = Some (r (pr_Column p) = None)"
  "pr_Op p = OpIsNotNull \<Longrightarrow> leaf3 D r p = Some (r (pr_Column p) \<noteq> None)"
  by (simp_all add: leaf3_def)

lemma leaf_meaning:
  assumes "(if pr_Op p = OpIsNull then Ok (XEqNil (pr_Column p)) else if pr_Op p = OpIsNotNull then Ok (XNeNil (pr_Column p))
      else if ex then exact_leaf fn p else plain_leaf cv lit p) = Ok y"
    and fine: "leaf_fine p" and agree: "if ex then exact_agree fn E D r p else plain_agree E D r cv lit p"
    and lit: "\<And>v l. lit v = Ok l \<Longrightarrow> as_list v = None"
  shows "x_eval E r y = Some (leaf3 D r p = Some True)"
proof (cases "pr_Op p = OpIsNull \<or> pr_Op p = OpIsNotNull")
  case True
  then show ?thesis using assms(1) by (auto simp: null_leaf)
next
  case False
  show ?thesis
  proof (cases ex)
    case True
    then have "exact_leaf fn p = Ok y" "exact_agree fn E D r p" using assms(1) agree False by simp_all
    then show ?thesis by (rule exact_leaf_meaning [OF _ fine])
  next
    case nex: False
    then have "plain_leaf cv lit p = Ok y" "plain_agree E D r cv lit p" using assms(1) agree False by simp_all
    then show ?thesis by (rule plain_leaf_meaning [OF _ fine]) (rule lit)
  qed
qed

lemma pg_leaf_meaning:
  assumes "pg_filterExprPredicate st p = Ok y" "leaf_fine p" "pg_agree st E D r p"
  shows "x_eval E r y = Some (leaf3 D r p = Some True)"
proof -
  have "if columnIsPgNumeric st (pr_Column p) then exact_agree PgNumericCmp E D r p
      else plain_agree E D r (if columnIsInteger st (pr_Column p) then ConvFloat else ConvRaw) Literal p"
    using assms(3) pg_orders_agree unfolding pg_agree_def by metis
  from leaf_meaning [OF assms(1) [unfolded pg_filterExprPredicate_def filterExprPgNumeric_def] assms(2) this]
  show ?thesis using Literal_scalar by blast
qed

lemma my_literal_scalar: "my_literal tbl c v = Ok l \<Longrightarrow> as_list v = None"
  by (auto simp: my_literal_def res_bind_Ok_conv dest: Literal_scalar)

lemma my_leaf_meaning:
  assumes "my_filterExprPredicate tbl p = Ok y" "leaf_fine p" "my_agree tbl E D r p"
  shows "x_eval E r y = Some (leaf3 D r p = Some True)"
proof -
  have "if columnIsDecimal tbl (pr_Column p) then exact_agree MysqlDecimalCmp E D r p
      else plain_agree E D r (if columnIsNumeric tbl (pr_Column p) then ConvFloat
             else if columnIsCaseInsensitive tbl (pr_Column p) then ConvLower else ConvRaw) (my_literal tbl (pr_Column p)) p"
    using assms(3) my_orders_agree unfolding my_agree_def by metis
  from leaf_meaning [OF assms(1) [unfolded my_filterExprPredicate_def Let_def filterExprDecimal_def] assms(2) this]
  show ?thesis using my_literal_scalar by blast
qed

section \<open>Properties\<close>


text \<open>A concrete instance: whole numbers, compared as such, and a builder of functions.\<close>

fun undouble :: "char \<Rightarrow> string \<Rightarrow> string" where
  "undouble q [] = []"
| "undouble q [a] = [a]"
| "undouble q (a # b # cs) = (if a = q \<and> b = q then q # undouble q cs else a # undouble q (b # cs))"

definition unquote :: "string \<Rightarrow> string" where
  "unquote t = undouble (CHR 0x22) (butlast (tl t))"

lemma undouble_plain: "c \<noteq> q \<Longrightarrow> undouble q (c # cs) = c # undouble q cs"
  by (cases cs) auto

lemma undouble_doubled: "undouble q (concat (map (\<lambda>c. if c = q then [q, q] else [c]) s)) = s"
  by (induction s) (auto simp: undouble_plain)

lemma unquote_QuoteIdent: "unquote (QuoteIdent s) = s"
  by (simp add: unquote_def QuoteIdent_def butlast_append undouble_doubled)

fun whole :: "int fval \<Rightarrow> int" where
  "whole (VFloat n) = n"
| "whole (VInt n) = n"
| "whole (VInt64 n) = n"
| "whole _ = 0"

fun lit_value :: "int xlit \<Rightarrow> int fval" where
  "lit_value (Lit v) = v"
| "lit_value (LitLower v) = v"

definition whole_cmp :: "(int, int) db_cmp" where
  "whole_cmp c x v = x - whole v"

definition whole_nums :: "int num_ops" where
  "whole_nums = \<lparr>no_Rat_SetString = (\<lambda>t. None), no_IsNaN = (\<lambda>f. False), no_IsPosInf = (\<lambda>f. False), no_IsNegInf = (\<lambda>f. False),
     no_Rat_SetFloat64 = of_int, no_NewFromString = (\<lambda>t. None), no_NewFromFloat = (\<lambda>f. Some (of_int f))\<rparr>"

definition whole_expr :: "(int, int) expr_ops" where
  "whole_expr = \<lparr>eo_cmp = (\<lambda>cv x l. if lit_value l = VNil then None else Some (x - whole (lit_value l))),
     eo_equal = (\<lambda>cv x l. lit_value l \<noteq> VNil \<and> x = whole (lit_value l)),
     eo_dyn = GoInt64, eo_num = whole_nums\<rparr>"

definition fun_squirrel :: "(int, int trow \<Rightarrow> bool option) squirrel" where
  "fun_squirrel = (let leaf = (\<lambda>op c v r. cmp3 whole_cmp r (unquote c) op v) in
     \<lparr>sq_And = (\<lambda>qs r. and3 (map (\<lambda>q. q r) qs)), sq_Or = (\<lambda>qs r. or3 (map (\<lambda>q. q r) qs)), sq_NotExpr = (\<lambda>q r. not3 (q r)),
      sq_Eq = (\<lambda>c v r. if v = VNil then Some (r (unquote c) = None)
        else case as_list v of Some vs \<Rightarrow> in3 whole_cmp r (unquote c) vs | None \<Rightarrow> leaf OpEq c v r),
      sq_NotEq = (\<lambda>c v r. if v = VNil then Some (r (unquote c) \<noteq> None)
        else case as_list v of Some vs \<Rightarrow> not3 (in3 whole_cmp r (unquote c) vs) | None \<Rightarrow> leaf OpNeq c v r),
      sq_Lt = leaf OpLt, sq_LtOrEq = leaf OpLte, sq_Gt = leaf OpGt, sq_GtOrEq = leaf OpGte\<rparr>)"

lemma fun_squirrel_ok: "squirrel_ok fun_squirrel (\<lambda>q r. q r) whole_cmp"
  by (auto simp: squirrel_ok_def fun_squirrel_def Let_def unquote_QuoteIdent scalar_def as_list_def)

definition leaf_node :: "string \<Rightarrow> fop \<Rightarrow> int fval \<Rightarrow> int filter_node" where
  "leaf_node c op v = FilterNode [] [] None (Some \<lparr>pr_Column = c, pr_Op = op, pr_Value = v\<rparr>)"

text \<open>Not (a = 1 and not (b in (2, 3))).\<close>

definition nested_filter :: "int filter_node" where
  "nested_filter = FilterNode [] [] (Some (FilterNode [leaf_node ''a'' OpEq (VFloat 1),
     FilterNode [] [] (Some (leaf_node ''b'' OpIn (VList [VFloat 2, VFloat 3]))) None] [] None None)) None"

definition pg_ab :: table_state where
  "pg_ab = [\<lparr>pc_Name = ''a'', pc_DataType = ''integer''\<rparr>, \<lparr>pc_Name = ''b'', pc_DataType = ''numeric''\<rparr>]"

definition my_ab :: my_table where
  "my_ab c = (if c = ''a'' \<or> c = ''b'' then Some \<lparr>mc_Type = (if c = ''a'' then TYPE_NUMBER else TYPE_DECIMAL), mc_Collation = []\<rparr> else None)"

definition nested_expr :: "exact_fn \<Rightarrow> int xexpr" where
  "nested_expr fn = XOr [guarded ''a'' (XCmp ConvFloat ''a'' OpNeq (Lit (VFloat 1))),
     guarded ''b'' (XOr [XExact fn ''b'' (Lit (VFloat 2)) OpEq, XExact fn ''b'' (Lit (VFloat 3)) OpEq])]"

definition nested_sql :: "int sql" where
  "nested_sql = QNot (QAnd [QCmp ''a'' OpEq (VFloat 1), QNot (QIn ''b'' [VFloat 2, VFloat 3])])"


lemma plain_literals: "\<forall>v\<in>set vs. as_list v = None \<and> v \<noteq> VOther \<Longrightarrow> literals Literal vs = Ok (map Lit vs)"
proof (induction vs)
  case (Cons v vs)
  then show ?case by (cases v) (auto simp: as_list_def)
qed simp

lemma in3_with_null: "VNil \<in> set vs \<Longrightarrow> in3 D r c vs \<noteq> Some False"
  by (cases "r c") (auto simp: in3_def or3_def cmp3_def image_iff split: if_splits)

text \<open>
  C39: a null in a list makes the two disagree. Any filter \<open>c not in vs\<close> on a MySQL column whose list of scalars
  holds a null passes validation and compiles on both sides. When the column is neither decimal nor
  case-insensitive, a changed row whose value the expression language finds equal to none of the literals,
  as it finds no value equal to its null, is kept. The snapshot's condition is unknown of it, when the
  database finds it equal to none either, and is true of no row at all.
\<close>

theorem null_in_list_diverges:
  assumes "f = FilterNode [] [] None (Some \<lparr>pr_Column = c, pr_Op = OpNotIn, pr_Value = VList vs\<rparr>)"
    and "c \<noteq> []" "VNil \<in> set vs" "\<forall>v\<in>set vs. as_list v = None \<and> v \<noteq> VOther"
    and "tbl c \<noteq> None" "\<not> columnIsDecimal tbl c" "\<not> columnIsCaseInsensitive tbl c" "r c = Some x"
    and "\<forall>v\<in>set vs. \<not> eo_equal E (if columnIsNumeric tbl c then ConvFloat else ConvRaw) x (Lit v)"
    and "\<forall>v\<in>set vs. v \<noteq> VNil \<longrightarrow> D c x v \<noteq> 0"
  shows "validateFilter f path = []
    \<and> (\<exists>y w. my_compileFilterExpr tbl (Some f) = Ok (Some y) \<and> compileFilterSQL (Some f) = Ok (Some w)
        \<and> x_eval E r y = Some True \<and> sql_eval D r w = None \<and> (\<forall>r'. sql_eval D r' w \<noteq> Some True))"
proof -
  let ?cv = "if columnIsNumeric tbl c then ConvFloat else ConvRaw"
  let ?y = "guarded c (XNot (XIn ?cv c (map Lit vs)))" and ?w = "QNotIn c vs"
  have "my_literal tbl c v = Literal v" for v :: "'a fval"
    using assms(7) by (cases "Literal v") (simp_all add: my_literal_def)
  then have lit: "my_literal tbl c = (Literal :: 'a fval \<Rightarrow> (filter_err, 'a xlit) res)" by (simp add: fun_eq_iff)
  have "validateFilter f path = []"
    using assms(2,3) by (auto simp: assms(1) validatePredicate_def node_shapes_def)
  moreover have "my_compileFilterExpr tbl (Some f) = Ok (Some ?y)"
    using assms(5-7) plain_literals [OF assms(4)]
    by (auto simp: assms(1) my_compileFilterExpr_def my_filterExprPredicate_def plain_leaf_def is_comparison_def as_list_def lit)
  moreover have "compileFilterSQL (Some f) = Ok (Some ?w)"
    by (simp add: assms(1) compileFilterSQL_def filterPredicateSQL_def is_comparison_def as_list_def)
  moreover have "x_eval E r ?y = Some True"
    using assms(8,9) by (simp add: guarded_eval)
  moreover have "sql_eval D r ?w = None"
    using assms(3,8,10) by (auto simp: in3_def or3_def cmp3_def image_iff split: if_splits)
  moreover have "sql_eval D r' ?w \<noteq> Some True" for r'
    using in3_with_null [OF assms(3)] by auto
  ultimately show ?thesis by blast
qed

theorem null_in_list_diverges_witness:
  "\<exists>y w. my_compileFilterExpr my_ab (Some (leaf_node ''a'' OpNotIn (VList [VFloat 1, VNil]))) = Ok (Some y)
    \<and> compileFilterSQL (Some (leaf_node ''a'' OpNotIn (VList [VFloat 1, VNil]))) = Ok (Some w)
    \<and> x_eval whole_expr (\<lambda>c. Some 2) y = Some True \<and> sql_eval whole_cmp (\<lambda>c. Some 2) w = None"
proof -
  have "\<not> columnIsDecimal my_ab ''a''" "\<not> columnIsCaseInsensitive my_ab ''a''" by code_simp+
  then show ?thesis
    using null_in_list_diverges [OF leaf_node_def, of "''a''" "[VFloat 1, VNil]" my_ab "\<lambda>c. Some 2" 2 whole_expr whole_cmp "''f''"]
    by (auto simp: as_list_def my_ab_def whole_expr_def whole_cmp_def)
qed

end
