(* ===== verification/Worker_Window.thy ===== *)
theory Worker_Window
  imports Snapshot_State
begin

text \<open>
  \<open>internal/worker/window.go\<close>, \<open>window_markers.go\<close> and \<open>internal/rowchange/key.go\<close>: the worker's snapshot
  windows. A batch is the rows a reader gives of it and whether a reader can be built for it at all. A
  window keeps a chunk's rows until its marker closes it; a live change of a key the window holds touches
  that key, and the closed window emits the rows not touched. The two mutexes make each operation atomic.
  A batch's marking is taken as one operation: the code takes the mutexes anew for each row, so an operation
  of another goroutine between two rows of a batch is not among the sequences the lemmas range over. The Bloom filter, Arrow's take and the text forms of
  floats and instants are parameters; reference counts, logging and metrics are not modelled.

  The lemmas show that closing a window emits exactly the stored rows whose key no counting change has,
  whatever operations came before, where the rendering of keys decides equality; and that the rendering
  merges different keys.
\<close>

section \<open>Key strings\<close>

record 'f fmt_ops =
  fo_float :: "'f \<Rightarrow> string"
  fo_time :: "int \<Rightarrow> string"
  fo_other :: string

definition unit_sep :: char where
  "unit_sep = char_of (31 :: nat)"

definition bytes_text :: "string \<Rightarrow> string" where
  "bytes_text bs = ''['' @ join_with (CHR '' '') (map (\<lambda>c. FormatUint (of_char c)) bs) @ '']''"

fun key_part :: "'f fmt_ops \<Rightarrow> 'f cell \<Rightarrow> string" where
  "key_part F (CString s) = ''s:'' @ s"
| "key_part F CNil = ''nil''"
| "key_part F (CBool b) = ''bool:'' @ (if b then ''true'' else ''false'')"
| "key_part F (CInt8 v) = ''int8:'' @ FormatInt (sint v)"
| "key_part F (CInt16 v) = ''int16:'' @ FormatInt (sint v)"
| "key_part F (CInt32 v) = ''int32:'' @ FormatInt (sint v)"
| "key_part F (CInt64 v) = ''int64:'' @ FormatInt (sint v)"
| "key_part F (CInt v) = ''int:'' @ FormatInt (sint v)"
| "key_part F (CUint8 v) = ''uint8:'' @ FormatUint (unat v)"
| "key_part F (CUint16 v) = ''uint16:'' @ FormatUint (unat v)"
| "key_part F (CUint32 v) = ''uint32:'' @ FormatUint (unat v)"
| "key_part F (CUint64 v) = ''uint64:'' @ FormatUint (unat v)"
| "key_part F (CUint v) = ''uint:'' @ FormatUint (unat v)"
| "key_part F (CFloat32 v) = ''float32:'' @ fo_float F v"
| "key_part F (CFloat64 v) = ''float64:'' @ fo_float F v"
| "key_part F (CBytes bs) = ''[]uint8:'' @ bytes_text bs"
| "key_part F (CTime n) = ''time.Time:'' @ fo_time F n"
| "key_part F COther = fo_other F"

definition KeyString :: "'f fmt_ops \<Rightarrow> 'f pkey \<Rightarrow> string" where
  "KeyString F k = join_with unit_sep (map (key_part F) k)"

section \<open>Windows\<close>

record ('f, 'd) wrow =
  wr_Key :: "'f pkey"
  wr_Snapshot :: bool
  wr_Pos :: string
  wr_Data :: 'd

record ('f, 'd) wbatch =
  wb_Rows :: "('f, 'd) wrow list"
  wb_Columns :: "string list"
  wb_Readable :: bool

record ('f, 'd) snapshotWindow =
  sw_batch :: "('f, 'd) wbatch"
  sw_keys :: "string set"
  sw_touched :: "string set"

record 'b bloom =
  bl_New :: 'b
  bl_AddString :: "'b \<Rightarrow> string \<Rightarrow> 'b"
  bl_TestString :: "'b \<Rightarrow> string \<Rightarrow> bool"

text \<open>The window and snapshot state of a \<open>tablePipeline\<close>.\<close>

record ('f, 'd, 'b) tablePipeline =
  tp_windows :: "(u64, ('f, 'd) snapshotWindow) gomap"
  tp_chunkLive :: "string set option"
  tp_dropped :: nat
  tp_winClosed :: bool
  tp_snapshotState :: string
  tp_snapshotPending :: "u32 list option"
  tp_snapshotResumed :: bool
  tp_bootstrapGuard :: "'b option"

datatype worker_err = BadBatch | SelectFailed | NoPosColumn

definition newTablePipeline :: "('f, 'd, 'b) tablePipeline" where
  "newTablePipeline = \<lparr>tp_windows = [], tp_chunkLive = None, tp_dropped = 0, tp_winClosed = False, tp_snapshotState = [],
     tp_snapshotPending = None, tp_snapshotResumed = False, tp_bootstrapGuard = None\<rparr>"

definition SetSnapshotState :: "'b bloom \<Rightarrow> string \<Rightarrow> u32 list option \<Rightarrow> ('f, 'd, 'b) tablePipeline \<Rightarrow> ('f, 'd, 'b) tablePipeline" where
  "SetSnapshotState B state pend p =
     (let p1 = p\<lparr>tp_snapshotState := state, tp_snapshotPending := pend\<rparr>
      in if state = StateComplete then p1\<lparr>tp_bootstrapGuard := None, tp_snapshotResumed := False\<rparr>
         else if state = StateInProgress \<and> tp_bootstrapGuard p1 = None then p1\<lparr>tp_bootstrapGuard := Some (bl_New B)\<rparr>
         else p1)"

definition MarkSnapshotResumed :: "('f, 'd, 'b) tablePipeline \<Rightarrow> ('f, 'd, 'b) tablePipeline" where
  "MarkSnapshotResumed p = p\<lparr>tp_snapshotResumed := True, tp_bootstrapGuard := None\<rparr>"

definition row_strings :: "'f fmt_ops \<Rightarrow> ('f, 'd) wrow list \<Rightarrow> string set" where
  "row_strings F rows = set (map (\<lambda>r. KeyString F (wr_Key r)) rows)"

definition AddWindowRows :: "'f fmt_ops \<Rightarrow> u64 \<Rightarrow> ('f, 'd) wbatch \<Rightarrow> ('f, 'd, 'b) tablePipeline \<Rightarrow> ('f, 'd, 'b) tablePipeline" where
  "AddWindowRows F windowID b p =
     (if gm_has (tp_windows p) windowID then p
      else (let keys = (if wb_Readable b then row_strings F (wb_Rows b) else {});
                live = (case tp_chunkLive p of None \<Rightarrow> {} | Some l \<Rightarrow> l);
                touched = live \<inter> keys
            in p\<lparr>tp_windows := gm_put windowID \<lparr>sw_batch = b, sw_keys = keys, sw_touched = touched\<rparr> (tp_windows p),
                 tp_dropped := tp_dropped p + card touched\<rparr>))"

definition BeginChunkRead :: "('f, 'd, 'b) tablePipeline \<Rightarrow> ('f, 'd, 'b) tablePipeline" where
  "BeginChunkRead p = p\<lparr>tp_chunkLive := Some {}\<rparr>"

definition EndChunkRead :: "('f, 'd, 'b) tablePipeline \<Rightarrow> ('f, 'd, 'b) tablePipeline" where
  "EndChunkRead p = p\<lparr>tp_chunkLive := None\<rparr>"

definition OpenWindows :: "('f, 'd, 'b) tablePipeline \<Rightarrow> nat" where
  "OpenWindows p = length (tp_windows p)"

section \<open>Live changes\<close>

text \<open>A live key touches a window that holds it and that it has not touched before.\<close>

definition touches :: "string \<Rightarrow> ('f, 'd) snapshotWindow \<Rightarrow> bool" where
  "touches k w \<longleftrightarrow> k \<notin> sw_touched w \<and> k \<in> sw_keys w"

definition touch_window :: "string \<Rightarrow> ('f, 'd) snapshotWindow \<Rightarrow> ('f, 'd) snapshotWindow" where
  "touch_window k w = (if touches k w then w\<lparr>sw_touched := insert k (sw_touched w)\<rparr> else w)"

definition touch_windows :: "string \<Rightarrow> ('f, 'd, 'b) tablePipeline \<Rightarrow> ('f, 'd, 'b) tablePipeline" where
  "touch_windows k p = p\<lparr>tp_windows := map (\<lambda>(i, w). (i, touch_window k w)) (tp_windows p),
     tp_dropped := tp_dropped p + length (filter (\<lambda>(i, w). touches k w) (tp_windows p))\<rparr>"

text \<open>The body of the row loop of \<open>markBatchSideEffects\<close>.\<close>

definition mark_row :: "'f fmt_ops \<Rightarrow> 'b bloom \<Rightarrow> bool \<Rightarrow> bool \<Rightarrow> ('f, 'd) wrow \<Rightarrow> ('f, 'd, 'b) tablePipeline \<Rightarrow> ('f, 'd, 'b) tablePipeline" where
  "mark_row F B reading inWindow r p =
     (if wr_Key r = [] then p
      else (let k = KeyString F (wr_Key r);
                p1 = (if wr_Snapshot r then p
                      else (case tp_bootstrapGuard p of
                              Some g \<Rightarrow> if tp_snapshotState p = StateInProgress
                                        then p\<lparr>tp_bootstrapGuard := Some (bl_AddString B g k)\<rparr> else p
                            | None \<Rightarrow> p));
                p2 = (if reading \<and> \<not> wr_Snapshot r
                      then (case tp_chunkLive p1 of Some l \<Rightarrow> p1\<lparr>tp_chunkLive := Some (insert k l)\<rparr> | None \<Rightarrow> p1)
                      else p1)
            in if inWindow then touch_windows k p2 else p2))"

definition markBatchSideEffects :: "'f fmt_ops \<Rightarrow> 'b bloom \<Rightarrow> ('f, 'd) wbatch \<Rightarrow> bool \<Rightarrow> ('f, 'd, 'b) tablePipeline \<Rightarrow>
    (worker_err, ('f, 'd, 'b) tablePipeline) res" where
  "markBatchSideEffects F B b inWindow p =
     (if \<not> wb_Readable b then Err BadBatch
      else (let marking = (tp_snapshotState p = StateInProgress \<and> tp_bootstrapGuard p \<noteq> None);
                reading = (tp_chunkLive p \<noteq> None)
            in if \<not> marking \<and> \<not> inWindow \<and> \<not> reading then Ok p
               else Ok (fold (mark_row F B reading inWindow) (wb_Rows b) p)))"

section \<open>Closing a window\<close>

fun every_from :: "nat \<Rightarrow> nat list \<Rightarrow> bool" where
  "every_from i [] = True"
| "every_from i (v # vs) = (if v \<noteq> i then False else every_from (Suc i) vs)"

definition everyRow :: "nat list \<Rightarrow> nat \<Rightarrow> bool" where
  "everyRow idx n = (if length idx \<noteq> n then False else every_from 0 idx)"

type_synonym ('f, 'd) row_take = "('f, 'd) wrow list \<Rightarrow> nat list \<Rightarrow> ('f, 'd) wrow list option"

definition takeRows :: "('f, 'd) row_take \<Rightarrow> ('f, 'd) wrow list \<Rightarrow> nat list \<Rightarrow> ('f, 'd) wrow list option" where
  "takeRows T rows idx = (if everyRow idx (length rows) then Some rows else T rows idx)"

text \<open>The position column is found by name among the record's columns; a selection keeps the record's schema.\<close>

definition adoptWindowPos :: "string list \<Rightarrow> ('f, 'd) wrow list \<Rightarrow> string \<Rightarrow> (worker_err, ('f, 'd) wrow list) res" where
  "adoptWindowPos columns rows pos =
     (if ''__pos'' \<notin> set columns then Err NoPosColumn else Ok (map (\<lambda>r. r\<lparr>wr_Pos := pos\<rparr>) rows))"

definition keepIdx :: "'f fmt_ops \<Rightarrow> string set \<Rightarrow> ('f, 'd) wrow list \<Rightarrow> nat list" where
  "keepIdx F touched rows = filter (\<lambda>i. KeyString F (wr_Key (rows ! i)) \<notin> touched) [0..<length rows]"

text \<open>\<open>closeWindow\<close>: the pipeline, then the rows to emit and whether the worker held the window.\<close>

definition closeWindow :: "'f fmt_ops \<Rightarrow> ('f, 'd) row_take \<Rightarrow> u64 \<Rightarrow> ('f, 'd, 'b) tablePipeline \<Rightarrow>
    ('f, 'd, 'b) tablePipeline \<times> (worker_err, ('f, 'd) wrow list option \<times> bool) res" where
  "closeWindow F T windowID p =
     (case map_of (tp_windows p) windowID of
        None \<Rightarrow> (p, Ok (None, False))
      | Some win \<Rightarrow>
          (let p1 = p\<lparr>tp_windows := gm_del windowID (tp_windows p), tp_winClosed := True\<rparr>;
               rows = wb_Rows (sw_batch win); idx = keepIdx F (sw_touched win) rows
           in if rows = [] then (p1, Ok (None, True))
              else if \<not> wb_Readable (sw_batch win) then (p1, Err BadBatch)
              else if idx = [] then (p1, Ok (None, True))
              else (case takeRows T rows idx of
                      None \<Rightarrow> (p1, Err SelectFailed)
                    | Some sel \<Rightarrow>
                        (p1, res_bind (adoptWindowPos (wb_Columns (sw_batch win)) sel []) (\<lambda>out. Ok (Some out, True))))))"

text \<open>What a closed window gives: rows to buffer, an empty delivery of its cycle, or nothing.\<close>

datatype ('f, 'd) closes_out =
    NoRows
  | BufferRows "('f, 'd) wrow list" "u32 list option" u64
  | EmptyDelivery "u32 list option" u64 bool

definition closesBatch :: "'f fmt_ops \<Rightarrow> ('f, 'd) row_take \<Rightarrow> u64 \<Rightarrow> u64 \<Rightarrow> u32 list option \<Rightarrow> ('f, 'd, 'b) tablePipeline \<Rightarrow>
    ('f, 'd, 'b) tablePipeline \<times> (worker_err, ('f, 'd) closes_out) res" where
  "closesBatch F T windowID seq pend p =
     (case closeWindow F T windowID p of
        (p1, Ok (cb, held)) \<Rightarrow>
          (p1, Ok (case cb of
                     Some rows \<Rightarrow> BufferRows rows pend seq
                   | None \<Rightarrow> if seq = 0 then NoRows else EmptyDelivery (if held then pend else None) seq (\<not> held)))
      | (p1, Err e) \<Rightarrow> (p1, Err e)
      | (p1, Panic) \<Rightarrow> (p1, Panic))"

section \<open>Snapshot rows that were not touched\<close>

definition partitionSnapshotRows :: "'f fmt_ops \<Rightarrow> 'b bloom \<Rightarrow> 'b \<Rightarrow> ('f, 'd) wbatch \<Rightarrow> (worker_err, nat list \<times> nat list) res" where
  "partitionSnapshotRows F B guard b =
     (if \<not> wb_Readable b then Err BadBatch
      else (let plain = (\<lambda>i. let r = wb_Rows b ! i in wr_Snapshot r \<and> wr_Key r \<noteq> [] \<and> \<not> bl_TestString B guard (KeyString F (wr_Key r)))
            in Ok (filter plain [0..<length (wb_Rows b)], filter (\<lambda>i. \<not> plain i) [0..<length (wb_Rows b)])))"

section \<open>What a window should emit\<close>

datatype ('f, 'd) wop =
    BeginOp | EndOp
  | AddOp u64 "('f, 'd) wbatch"
  | LiveOp "('f, 'd) wbatch" bool
  | CloseOp u64
  | StateOp string "u32 list option"
  | ResumedOp

text \<open>Running an operation; a batch no reader can be built for ends the pipeline.\<close>

fun run_op :: "'f fmt_ops \<Rightarrow> 'b bloom \<Rightarrow> ('f, 'd) row_take \<Rightarrow> ('f, 'd) wop \<Rightarrow> ('f, 'd, 'b) tablePipeline \<Rightarrow> ('f, 'd, 'b) tablePipeline option" where
  "run_op F B T BeginOp p = Some (BeginChunkRead p)"
| "run_op F B T EndOp p = Some (EndChunkRead p)"
| "run_op F B T (AddOp i b) p = Some (AddWindowRows F i b p)"
| "run_op F B T (LiveOp b inWindow) p = (case markBatchSideEffects F B b inWindow p of Ok p' \<Rightarrow> Some p' | _ \<Rightarrow> None)"
| "run_op F B T (CloseOp i) p = Some (fst (closeWindow F T i p))"
| "run_op F B T (StateOp st pend) p = Some (SetSnapshotState B st pend p)"
| "run_op F B T ResumedOp p = Some (MarkSnapshotResumed p)"

fun run_ops :: "'f fmt_ops \<Rightarrow> 'b bloom \<Rightarrow> ('f, 'd) row_take \<Rightarrow> ('f, 'd) wop list \<Rightarrow> ('f, 'd, 'b) tablePipeline \<Rightarrow> ('f, 'd, 'b) tablePipeline option" where
  "run_ops F B T [] p = Some p"
| "run_ops F B T (x # xs) p = (case run_op F B T x p of None \<Rightarrow> None | Some p' \<Rightarrow> run_ops F B T xs p')"

text \<open>
  The specification keeps, per open window, its batch and the keys of the changes that count against it:
  the stream's since the chunk's read began, when the window was stored during one, and every change
  tagged for the window since.
\<close>

type_synonym ('f, 'd) wspec = "string set option \<times> (u64 \<Rightarrow> (('f, 'd) wbatch \<times> string set) option)"

definition change_keys :: "'f fmt_ops \<Rightarrow> ('f, 'd) wrow list \<Rightarrow> string set" where
  "change_keys F rows = (\<lambda>r. KeyString F (wr_Key r)) ` {r \<in> set rows. wr_Key r \<noteq> []}"

definition stream_keys :: "'f fmt_ops \<Rightarrow> ('f, 'd) wrow list \<Rightarrow> string set" where
  "stream_keys F rows = change_keys F (filter (\<lambda>r. \<not> wr_Snapshot r) rows)"

fun spec_op :: "'f fmt_ops \<Rightarrow> ('f, 'd) wop \<Rightarrow> ('f, 'd) wspec \<Rightarrow> ('f, 'd) wspec" where
  "spec_op F BeginOp (live, wins) = (Some {}, wins)"
| "spec_op F EndOp (live, wins) = (None, wins)"
| "spec_op F (AddOp i b) (live, wins) =
     (live, if wins i = None then wins(i \<mapsto> (b, case live of None \<Rightarrow> {} | Some l \<Rightarrow> l)) else wins)"
| "spec_op F (LiveOp b inWindow) (live, wins) =
     (map_option (\<lambda>l. l \<union> stream_keys F (wb_Rows b)) live,
      if inWindow then (\<lambda>i. map_option (\<lambda>(c, ks). (c, ks \<union> change_keys F (wb_Rows b))) (wins i)) else wins)"
| "spec_op F (CloseOp i) (live, wins) = (live, wins(i := None))"
| "spec_op F (StateOp st pend) sp = sp"
| "spec_op F ResumedOp sp = sp"

definition spec_close :: "'f fmt_ops \<Rightarrow> (('f, 'd) wbatch \<times> string set) option \<Rightarrow> (worker_err, ('f, 'd) wrow list option \<times> bool) res" where
  "spec_close F w = (case w of
      None \<Rightarrow> Ok (None, False)
    | Some (b, ks) \<Rightarrow>
        if wb_Rows b = [] then Ok (None, True)
        else if \<not> wb_Readable b then Err BadBatch
        else (let left = filter (\<lambda>r. KeyString F (wr_Key r) \<notin> ks) (wb_Rows b)
              in if left = [] then Ok (None, True)
                 else res_bind (adoptWindowPos (wb_Columns b) left []) (\<lambda>out. Ok (Some out, True))))"

definition window_rel :: "'f fmt_ops \<Rightarrow> ('f, 'd) snapshotWindow \<Rightarrow> ('f, 'd) wbatch \<times> string set \<Rightarrow> bool" where
  "window_rel F w a \<longleftrightarrow> sw_batch w = fst a \<and> sw_keys w = (if wb_Readable (fst a) then row_strings F (wb_Rows (fst a)) else {})
     \<and> sw_touched w = snd a \<inter> sw_keys w"

definition pipe_rel :: "'f fmt_ops \<Rightarrow> ('f, 'd, 'b) tablePipeline \<Rightarrow> ('f, 'd) wspec \<Rightarrow> bool" where
  "pipe_rel F p sp \<longleftrightarrow> tp_chunkLive p = fst sp \<and> (\<forall>i. rel_option (window_rel F) (map_of (tp_windows p) i) (snd sp i))"

section \<open>The windows refine the specification\<close>

lemma pipe_relI:
  "tp_chunkLive p = live \<Longrightarrow> (\<And>i. rel_option (window_rel F) (map_of (tp_windows p) i) (wins i)) \<Longrightarrow> pipe_rel F p (live, wins)"
  by (simp add: pipe_rel_def)

lemma change_keys_Cons:
  "change_keys F (r # rs) = (if wr_Key r = [] then {} else {KeyString F (wr_Key r)}) \<union> change_keys F rs"
  by (auto simp: change_keys_def)

lemma stream_keys_Cons:
  "stream_keys F (r # rs) = (if wr_Key r = [] \<or> wr_Snapshot r then {} else {KeyString F (wr_Key r)}) \<union> stream_keys F rs"
  by (simp add: stream_keys_def change_keys_Cons)

lemma window_rel_touch: "window_rel F w (b, ks) \<Longrightarrow> window_rel F (touch_window k w) (b, insert k ks)"
  by (auto simp: window_rel_def touch_window_def touches_def)

lemma map_of_touch: "map_of (tp_windows (touch_windows k p)) i = map_option (touch_window k) (map_of (tp_windows p) i)"
  by (simp add: touch_windows_def map_of_map)

lemma mark_row_rel:
  assumes "pipe_rel F p (live, wins)" "reading = (live \<noteq> None)"
  shows "pipe_rel F (mark_row F B reading inWindow r p)
     (map_option (\<lambda>l. l \<union> stream_keys F [r]) live,
      if inWindow then (\<lambda>i. map_option (\<lambda>(c, ks). (c, ks \<union> change_keys F [r])) (wins i)) else wins)"
proof (cases "wr_Key r = []")
  case True
  then have none: "change_keys F [r] = {}" "stream_keys F [r] = {}" by (auto simp: change_keys_def stream_keys_def)
  show ?thesis using True assms(1) unfolding none by (simp add: mark_row_def id_def option.map_ident)
next
  case False
  let ?k = "KeyString F (wr_Key r)" and ?p' = "mark_row F B reading inWindow r p"
  have ck: "change_keys F [r] = {?k}" using False by (auto simp: change_keys_def)
  have live: "tp_chunkLive ?p' = map_option (\<lambda>l. l \<union> stream_keys F [r]) live"
    using assms False by (cases live; cases "tp_bootstrapGuard p")
      (auto simp: mark_row_def pipe_rel_def Let_def touch_windows_def stream_keys_def change_keys_def)
  have wins: "map_of (tp_windows ?p') i = (if inWindow then map_option (touch_window ?k) (map_of (tp_windows p) i) else map_of (tp_windows p) i)" for i
    using False by (cases "tp_bootstrapGuard p"; cases "tp_chunkLive p") (simp_all add: mark_row_def Let_def map_of_touch) 
  show ?thesis
  proof (rule pipe_relI [OF live])
    fix i
    have "rel_option (window_rel F) (map_of (tp_windows p) i) (wins i)" using assms(1) by (simp add: pipe_rel_def)
    then show "rel_option (window_rel F) (map_of (tp_windows ?p') i)
        ((if inWindow then (\<lambda>i. map_option (\<lambda>(c, ks). (c, ks \<union> change_keys F [r])) (wins i)) else wins) i)"
      unfolding wins ck by (cases "map_of (tp_windows p) i"; cases "wins i") (auto simp: window_rel_touch)
  qed
qed

lemma mark_rows_rel:
  assumes "pipe_rel F p (live, wins)" "reading = (live \<noteq> None)"
  shows "pipe_rel F (fold (mark_row F B reading inWindow) rows p)
     (map_option (\<lambda>l. l \<union> stream_keys F rows) live,
      if inWindow then (\<lambda>i. map_option (\<lambda>(c, ks). (c, ks \<union> change_keys F rows)) (wins i)) else wins)"
  using assms
proof (induction rows arbitrary: p live wins)
  case Nil
  then show ?case by (simp add: change_keys_def stream_keys_def id_def option.map_ident)
next
  case (Cons r rows)
  let ?live = "map_option (\<lambda>l. l \<union> stream_keys F [r]) live"
  let ?wins = "if inWindow then (\<lambda>i. map_option (\<lambda>(c, ks). (c, ks \<union> change_keys F [r])) (wins i)) else wins"
  have step: "pipe_rel F (mark_row F B reading inWindow r p) (?live, ?wins)" by (rule mark_row_rel [OF Cons.prems])
  have "change_keys F (r # rows) = change_keys F [r] \<union> change_keys F rows" "stream_keys F (r # rows) = stream_keys F [r] \<union> stream_keys F rows"
    by (simp_all add: change_keys_def stream_keys_def) auto
  moreover have "reading = (?live \<noteq> None)" using Cons.prems(2) by simp
  ultimately show ?case using Cons.IH [OF step]
    by (cases inWindow) (simp_all add: option.map_comp comp_def case_prod_unfold Un_assoc)
qed

lemma markBatch_rel:
  assumes "pipe_rel F p (live, wins)" "markBatchSideEffects F B b inWindow p = Ok p'"
  shows "pipe_rel F p' (spec_op F (LiveOp b inWindow) (live, wins))"
proof -
  have live: "tp_chunkLive p = live" using assms(1) by (simp add: pipe_rel_def)
  show ?thesis
  proof (cases "\<not> (tp_snapshotState p = StateInProgress \<and> tp_bootstrapGuard p \<noteq> None) \<and> \<not> inWindow \<and> live = None")
    case True
    with assms live show ?thesis by (auto simp: markBatchSideEffects_def Let_def split: if_splits)
  next
    case False
    then have "p' = fold (mark_row F B (live \<noteq> None) inWindow) (wb_Rows b) p"
      using assms(2) live by (auto simp: markBatchSideEffects_def Let_def split: if_splits)
    with mark_rows_rel [OF assms(1) refl] show ?thesis by simp
  qed
qed

lemma closeWindow_pipe: "tp_chunkLive (fst (closeWindow F T i p)) = tp_chunkLive p"
  "map_of (tp_windows (fst (closeWindow F T i p))) = (map_of (tp_windows p))(i := None)"
  by (auto simp: closeWindow_def Let_def fun_eq_iff split: option.splits)

lemma run_op_rel:
  assumes "pipe_rel F p sp" "run_op F B T x p = Some p'"
  shows "pipe_rel F p' (spec_op F x sp)"
proof -
  obtain live wins where sp: "sp = (live, wins)" by fastforce
  have live: "tp_chunkLive p = live" and rel: "rel_option (window_rel F) (map_of (tp_windows p) i) (wins i)" for i
    using assms(1) by (simp_all add: pipe_rel_def sp)
  show ?thesis
  proof (cases x)
    case (AddOp i b)
    have has: "gm_has (tp_windows p) i \<longleftrightarrow> wins i \<noteq> None" using rel [of i] by (cases "wins i") (auto simp: gm_has_def elim: option.rel_cases)
    have "window_rel F \<lparr>sw_batch = b, sw_keys = ks, sw_touched = l \<inter> ks\<rparr> (b, l)"
      if "ks = (if wb_Readable b then row_strings F (wb_Rows b) else {})" for ks l using that by (simp add: window_rel_def)
    with AddOp assms has rel live show ?thesis
      by (auto simp: sp AddWindowRows_def Let_def intro!: pipe_relI)
  next
    case (LiveOp b inWindow)
    with assms markBatch_rel [of F p live wins B b inWindow p'] show ?thesis by (auto simp: sp split: res.splits)
  next
    case (CloseOp i)
    with assms(2) have p': "p' = fst (closeWindow F T i p)" by simp
    show ?thesis unfolding CloseOp sp spec_op.simps
      by (rule pipe_relI) (simp_all add: p' closeWindow_pipe live rel)
  qed (use assms in \<open>auto simp: sp pipe_rel_def BeginChunkRead_def EndChunkRead_def SetSnapshotState_def MarkSnapshotResumed_def Let_def\<close>)
qed

lemma run_ops_rel: "pipe_rel F p sp \<Longrightarrow> run_ops F B T xs p = Some p' \<Longrightarrow> pipe_rel F p' (fold (spec_op F) xs sp)"
proof (induction xs arbitrary: p sp)
  case (Cons x xs)
  then obtain q where "run_op F B T x p = Some q" "run_ops F B T xs q = Some p'" by (auto split: option.splits)
  with Cons.IH [OF run_op_rel [OF Cons.prems(1)]] show ?case by simp
qed simp

lemma every_from_iff: "every_from i idx \<longleftrightarrow> idx = [i..<i + length idx]"
proof (induction idx arbitrary: i)
  case (Cons v vs)
  have "[i..<i + length (v # vs)] = i # [Suc i..<Suc i + length vs]" by (simp add: upt_rec)
  with Cons show ?case by (simp del: upt_Suc) 
qed simp

definition take_ok :: "('f, 'd) row_take \<Rightarrow> bool" where
  "take_ok T \<longleftrightarrow> (\<forall>rows idx. (\<forall>i\<in>set idx. i < length rows) \<longrightarrow> T rows idx = Some (map (nth rows) idx))"

text \<open>Keeping the record itself when every row is taken is a gather of every row.\<close>

lemma takeRows_gathers: "take_ok T \<Longrightarrow> \<forall>i\<in>set idx. i < length rows \<Longrightarrow> takeRows T rows idx = Some (map (nth rows) idx)"
  by (auto simp: takeRows_def everyRow_def every_from_iff take_ok_def map_nth split: if_splits)

lemma keepIdx_rows: "map (nth rows) (keepIdx F ks rows) = filter (\<lambda>r. KeyString F (wr_Key r) \<notin> ks) rows"
proof -
  have "filter Q rows = map (nth rows) (filter (\<lambda>i. Q (rows ! i)) [0..<length rows])" for Q
  proof -
    have "filter Q (map (nth rows) [0..<length rows]) = map (nth rows) (filter (\<lambda>i. Q (rows ! i)) [0..<length rows])"
      by (simp add: filter_map comp_def)
    then show ?thesis by (simp add: map_nth)
  qed
  then show ?thesis by (simp add: keepIdx_def)
qed

lemma closeWindow_spec:
  assumes "pipe_rel F p sp" "take_ok T"
  shows "snd (closeWindow F T i p) = spec_close F (snd sp i)"
proof -
  have rel: "rel_option (window_rel F) (map_of (tp_windows p) i) (snd sp i)" using assms(1) by (simp add: pipe_rel_def)
  show ?thesis
  proof (cases "map_of (tp_windows p) i")
    case None
    with rel show ?thesis by (auto simp: closeWindow_def spec_close_def)
  next
    case (Some w)
    with rel obtain b ks where sp: "snd sp i = Some (b, ks)" and w: "window_rel F w (b, ks)" by (auto elim: option.rel_cases)
    let ?rows = "wb_Rows b"
    show ?thesis
    proof (cases "?rows = [] \<or> \<not> wb_Readable b")
      case True
      with Some sp w show ?thesis by (auto simp: closeWindow_def spec_close_def window_rel_def Let_def)
    next
      case False
      have b: "sw_batch w = b" and t: "sw_touched w = ks \<inter> row_strings F ?rows" using w False by (simp_all add: window_rel_def)
      have "filter (\<lambda>r. KeyString F (wr_Key r) \<notin> sw_touched w) ?rows = filter (\<lambda>r. KeyString F (wr_Key r) \<notin> ks) ?rows"
        by (rule filter_cong) (auto simp: t row_strings_def)
      then have left: "map (nth ?rows) (keepIdx F (sw_touched w) ?rows) = filter (\<lambda>r. KeyString F (wr_Key r) \<notin> ks) ?rows"
        by (simp add: keepIdx_rows)
      then have empty: "keepIdx F (sw_touched w) ?rows = [] \<longleftrightarrow> filter (\<lambda>r. KeyString F (wr_Key r) \<notin> ks) ?rows = []"
        by (metis map_is_Nil_conv)
      have tk: "takeRows T ?rows (keepIdx F (sw_touched w) ?rows) = Some (filter (\<lambda>r. KeyString F (wr_Key r) \<notin> ks) ?rows)"
        using takeRows_gathers [OF assms(2), of "keepIdx F (sw_touched w) ?rows" ?rows] left by (simp add: keepIdx_def)
      show ?thesis using False Some sp b by (simp add: closeWindow_def spec_close_def Let_def empty tk)
    qed
  qed
qed

section \<open>Properties\<close>

text \<open>
  C4: a closed window emits exactly the rows no newer change has overtaken. After any operations on a
  table's windows, closing a window gives what the specification says: nothing for a window the worker does
  not hold, else the stored rows, in order and without a position, whose key is not among the changes that
  count against the window; those are the stream's changes since the chunk's read began, also the ones that
  came before the window was stored, and every change tagged for a window since.
\<close>

theorem closeWindow_emits_untouched:
  assumes "take_ok T" "run_ops F B T xs newTablePipeline = Some p"
  shows "snd (closeWindow F T i p) = spec_close F (snd (fold (spec_op F) xs (None, \<lambda>i. None)) i)"
proof -
  have "pipe_rel F newTablePipeline (None, \<lambda>i. None)" by (simp add: pipe_rel_def newTablePipeline_def)
  from run_ops_rel [OF this assms(2)] show ?thesis by (rule closeWindow_spec [OF _ assms(1)])
qed

definition plain_fmt :: "int fmt_ops" where
  "plain_fmt = \<lparr>fo_float = FormatInt, fo_time = FormatInt, fo_other = ''?''\<rparr>"

definition list_bloom :: "string list bloom" where
  "list_bloom = \<lparr>bl_New = [], bl_AddString = (\<lambda>b k. k # b), bl_TestString = (\<lambda>b k. k \<in> set b)\<rparr>"

definition gather :: "(int, nat) row_take" where
  "gather rows idx = Some (map (nth rows) idx)"

definition keyed_row :: "bool \<Rightarrow> string list \<Rightarrow> (int, nat) wrow" where
  "keyed_row snap k = \<lparr>wr_Key = map CString k, wr_Snapshot = snap, wr_Pos = ''p'', wr_Data = 0\<rparr>"

definition row_batch :: "(int, nat) wrow list \<Rightarrow> (int, nat) wbatch" where
  "row_batch rows = \<lparr>wb_Rows = rows, wb_Columns = [''id'', ''__pos''], wb_Readable = True\<rparr>"

lemmas window_run_simps = run_op.simps newTablePipeline_def BeginChunkRead_def EndChunkRead_def markBatchSideEffects_def mark_row_def
  AddWindowRows_def touch_windows_def touch_window_def touches_def row_strings_def keyed_row_def row_batch_def KeyString_def
  gm_has_def gm_put_def Let_def

text \<open>A change of key \<open>b\<close> arrives while the chunk is read, then the window of \<open>a\<close>, \<open>b\<close>, \<open>c\<close>, then a tagged change of \<open>c\<close>.\<close>

definition chunk_ops :: "(int, nat) wop list" where
  "chunk_ops = [BeginOp, LiveOp (row_batch [keyed_row False [''b'']]) False,
     AddOp 1 (row_batch [keyed_row True [''a''], keyed_row True [''b''], keyed_row True [''c'']]),
     EndOp, LiveOp (row_batch [keyed_row False [''c'']]) True]"

theorem closeWindow_emits_untouched_witness:
  "\<exists>p. run_ops plain_fmt list_bloom gather chunk_ops newTablePipeline = Some p
     \<and> snd (closeWindow plain_fmt gather 1 p) = Ok (Some [(keyed_row True [''a''])\<lparr>wr_Pos := []\<rparr>], True)"
proof -
  have "take_ok gather" by (simp add: take_ok_def gather_def)
  moreover obtain p where p: "run_ops plain_fmt list_bloom gather chunk_ops newTablePipeline = Some p"
    by (simp add: chunk_ops_def window_run_simps)
  ultimately have "snd (closeWindow plain_fmt gather 1 p) = spec_close plain_fmt (snd (fold (spec_op plain_fmt) chunk_ops (None, \<lambda>i. None)) 1)"
    by (rule closeWindow_emits_untouched)
  also have "\<dots> = Ok (Some [(keyed_row True [''a''])\<lparr>wr_Pos := []\<rparr>], True)"
    by (simp add: chunk_ops_def spec_close_def stream_keys_def change_keys_def row_batch_def keyed_row_def KeyString_def
        adoptWindowPos_def Let_def image_def)
  finally show ?thesis using p by blast
qed

text \<open>
  C37: key strings merge different keys. For all texts \<open>a\<close>, \<open>b\<close>, \<open>c\<close>, a two-column key whose first column is
  \<open>a\<close>, the unit separator, \<open>s:\<close> and \<open>b\<close> and whose second is \<open>c\<close> renders as the key of \<open>a\<close> and of \<open>b\<close>, the
  separator, \<open>s:\<close> and \<open>c\<close>. A tagged live change of the one counts as a change of the other, whatever the
  formatting, the filter and the gather: the window that holds the other's row emits nothing for it.
\<close>

theorem KeyString_merges_keys:
  assumes "wb_Readable w" "wb_Rows w = [r]" "wr_Key r = [CString (a @ [unit_sep] @ ''s:'' @ b), CString c]"
    and "wb_Readable l" "wb_Rows l = [u]" "wr_Key u = [CString a, CString (b @ [unit_sep] @ ''s:'' @ c)]"
  shows "wr_Key r \<noteq> wr_Key u \<and> KeyString F (wr_Key r) = KeyString F (wr_Key u)
    \<and> (\<exists>p. run_ops F B T [AddOp i w, LiveOp l True] newTablePipeline = Some p
        \<and> snd (closeWindow F T i p) = Ok (None, True))"
  using assms by (simp add: window_run_simps closeWindow_def keepIdx_def)

theorem KeyString_merges_keys_witness:
  "\<exists>p. run_ops plain_fmt list_bloom gather [AddOp 1 (row_batch [keyed_row True [''x'' @ [unit_sep] @ ''s:y'', ''z'']]),
        LiveOp (row_batch [keyed_row False [''x'', ''y'' @ [unit_sep] @ ''s:z'']]) True] newTablePipeline = Some p
    \<and> snd (closeWindow plain_fmt gather 1 p) = Ok (None, True)"
  using KeyString_merges_keys [of "row_batch [keyed_row True [''x'' @ [unit_sep] @ ''s:y'', ''z'']]" _ "''x''" "''y''" "''z''"
      "row_batch [keyed_row False [''x'', ''y'' @ [unit_sep] @ ''s:z'']]" _ plain_fmt list_bloom gather 1]
  by (simp add: row_batch_def keyed_row_def)

end
