(* ===== verification/Source_Changes.thy ===== *)
theory Source_Changes
  imports Row_Filter Worker_Window
begin

text \<open>
  From row changes to emitted changes: the read filter of a table on one decoded row
  (\<open>internal/source/postgres/reader.go\<close>), the change handlers of the Postgres reader and \<open>appendChange\<close> of the
  MySQL reader (\<open>internal/source/mysql/reader.go\<close>). A row is the list of its cells in the table's column order,
  with \<open>None\<close> for null; decoding the wire format is not modelled.

  The lemmas show that the filter reads the row itself although it sees the filter's columns only, that the
  emitted changes keep an upsert target equal to the filtered source table, and that without full before
  images they do not.
\<close>

section \<open>The filter on a row\<close>

type_synonym 'f drow = "'f cell option list"

definition column_value :: "table_state \<Rightarrow> 'f drow \<Rightarrow> string \<Rightarrow> 'f cell option" where
  "column_value st row name = (let j = FindColumn st name in if j < 0 \<or> j \<ge> int (length row) then None else row ! nat j)"

text \<open>The same of a MySQL table, whose lookup of a column by name is \<open>look\<close>.\<close>

definition my_column_value :: "(string \<Rightarrow> int) \<Rightarrow> 'f drow \<Rightarrow> string \<Rightarrow> 'f cell option" where
  "my_column_value look row name = (let i = look name in if i < 0 \<or> i \<ge> int (length row) then None else row ! nat i)"

fun walk_columns :: "'f filter_node \<Rightarrow> string list \<Rightarrow> string list"
and walk_members :: "'f filter_node list \<Rightarrow> string list \<Rightarrow> string list" where
  "walk_columns (FilterNode al an nt pr) out =
     (let out1 = walk_members al out; out2 = walk_members an out1;
          out3 = (case nt of None \<Rightarrow> out2 | Some n \<Rightarrow> walk_columns n out2)
      in case pr of
           None \<Rightarrow> out3
         | Some p \<Rightarrow> if pr_Column p \<noteq> [] \<and> pr_Column p \<notin> set out3 then out3 @ [pr_Column p] else out3)"
| "walk_members [] out = out"
| "walk_members (n # ns) out = walk_members ns (walk_columns n out)"

definition filterColumns :: "'f filter_node option \<Rightarrow> string list" where
  "filterColumns f = (case f of None \<Rightarrow> [] | Some n \<Rightarrow> walk_columns n [])"

record 'f projection =
  pj_program :: "'f xexpr option"
  pj_filterCols :: "string list"

definition newProjection :: "'f filter_node option \<Rightarrow> table_state \<Rightarrow> (filter_err, 'f projection) res" where
  "newProjection f st = res_bind (pg_compileFilterExpr st f) (\<lambda>prog. Ok \<lparr>pj_program = prog, pj_filterCols = filterColumns f\<rparr>)"

definition hasFilter :: "'f projection \<Rightarrow> bool" where
  "hasFilter p \<longleftrightarrow> pj_program p \<noteq> None"

datatype change_err = FilterFailed | NoPrimaryKey | PartialJSON

text \<open>The map of the filter's columns, and a column the program reads from it; a missing entry is nil.\<close>

definition filter_row :: "table_state \<Rightarrow> string list \<Rightarrow> 'f drow \<Rightarrow> (string, 'f cell option) gomap" where
  "filter_row st cols row = foldl (\<lambda>full name. gm_put name (column_value st row name) full) [] cols"

definition keep :: "('f, 'f cell) expr_ops \<Rightarrow> 'f projection \<Rightarrow> 'f drow \<Rightarrow> table_state \<Rightarrow> (change_err, bool) res" where
  "keep E p row st =
     (case pj_program p of
        None \<Rightarrow> Ok True
      | Some prog \<Rightarrow>
          (case x_eval E (gm_at None (filter_row st (pj_filterCols p) row)) prog of
             None \<Rightarrow> Err FilterFailed
           | Some b \<Rightarrow> Ok b))"

text \<open>
  The MySQL reader's; the program sees a value as \<open>decode\<close>, the decoding of a column's value, gives it.
\<close>

definition my_keep :: "('f, 'v) expr_ops \<Rightarrow> 'f projection \<Rightarrow> (string \<Rightarrow> int) \<Rightarrow> (string \<Rightarrow> 'f cell option \<Rightarrow> 'v option) \<Rightarrow> 'f drow \<Rightarrow> (change_err, bool) res" where
  "my_keep E p look decode row =
     (case pj_program p of
        None \<Rightarrow> Ok True
      | Some prog \<Rightarrow>
          (let full = foldl (\<lambda>full name. gm_put name
                 (if look name < 0 \<or> look name \<ge> int (length row) then None else decode name (row ! nat (look name))) full) [] (pj_filterCols p)
           in case x_eval E (gm_at None full) prog of None \<Rightarrow> Err FilterFailed | Some b \<Rightarrow> Ok b))"

section \<open>Handlers\<close>

datatype row_op = RowInsert | RowUpdate | RowDelete

text \<open>Emitted changes: an operation and the image it carries.\<close>

type_synonym 'r emitted = "(row_op \<times> 'r) list"

definition keyTuple :: "table_state \<Rightarrow> string list \<Rightarrow> 'f drow \<Rightarrow> 'f pkey" where
  "keyTuple st pk row = map (\<lambda>name. case column_value st row name of None \<Rightarrow> CNil | Some c \<Rightarrow> c) pk"

text \<open>
  Appending an image to the encoder of its table. The cells have been decoded for the table's columns; an image
  the encoder itself refuses, which ends the reader, is not modelled.
\<close>

definition pg_append :: "bool \<Rightarrow> row_op \<Rightarrow> 'f drow \<Rightarrow> (change_err, 'f drow emitted) res" where
  "pg_append hasPK op img = (if op = RowDelete \<and> \<not> hasPK then Err NoPrimaryKey else Ok [(op, img)])"

definition deleteChangedKey :: "'f fmt_ops \<Rightarrow> bool \<Rightarrow> bool \<Rightarrow> table_state \<Rightarrow> string list \<Rightarrow> 'f drow option \<Rightarrow> 'f drow \<Rightarrow> (change_err, 'f drow emitted) res" where
  "deleteChangedKey F upsert hasPK st pk before after =
     (case before of
        None \<Rightarrow> Ok []
      | Some b \<Rightarrow>
          if \<not> upsert then Ok []
          else if KeyString F (keyTuple st pk b) \<noteq> KeyString F (keyTuple st pk after) then pg_append hasPK RowDelete b
          else Ok [])"

definition handleInsert :: "('f, 'f cell) expr_ops \<Rightarrow> 'f projection \<Rightarrow> table_state \<Rightarrow> bool \<Rightarrow> 'f drow \<Rightarrow> (change_err, 'f drow emitted) res" where
  "handleInsert E p st hasPK row = res_bind (keep E p row st) (\<lambda>k. if \<not> k then Ok [] else pg_append hasPK RowInsert row)"

definition handleUpdate :: "('f, 'f cell) expr_ops \<Rightarrow> 'f fmt_ops \<Rightarrow> bool \<Rightarrow> bool \<Rightarrow> 'f projection \<Rightarrow> table_state \<Rightarrow> string list \<Rightarrow> 'f drow \<Rightarrow> 'f drow option \<Rightarrow>
    (change_err, 'f drow emitted) res" where
  "handleUpdate E F upsert hasPK p st pk row before =
     (let finish = res_bind (deleteChangedKey F upsert hasPK st pk before row) (\<lambda>ds. res_bind (pg_append hasPK RowUpdate row) (\<lambda>us. Ok (ds @ us)))
      in if \<not> hasFilter p then finish
         else res_bind (keep E p row st) (\<lambda>afterMatch.
           res_bind (case before of None \<Rightarrow> Ok False | Some b \<Rightarrow> keep E p b st) (\<lambda>beforeMatch.
             if \<not> beforeMatch \<and> \<not> afterMatch then Ok []
             else (case before of
                     Some b \<Rightarrow> if beforeMatch \<and> \<not> afterMatch then pg_append hasPK RowDelete b else finish
                   | None \<Rightarrow> finish))))"

definition handleDelete :: "('f, 'f cell) expr_ops \<Rightarrow> 'f projection \<Rightarrow> table_state \<Rightarrow> bool \<Rightarrow> 'f drow \<Rightarrow> (change_err, 'f drow emitted) res" where
  "handleDelete E p st hasPK before = res_bind (keep E p before st) (\<lambda>k. if \<not> k then Ok [] else pg_append hasPK RowDelete before)"

text \<open>
  The MySQL reader, over the table's filter \<open>kp\<close> and whether a value is a partial JSON document; a deleted row's
  image is in the after slot.
\<close>

definition keyOf :: "(string \<Rightarrow> int) \<Rightarrow> string list \<Rightarrow> 'f drow \<Rightarrow> 'f pkey" where
  "keyOf look pk row = map (\<lambda>name. case my_column_value look row name of None \<Rightarrow> CNil | Some c \<Rightarrow> c) pk"

definition rejectPartialJSON :: "('f cell \<Rightarrow> bool) \<Rightarrow> 'f drow \<Rightarrow> bool" where
  "rejectPartialJSON isDiff img \<longleftrightarrow> (\<exists>v\<in>set img. case v of None \<Rightarrow> False | Some c \<Rightarrow> isDiff c)"

definition appendImage :: "bool \<Rightarrow> row_op \<Rightarrow> 'f drow \<Rightarrow> (change_err, 'f drow emitted) res" where
  "appendImage hasPK op img = (if op = RowDelete \<and> \<not> hasPK then Err NoPrimaryKey else Ok [(op, img)])"

definition appendChange :: "'f fmt_ops \<Rightarrow> ('f cell \<Rightarrow> bool) \<Rightarrow> ('f drow \<Rightarrow> (change_err, bool) res) \<Rightarrow> (string \<Rightarrow> int) \<Rightarrow> string list \<Rightarrow> bool \<Rightarrow> bool \<Rightarrow>
    row_op \<Rightarrow> 'f drow \<Rightarrow> 'f drow option \<Rightarrow> (change_err, 'f drow emitted) res" where
  "appendChange F isDiff kp look pk upsert hasPK op after before =
     (if rejectPartialJSON isDiff after then Err PartialJSON
      else if (case before of None \<Rightarrow> False | Some b \<Rightarrow> rejectPartialJSON isDiff b) then Err PartialJSON
      else if op = RowUpdate then
        res_bind (kp after) (\<lambda>afterKeep.
          res_bind (case before of None \<Rightarrow> Ok False | Some b \<Rightarrow> kp b) (\<lambda>beforeKeep.
            let finish = (\<lambda>ds. res_bind (appendImage hasPK RowUpdate after) (\<lambda>us. Ok (ds @ us)))
            in if \<not> afterKeep \<and> \<not> beforeKeep then Ok []
               else (case before of
                       None \<Rightarrow> finish []
                     | Some b \<Rightarrow>
                         if beforeKeep \<and> \<not> afterKeep then appendImage hasPK RowDelete b
                         else if upsert \<and> KeyString F (keyOf look pk b) \<noteq> KeyString F (keyOf look pk after)
                              then res_bind (appendImage hasPK RowDelete b) finish
                         else finish [])))
      else res_bind (kp after) (\<lambda>k. if \<not> k then Ok [] else appendImage hasPK op after))"

section \<open>The filter reads the row\<close>

fun x_columns :: "'f xexpr \<Rightarrow> string set" where
  "x_columns (XAnd xs) = \<Union> (set (map x_columns xs))"
| "x_columns (XOr xs) = \<Union> (set (map x_columns xs))"
| "x_columns (XNot x) = x_columns x"
| "x_columns (XEqNil c) = {c}"
| "x_columns (XNeNil c) = {c}"
| "x_columns (XCmp cv c op l) = {c}"
| "x_columns (XIn cv c ls) = {c}"
| "x_columns (XExact fn c l op) = {c}"
| "x_columns XFalse = {}"

lemma x_eval_cong:
  "(\<And>c. c \<in> x_columns x \<Longrightarrow> r c = r' c) \<Longrightarrow> x_eval E r x = x_eval E r' x"
  "(\<And>c. c \<in> \<Union> (set (map x_columns xs)) \<Longrightarrow> r c = r' c) \<Longrightarrow> x_all E r xs = x_all E r' xs"
  "(\<And>c. c \<in> \<Union> (set (map x_columns xs)) \<Longrightarrow> r c = r' c) \<Longrightarrow> x_any E r xs = x_any E r' xs"
proof (induction E r x and E r xs and E r xs rule: x_eval_x_all_x_any.induct)
qed (auto split: option.splits)

text \<open>The columns of a compiled filter are the columns of its leaves, which the walk collects.\<close>

lemma leaf_columns:
  "plain_leaf cv lit p = Ok y \<Longrightarrow> x_columns y \<subseteq> {pr_Column p}"
  "exact_leaf fn p = Ok y \<Longrightarrow> x_columns y \<subseteq> {pr_Column p}"
  by (auto simp: plain_leaf_def exact_leaf_def guarded_def res_bind_Ok_conv Let_def split: if_splits option.splits)

lemma pg_leaf_columns: "pg_filterExprPredicate st p = Ok y \<Longrightarrow> x_columns y \<subseteq> {pr_Column p}"
  by (auto simp: pg_filterExprPredicate_def filterExprPgNumeric_def dest: leaf_columns split: if_splits)

lemma Source_columns:
  "Source b fo = Ok x \<Longrightarrow> fo = Some f \<Longrightarrow> \<forall>p y. b p = Ok y \<longrightarrow> x_columns y \<subseteq> {pr_Column p} \<Longrightarrow> \<forall>p\<in>leaves f. pr_Column p \<in> C \<Longrightarrow> x_columns x \<subseteq> C"
  "group b fs = Ok xs \<Longrightarrow> \<forall>p y. b p = Ok y \<longrightarrow> x_columns y \<subseteq> {pr_Column p} \<Longrightarrow> \<forall>f\<in>set fs. \<forall>p\<in>leaves f. pr_Column p \<in> C \<Longrightarrow>
     \<forall>x\<in>set xs. x_columns x \<subseteq> C"
proof (induction b fo and b fs arbitrary: x f and xs rule: Source_group.induct)
  case (2 b al an nt pr)
  have f: "f = FilterNode al an nt pr" using "2.prems"(2) by simp
  consider (al) xs where "al \<noteq> []" "group b al = Ok xs" "x = XAnd xs"
    | (an) xs where "al = []" "an \<noteq> []" "group b an = Ok xs" "x = XOr xs"
    | (nt) n m where "al = []" "an = []" "nt = Some n" "Negate n = (Ok m :: (filter_err, 'a filter_node option) res)" "Source b m = Ok x"
    | (pr) p where "al = []" "an = []" "nt = None" "pr = Some p" "b p = Ok x"
    using "2.prems"(1) by (auto split: if_splits option.splits res.splits)
  then show ?case
  proof cases
    case al
    have "\<forall>f\<in>set al. \<forall>p\<in>leaves f. pr_Column p \<in> C" using "2.prems"(4) al(1) unfolding f by auto
    from "2.IH"(1) [OF al(1,2) "2.prems"(3) this] al(3) show ?thesis by auto
  next
    case an
    have "\<forall>f\<in>set an. \<forall>p\<in>leaves f. pr_Column p \<in> C" using "2.prems"(4) an(1,2) unfolding f by auto
    from "2.IH"(2) [OF _ an(2,3) "2.prems"(3) this] an(1,4) show ?thesis by auto
  next
    case nt
    obtain g where g: "m = Some g" using nt(5) by (cases m) auto
    have "\<forall>p\<in>leaves n. pr_Column p \<in> C" using "2.prems"(4) nt(1-3) unfolding f by simp
    with Negate_leaves(1) [of "\<lambda>p. pr_Column p \<in> C" n g] nt(4) g have "\<forall>p\<in>leaves g. pr_Column p \<in> C" by simp
    from "2.IH"(3) [OF _ _ nt(3,4,5) g "2.prems"(3) this] nt(1,2) show ?thesis by simp
  next
    case pr
    with "2.prems"(3,4) show ?thesis unfolding f by fastforce
  qed
next
  case (4 b n ns)
  obtain y ys where y: "Source b (Some n) = Ok y" "group b ns = Ok ys" "xs = y # ys"
    using "4.prems"(1) by (auto split: res.splits)
  with "4.IH"(1) [OF y(1) refl "4.prems"(2)] "4.IH"(2) [OF y(1,2) "4.prems"(2)] "4.prems"(3) show ?case by simp
qed simp_all

lemma walk_grows:
  fixes f :: "'f filter_node" and fs :: "'f filter_node list"
  shows "set out \<subseteq> set (walk_columns f out)" "set out \<subseteq> set (walk_members fs out)"
proof (induction f out and fs out rule: walk_columns_walk_members.induct)
  case (1 al an nt pr out)
  let ?o = "walk_members an (walk_members al out)"
  have "set out \<subseteq> set ?o" using 1(1) 1(2) [OF refl] by blast
  also have "\<dots> \<subseteq> set (case nt of None \<Rightarrow> ?o | Some n \<Rightarrow> walk_columns n ?o)" using 1(3) [OF refl refl] by (cases nt) auto
  also have "\<dots> \<subseteq> set (walk_columns (FilterNode al an nt pr) out)" by (cases pr) (auto simp: Let_def)
  finally show ?case .
qed auto

lemma walk_step:
  assumes "c \<in> set (walk_members al out) \<or> c \<in> set (walk_members an (walk_members al out))
      \<or> (\<exists>n. nt = Some n \<and> c \<in> set (walk_columns n (walk_members an (walk_members al out))))
      \<or> (\<exists>p. pr = Some p \<and> c = pr_Column p \<and> c \<noteq> [])"
  shows "c \<in> set (walk_columns (FilterNode al an nt pr) out)"
proof -
  let ?o = "walk_members an (walk_members al out)"
  have "c \<in> set ?o \<or> (\<exists>n. nt = Some n \<and> c \<in> set (walk_columns n ?o)) \<or> (\<exists>p. pr = Some p \<and> c = pr_Column p \<and> c \<noteq> [])"
    using assms walk_grows(2) [of "walk_members al out" an] by auto
  moreover have "set ?o \<subseteq> set (walk_columns n ?o)" for n by (rule walk_grows(1))
  ultimately show ?thesis by (cases nt; cases pr) (auto simp: Let_def)
qed

lemma walk_collects:
  fixes f :: "'f filter_node" and fs :: "'f filter_node list"
  shows "p \<in> leaves f \<Longrightarrow> pr_Column p \<noteq> [] \<Longrightarrow> pr_Column p \<in> set (walk_columns f out)"
    and "p \<in> \<Union> (leaves ` set fs) \<Longrightarrow> pr_Column p \<noteq> [] \<Longrightarrow> pr_Column p \<in> set (walk_members fs out)"
proof (induction f out and fs out rule: walk_columns_walk_members.induct)
  case (1 al an nt pr out)
  consider "p \<in> \<Union> (leaves ` set al)" | "p \<in> \<Union> (leaves ` set an)" | n where "nt = Some n" "p \<in> leaves n" | "pr = Some p"
    using 1(4) by (auto split: if_splits option.splits)
  then show ?case
    by (intro walk_step, cases) (use 1(1,2,3,5) in auto)
next
  case (3 n ns out)
  then show ?case using walk_grows(2) [of "walk_columns n out" ns] by auto
qed simp

lemma filter_row_from:
  "gm_at None (foldl (\<lambda>full name. gm_put name (column_value st row name) full) m cols) c =
     (if c \<in> set cols then column_value st row c else gm_at None m c)"
  by (induction cols arbitrary: m) auto

lemma filter_row_at: "gm_at None (filter_row st cols row) c = (if c \<in> set cols then column_value st row c else None)"
  by (simp add: filter_row_def filter_row_from)

text \<open>Reading only the filter's columns, the program sees the row.\<close>

lemma keep_reads_row:
  assumes "newProjection (Some f) st = Ok p" "\<forall>q\<in>leaves f. pr_Column q \<noteq> []"
  shows "\<exists>prog. pg_compileFilterExpr st (Some f) = Ok (Some prog) \<and>
    keep E p row st = (case x_eval E (column_value st row) prog of None \<Rightarrow> Err FilterFailed | Some b \<Rightarrow> Ok b)"
proof -
  obtain prog where prog: "pg_compileFilterExpr st (Some f) = Ok (Some prog)" "p = \<lparr>pj_program = Some prog, pj_filterCols = walk_columns f []\<rparr>"
    "Source (pg_filterExprPredicate st) (Some f) = Ok prog"
    using assms(1) by (auto simp: newProjection_def filterColumns_def res_bind_Ok_conv pg_compileFilterExpr_def)
  have "x_columns prog \<subseteq> set (walk_columns f [])"
    using Source_columns(1) [OF prog(3) refl, of "set (walk_columns f [])"] pg_leaf_columns walk_collects(1) assms(2) by blast
  then have "x_eval E (gm_at None (filter_row st (walk_columns f []) row)) prog = x_eval E (column_value st row) prog"
    by (intro x_eval_cong(1)) (auto simp: filter_row_at)
  with prog show ?thesis by (simp add: keep_def)
qed

section \<open>The target follows the filtered source\<close>

text \<open>Changes of a source table, and the table by key; a change is possible in the table it happens to.\<close>

datatype 'r source_change = SrcInsert 'r | SrcUpdate 'r 'r | SrcDelete 'r

fun change_rows :: "'r source_change \<Rightarrow> 'r set" where
  "change_rows (SrcInsert r) = {r}"
| "change_rows (SrcUpdate b a) = {b, a}"
| "change_rows (SrcDelete r) = {r}"

fun change_ok :: "('r \<Rightarrow> 'k) \<Rightarrow> ('k \<Rightarrow> 'r option) \<Rightarrow> 'r source_change \<Rightarrow> bool" where
  "change_ok key T (SrcInsert r) \<longleftrightarrow> T (key r) = None"
| "change_ok key T (SrcUpdate b a) \<longleftrightarrow> T (key b) = Some b \<and> (key a = key b \<or> T (key a) = None)"
| "change_ok key T (SrcDelete r) \<longleftrightarrow> T (key r) = Some r"

fun change_table :: "('r \<Rightarrow> 'k) \<Rightarrow> 'r source_change \<Rightarrow> ('k \<Rightarrow> 'r option) \<Rightarrow> 'k \<Rightarrow> 'r option" where
  "change_table key (SrcInsert r) T = T(key r \<mapsto> r)"
| "change_table key (SrcUpdate b a) T = (T(key b := None))(key a \<mapsto> a)"
| "change_table key (SrcDelete r) T = T(key r := None)"

fun changes_ok :: "('r \<Rightarrow> 'k) \<Rightarrow> ('k \<Rightarrow> 'r option) \<Rightarrow> 'r source_change list \<Rightarrow> bool" where
  "changes_ok key T [] \<longleftrightarrow> True"
| "changes_ok key T (ev # evs) \<longleftrightarrow> change_ok key T ev \<and> changes_ok key (change_table key ev T) evs"

text \<open>An upsert target applies what is emitted.\<close>

definition upsert :: "('r \<Rightarrow> 'k) \<Rightarrow> row_op \<times> 'r \<Rightarrow> ('k \<Rightarrow> 'r option) \<Rightarrow> 'k \<Rightarrow> 'r option" where
  "upsert key out M = (if fst out = RowDelete then M(key (snd out) := None) else M(key (snd out) \<mapsto> snd out))"

definition filtered :: "('r \<Rightarrow> bool) \<Rightarrow> ('k \<Rightarrow> 'r option) \<Rightarrow> 'k \<Rightarrow> 'r option" where
  "filtered kept T k = (case T k of None \<Rightarrow> None | Some r \<Rightarrow> if kept r then Some r else None)"

fun run_changes :: "('r source_change \<Rightarrow> ('e, 'r emitted) res) \<Rightarrow> ('r \<Rightarrow> 'k) \<Rightarrow> 'r source_change list \<Rightarrow> ('k \<Rightarrow> 'r option) \<Rightarrow>
    ('e, 'k \<Rightarrow> 'r option) res" where
  "run_changes handle key [] M = Ok M"
| "run_changes handle key (ev # evs) M = res_bind (handle ev) (\<lambda>out. run_changes handle key evs (fold (upsert key) out M))"

definition pg_handle :: "('f, 'f cell) expr_ops \<Rightarrow> 'f fmt_ops \<Rightarrow> 'f projection \<Rightarrow> table_state \<Rightarrow> string list \<Rightarrow> 'f drow source_change \<Rightarrow>
    (change_err, 'f drow emitted) res" where
  "pg_handle E F p st pk ev =
     (case ev of
        SrcInsert r \<Rightarrow> handleInsert E p st True r
      | SrcUpdate b a \<Rightarrow> handleUpdate E F True True p st pk a (Some b)
      | SrcDelete r \<Rightarrow> handleDelete E p st True r)"

definition my_handle :: "'f fmt_ops \<Rightarrow> ('f cell \<Rightarrow> bool) \<Rightarrow> ('f drow \<Rightarrow> (change_err, bool) res) \<Rightarrow> (string \<Rightarrow> int) \<Rightarrow> string list \<Rightarrow>
    'f drow source_change \<Rightarrow> (change_err, 'f drow emitted) res" where
  "my_handle F isDiff kp look pk ev =
     (case ev of
        SrcInsert r \<Rightarrow> appendChange F isDiff kp look pk True True RowInsert r None
      | SrcUpdate b a \<Rightarrow> appendChange F isDiff kp look pk True True RowUpdate a (Some b)
      | SrcDelete r \<Rightarrow> appendChange F isDiff kp look pk True True RowDelete r None)"

text \<open>What both readers emit for a change.\<close>

fun expected :: "('r \<Rightarrow> bool) \<Rightarrow> ('r \<Rightarrow> 'k) \<Rightarrow> 'r source_change \<Rightarrow> 'r emitted" where
  "expected kept key (SrcInsert r) = (if kept r then [(RowInsert, r)] else [])"
| "expected kept key (SrcUpdate b a) =
     (if \<not> kept b \<and> \<not> kept a then [] else if \<not> kept a then [(RowDelete, b)]
      else (if key b \<noteq> key a then [(RowDelete, b)] else []) @ [(RowUpdate, a)])"
| "expected kept key (SrcDelete r) = (if kept r then [(RowDelete, r)] else [])"

lemma filtered_put: "filtered kept (T(k := t)) = (filtered kept T)(k := (case t of None \<Rightarrow> None | Some r \<Rightarrow> if kept r then Some r else None))"
  by (simp add: filtered_def fun_eq_iff)

lemma filtered_absent: "T k = None \<or> (\<exists>r. T k = Some r \<and> \<not> kept r) \<Longrightarrow> (filtered kept T)(k := None) = filtered kept T"
  by (auto simp: filtered_def fun_eq_iff)

lemma expected_follows:
  assumes "change_ok key T ev"
  shows "fold (upsert key) (expected kept key ev) (filtered kept T) = filtered kept (change_table key ev T)"
proof (cases ev)
  case (SrcInsert r)
  with assms show ?thesis by (simp add: upsert_def filtered_put filtered_absent)
next
  case (SrcDelete r)
  with assms show ?thesis by (simp add: upsert_def filtered_put filtered_absent)
next
  case (SrcUpdate b a)
  show ?thesis
  proof (cases "kept a")
    case True
    with SrcUpdate show ?thesis by (simp add: upsert_def filtered_put)
  next
    case False
    have "(filtered kept T)(key b := None, key a := None) = (filtered kept T)(key b := None)"
      using assms SrcUpdate filtered_absent [of T "key a" kept] by (auto simp: fun_upd_twist fun_upd_idem_iff filtered_def)
    with False SrcUpdate assms show ?thesis by (simp add: upsert_def filtered_put filtered_absent)
  qed
qed

lemma run_changes_follow:
  assumes "\<And>ev. ev \<in> set evs \<Longrightarrow> handle ev = Ok (expected kept key ev)" "changes_ok key T evs"
  shows "run_changes handle key evs (filtered kept T) = Ok (filtered kept (fold (change_table key) evs T))"
  using assms by (induction evs arbitrary: T) (simp_all add: expected_follows)

definition kept :: "('r \<Rightarrow> ('e, bool) res) \<Rightarrow> 'r \<Rightarrow> bool" where
  "kept kp r \<longleftrightarrow> kp r = Ok True"

lemma decided: "\<exists>b. kp r = Ok b \<Longrightarrow> kp r = Ok (kept kp r)"
  by (auto simp: kept_def)

lemma pg_handle_expected:
  assumes rows: "\<forall>r\<in>change_rows ev. \<exists>b. keep E p r st = Ok b" and inj: "inj_on (KeyString F) (keyTuple st pk ` change_rows ev)"
  shows "pg_handle E F p st pk ev = Ok (expected (kept (\<lambda>r. keep E p r st)) (keyTuple st pk) ev)"
proof (cases ev)
  case (SrcUpdate b a)
  have k: "keep E p b st = Ok (kept (\<lambda>r. keep E p r st) b)" "keep E p a st = Ok (kept (\<lambda>r. keep E p r st) a)"
    using rows SrcUpdate by (auto intro!: decided [of "\<lambda>r. keep E p r st"])
  have "\<not> hasFilter p \<Longrightarrow> kept (\<lambda>r. keep E p r st) r" for r by (simp add: hasFilter_def kept_def keep_def)
  moreover have "KeyString F (keyTuple st pk b) = KeyString F (keyTuple st pk a) \<longleftrightarrow> keyTuple st pk b = keyTuple st pk a"
    using inj SrcUpdate by (auto dest: inj_onD)
  ultimately show ?thesis using SrcUpdate
    by (simp add: pg_handle_def handleUpdate_def k deleteChangedKey_def pg_append_def Let_def)
qed (use rows decided [of "\<lambda>r. keep E p r st"] in \<open>auto simp: pg_handle_def handleInsert_def handleDelete_def pg_append_def kept_def\<close>)

lemma my_handle_expected:
  assumes rows: "\<forall>r\<in>change_rows ev. \<exists>b. kp r = Ok b" and inj: "inj_on (KeyString F) (keyOf look pk ` change_rows ev)"
    and diff: "\<forall>r\<in>change_rows ev. \<not> rejectPartialJSON isDiff r"
  shows "my_handle F isDiff kp look pk ev = Ok (expected (kept kp) (keyOf look pk) ev)"
proof (cases ev)
  case (SrcUpdate b a)
  have k: "kp b = Ok (kept kp b)" "kp a = Ok (kept kp a)" using rows SrcUpdate by (auto intro!: decided [of kp])
  have "KeyString F (keyOf look pk b) = KeyString F (keyOf look pk a) \<longleftrightarrow> keyOf look pk b = keyOf look pk a"
    using inj SrcUpdate by (auto dest: inj_onD)
  then show ?thesis using SrcUpdate diff
    by (simp add: my_handle_def appendChange_def appendImage_def k Let_def)
qed (use rows decided [of kp] diff in \<open>auto simp: my_handle_def appendChange_def appendImage_def kept_def\<close>)

section \<open>Properties\<close>

text \<open>
  C1: the target of a filtered table is always the filtered source. Starting from the rows the filter keeps, any
  sequence of changes the source table can go through, with full before images, is handled without error and
  leaves an upsert target holding exactly the rows of the source table the filter keeps: rows that enter and
  leave the filter and rows whose key changes included. On Postgres and on MySQL; the filter has a result on
  every row, and different keys of the rows have different key strings.
\<close>

theorem target_follows_filtered_source:
  assumes "inj_on (KeyString F) (key ` \<Union> (change_rows ` set evs))" "changes_ok key T evs"
  shows "(key = keyTuple st pk \<and> (\<forall>r\<in>\<Union> (change_rows ` set evs). \<exists>b. keep E p r st = Ok b) \<longrightarrow>
            run_changes (pg_handle E F p st pk) key evs (filtered (kept (\<lambda>r. keep E p r st)) T)
              = Ok (filtered (kept (\<lambda>r. keep E p r st)) (fold (change_table key) evs T)))
       \<and> (key = keyOf look pk \<and> kp = my_keep E' p look decode
            \<and> (\<forall>r\<in>\<Union> (change_rows ` set evs). (\<exists>b. kp r = Ok b) \<and> \<not> rejectPartialJSON isDiff r) \<longrightarrow>
            run_changes (my_handle F isDiff kp look pk) key evs (filtered (kept kp) T)
              = Ok (filtered (kept kp) (fold (change_table key) evs T)))"
proof -
  have inj: "inj_on (KeyString F) (key ` change_rows ev)" if "ev \<in> set evs" for ev
    using assms(1) that by (auto intro: inj_on_subset)
  show ?thesis
  proof (intro conjI impI run_changes_follow [OF _ assms(2)]; elim conjE)
    fix ev
    assume ev: "ev \<in> set evs" and key: "key = keyTuple st pk" and rows: "\<forall>r\<in>\<Union> (change_rows ` set evs). \<exists>b. keep E p r st = Ok b"
    have "\<forall>r\<in>change_rows ev. \<exists>b. keep E p r st = Ok b" using rows ev by blast
    then show "pg_handle E F p st pk ev = Ok (expected (kept (\<lambda>r. keep E p r st)) key ev)"
      using pg_handle_expected inj [OF ev] key by simp
  next
    fix ev
    assume ev: "ev \<in> set evs" and key: "key = keyOf look pk"
      and rows: "\<forall>r\<in>\<Union> (change_rows ` set evs). (\<exists>b. kp r = Ok b) \<and> \<not> rejectPartialJSON isDiff r"
    have "\<forall>r\<in>change_rows ev. \<exists>b. kp r = Ok b" "\<forall>r\<in>change_rows ev. \<not> rejectPartialJSON isDiff r" using rows ev by blast+
    then show "my_handle F isDiff kp look pk ev = Ok (expected (kept kp) key ev)"
      using my_handle_expected inj [OF ev] key by simp
  qed
qed

text \<open>A table of two numbers, the first the key, filtered by \<open>b = 1\<close>.\<close>

definition pg_idb :: table_state where
  "pg_idb = [\<lparr>pc_Name = ''id'', pc_DataType = ''integer''\<rparr>, \<lparr>pc_Name = ''b'', pc_DataType = ''integer''\<rparr>]"

definition b_is_one :: "int filter_node" where
  "b_is_one = leaf_node ''b'' OpEq (VFloat 1)"

definition b_projection :: "int projection" where
  "b_projection = \<lparr>pj_program = Some (guarded ''b'' (XCmp ConvFloat ''b'' OpEq (Lit (VFloat 1)))), pj_filterCols = [''b'']\<rparr>"

fun cell_int :: "int cell \<Rightarrow> int" where
  "cell_int (CInt64 n) = sint n"
| "cell_int _ = 0"

definition cell_expr :: "(int, int cell) expr_ops" where
  "cell_expr = \<lparr>eo_cmp = (\<lambda>cv x l. Some (cell_int x - whole (lit_value l))), eo_equal = (\<lambda>cv x l. cell_int x = whole (lit_value l)),
     eo_dyn = (\<lambda>x. GoInt64 (cell_int x)), eo_num = whole_nums\<rparr>"

definition idb :: "u64 \<Rightarrow> u64 \<Rightarrow> int drow" where
  "idb i b = [Some (CInt64 i), Some (CInt64 b)]"

definition idb_keep :: "int drow \<Rightarrow> (change_err, bool) res" where
  "idb_keep row = keep cell_expr b_projection row pg_idb"

lemma idb_keep [simp]: "idb_keep (idb i b) = Ok (sint b = 1)"
  by (simp add: idb_keep_def keep_def b_projection_def filter_row_def column_value_def pg_idb_def FindColumn_def idb_def guarded_eval cell_expr_def)

lemma idb_key [simp]: "keyTuple pg_idb [''id''] (idb i b) = [CInt64 i]"
  by (simp add: keyTuple_def column_value_def pg_idb_def FindColumn_def idb_def)

definition idb_changes :: "int drow source_change list" where
  "idb_changes = [SrcInsert (idb 1 1), SrcInsert (idb 3 0), SrcUpdate (idb 1 1) (idb 2 1), SrcUpdate (idb 3 0) (idb 3 1), SrcUpdate (idb 2 1) (idb 2 0)]"

definition idb_look :: "string \<Rightarrow> int" where
  "idb_look c = (if c = ''id'' then 0 else if c = ''b'' then 1 else - 1)"

lemma idb_my_keep [simp]: "my_keep cell_expr b_projection idb_look (\<lambda>c v. v) (idb i b) = Ok (sint b = 1)"
  by (simp add: my_keep_def b_projection_def idb_look_def idb_def guarded_eval cell_expr_def)

lemma idb_keyOf [simp]: "keyOf idb_look [''id''] (idb i b) = [CInt64 i]"
  by (simp add: keyOf_def my_column_value_def idb_look_def idb_def)

theorem target_follows_filtered_source_witness:
  "newProjection (Some b_is_one) pg_idb = Ok b_projection \<and>
   (\<exists>M. run_changes (pg_handle cell_expr plain_fmt b_projection pg_idb [''id'']) (keyTuple pg_idb [''id'']) idb_changes Map.empty = Ok M
      \<and> M [CInt64 1] = None \<and> M [CInt64 2] = None \<and> M [CInt64 3] = Some (idb 3 1)) \<and>
   (\<exists>M. run_changes (my_handle plain_fmt (\<lambda>c. False) (my_keep cell_expr b_projection idb_look (\<lambda>c v. v)) idb_look [''id''])
          (keyOf idb_look [''id'']) idb_changes Map.empty = Ok M
      \<and> M [CInt64 1] = None \<and> M [CInt64 2] = None \<and> M [CInt64 3] = Some (idb 3 1))"
proof -
  let ?key = "keyTuple pg_idb [''id'']" and ?mkey = "keyOf idb_look [''id'']"
  let ?kp = "my_keep cell_expr b_projection idb_look (\<lambda>c v. v)"
  have proj: "newProjection (Some b_is_one) pg_idb = Ok b_projection" by code_simp
  have rows: "\<Union> (change_rows ` set idb_changes) = {idb 1 1, idb 3 0, idb 2 1, idb 3 1, idb 2 0}"
    by (auto simp: idb_changes_def)
  have keys: "KeyString plain_fmt [CInt64 1] = ''int64:1''" "KeyString plain_fmt [CInt64 2] = ''int64:2''" "KeyString plain_fmt [CInt64 3] = ''int64:3''"
    by code_simp+
  have inj: "inj_on (KeyString plain_fmt) (?key ` \<Union> (change_rows ` set idb_changes))"
    "inj_on (KeyString plain_fmt) (?mkey ` \<Union> (change_rows ` set idb_changes))"
    unfolding rows by (auto simp: inj_on_def keys)
  have ok: "changes_ok ?key Map.empty idb_changes" "changes_ok ?mkey Map.empty idb_changes" by (simp_all add: idb_changes_def)
  have start: "filtered kp Map.empty = Map.empty" for kp :: "int drow \<Rightarrow> bool" by (simp add: filtered_def fun_eq_iff)
  have keep: "(\<lambda>r. keep cell_expr b_projection r pg_idb) = idb_keep" by (simp add: idb_keep_def fun_eq_iff)
  have dec: "\<forall>r\<in>\<Union> (change_rows ` set idb_changes). \<exists>b. keep cell_expr b_projection r pg_idb = Ok b"
    "\<forall>r\<in>\<Union> (change_rows ` set idb_changes). (\<exists>b. ?kp r = Ok b) \<and> \<not> rejectPartialJSON (\<lambda>c. False) r"
    unfolding rows by (auto simp: idb_keep_def [symmetric] rejectPartialJSON_def split: option.splits)
  let ?M = "filtered (kept idb_keep) (fold (change_table ?key) idb_changes Map.empty)"
  let ?N = "filtered (kept ?kp) (fold (change_table ?mkey) idb_changes Map.empty)"
  have "run_changes (pg_handle cell_expr plain_fmt b_projection pg_idb [''id'']) ?key idb_changes Map.empty = Ok ?M"
    using target_follows_filtered_source [OF inj(1) ok(1), THEN conjunct1, THEN mp, OF conjI [OF refl dec(1)]] unfolding keep start .
  moreover have "?M [CInt64 1] = None" "?M [CInt64 2] = None" "?M [CInt64 3] = Some (idb 3 1)"
    by (simp_all add: idb_changes_def filtered_def kept_def)
  moreover have "run_changes (my_handle plain_fmt (\<lambda>c. False) ?kp idb_look [''id'']) ?mkey idb_changes Map.empty = Ok ?N"
    using target_follows_filtered_source [OF inj(2) ok(2), THEN conjunct2, THEN mp, OF conjI [OF refl conjI [OF refl dec(2)]]] unfolding start .
  moreover have "?N [CInt64 1] = None" "?N [CInt64 2] = None" "?N [CInt64 3] = Some (idb 3 1)"
    by (simp_all add: idb_changes_def filtered_def kept_def)
  ultimately show ?thesis using proj by blast
qed

text \<open>An image that holds none of the values a filter compares never passes it.\<close>

definition compared :: "'f predicate \<Rightarrow> bool" where
  "compared p \<longleftrightarrow> pr_Op p \<noteq> OpIsNull \<and> pr_Op p \<noteq> OpIsNotNull"

lemma compared_Negate [simp]: "compared (Predicate_Negate p) = compared p"
  by (cases "pr_Op p") (simp_all add: compared_def)

lemma pg_leaf_null:
  assumes "pg_filterExprPredicate st p = Ok y" "compared p" "r (pr_Column p) = None"
  shows "x_eval E r y = Some False"
proof -
  have "(\<exists>x. y = guarded (pr_Column p) x)"
    using assms(1,2)
    by (auto simp: pg_filterExprPredicate_def filterExprPgNumeric_def compared_def plain_leaf_def exact_leaf_def res_bind_Ok_conv Let_def
        split: if_splits option.splits)
  with assms(3) show ?thesis by (auto simp: guarded_eval)
qed

lemma x_all_false: "xs \<noteq> [] \<Longrightarrow> \<forall>x\<in>set xs. x_eval E r x = Some False \<Longrightarrow> x_all E r xs = Some False"
  by (cases xs) auto

lemma x_any_false: "\<forall>x\<in>set xs. x_eval E r x = Some False \<Longrightarrow> x_any E r xs = Some False"
  by (induction xs) auto

lemma Source_null:
  "Source b fo = Ok x \<Longrightarrow> fo = Some f \<Longrightarrow> (\<forall>p. P p \<longrightarrow> P (Predicate_Negate p)) \<Longrightarrow>
     (\<forall>p y. P p \<longrightarrow> b p = Ok y \<longrightarrow> x_eval E r y = Some False) \<Longrightarrow> \<forall>p\<in>leaves f. P p \<Longrightarrow> x_eval E r x = Some False"
  "group b fs = Ok xs \<Longrightarrow> (\<forall>p. P p \<longrightarrow> P (Predicate_Negate p)) \<Longrightarrow>
     (\<forall>p y. P p \<longrightarrow> b p = Ok y \<longrightarrow> x_eval E r y = Some False) \<Longrightarrow>
     \<forall>f\<in>set fs. \<forall>p\<in>leaves f. P p \<Longrightarrow> length xs = length fs \<and> (\<forall>x\<in>set xs. x_eval E r x = Some False)"
proof (induction b fo and b fs arbitrary: x f and xs rule: Source_group.induct)
  case (2 b al an nt pr)
  note inv = "2.prems"(3) and leaf = "2.prems"(4)
  have f: "f = FilterNode al an nt pr" using "2.prems"(2) by simp
  consider (al) xs where "al \<noteq> []" "group b al = Ok xs" "x = XAnd xs"
    | (an) xs where "al = []" "an \<noteq> []" "group b an = Ok xs" "x = XOr xs"
    | (nt) n m where "al = []" "an = []" "nt = Some n" "Negate n = (Ok m :: (filter_err, 'a filter_node option) res)" "Source b m = Ok x"
    | (pr) p where "al = []" "an = []" "nt = None" "pr = Some p" "b p = Ok x"
    using "2.prems"(1) by (auto split: if_splits option.splits res.splits)
  then show ?case
  proof cases
    case al
    have "\<forall>f\<in>set al. \<forall>p\<in>leaves f. P p" using "2.prems"(5) al(1) unfolding f by auto
    from "2.IH"(1) [OF al(1,2) inv leaf this] have xs: "length xs = length al" "\<forall>x\<in>set xs. x_eval E r x = Some False" by simp_all
    then have "xs \<noteq> []" using al(1) by auto
    from x_all_false [OF this xs(2)] al(3) show ?thesis by simp
  next
    case an
    have "\<forall>f\<in>set an. \<forall>p\<in>leaves f. P p" using "2.prems"(5) an(1,2) unfolding f by auto
    from "2.IH"(2) [OF _ an(2,3) inv leaf this] an x_any_false [of xs E r] show ?thesis by auto
  next
    case nt
    obtain g where g: "m = Some g" using nt(5) by (cases m) auto
    have "\<forall>p\<in>leaves n. P p" using "2.prems"(5) nt(1-3) unfolding f by simp
    with Negate_leaves(1) [of P n g] inv nt(4) g have "\<forall>p\<in>leaves g. P p" by blast
    from "2.IH"(3) [OF _ _ nt(3,4,5) g inv leaf this] nt(1,2) show ?thesis by simp
  next
    case pr
    with "2.prems"(5) leaf show ?thesis unfolding f by simp
  qed
next
  case (4 b n ns)
  obtain y ys where y: "Source b (Some n) = Ok y" "group b ns = Ok ys" "xs = y # ys"
    using "4.prems"(1) by (auto split: res.splits)
  have "x_eval E r y = Some False"
    using "4.IH"(1) [OF y(1) refl "4.prems"(2,3)] "4.prems"(4) by simp
  moreover have "length ys = length ns \<and> (\<forall>x\<in>set ys. x_eval E r x = Some False)"
    using "4.IH"(2) [OF y(1,2) "4.prems"(2,3)] "4.prems"(4) by simp
  ultimately show ?case by (simp add: y(3))
qed simp_all

lemma keep_null_image:
  assumes "newProjection (Some f) st = Ok p" "\<forall>q\<in>leaves f. pr_Column q \<noteq> [] \<and> compared q \<and> column_value st img (pr_Column q) = None"
  shows "keep E p img st = Ok False"
proof -
  obtain prog where prog: "pg_compileFilterExpr st (Some f) = Ok (Some prog)"
    and k: "keep E p img st = (case x_eval E (column_value st img) prog of None \<Rightarrow> Err FilterFailed | Some b \<Rightarrow> Ok b)"
    using keep_reads_row [OF assms(1)] assms(2) by blast
  have "Source (pg_filterExprPredicate st) (Some f) = Ok prog"
    using prog by (auto simp: pg_compileFilterExpr_def res_bind_Ok_conv)
  then have "x_eval E (column_value st img) prog = Some False"
    by (rule Source_null(1) [where P = "\<lambda>q. compared q \<and> column_value st img (pr_Column q) = None"])
      (use assms(2) pg_leaf_null in auto)
  with k show ?thesis by simp
qed

text \<open>
  C40: without full before images the target keeps rows the source no longer has. Take any Postgres filter all of
  whose leaves compare a column, and an image that holds a null for each of those columns, as the image of a
  table left at its key as replica identity does for a filter on other columns. Deleting the row of that image
  emits nothing, and so does an update to a row the filter does not keep, with that image or with none,
  although the row, when the filter kept it, had been emitted as an insert.
\<close>

theorem key_only_images_leave_rows:
  assumes "newProjection (Some f) st = Ok p"
    and "\<forall>q\<in>leaves f. pr_Column q \<noteq> [] \<and> compared q \<and> column_value st img (pr_Column q) = None"
    and "keep E p old st = Ok True" "keep E p new st = Ok False"
  shows "handleInsert E p st hasPK old = Ok [(RowInsert, old)]
    \<and> handleDelete E p st hasPK img = Ok []
    \<and> handleUpdate E F ups hasPK p st pk new None = Ok []
    \<and> handleUpdate E F ups hasPK p st pk new (Some img) = Ok []"
proof -
  have img: "keep E p img st = Ok False" by (rule keep_null_image [OF assms(1,2)])
  have "hasFilter p"
    using assms(1) by (auto simp: newProjection_def pg_compileFilterExpr_def res_bind_Ok_conv hasFilter_def)
  with assms(3,4) img show ?thesis
    by (simp add: handleInsert_def handleDelete_def handleUpdate_def pg_append_def Let_def)
qed

theorem key_only_images_leave_rows_witness:
  "handleInsert cell_expr b_projection pg_idb True (idb 1 1) = Ok [(RowInsert, idb 1 1)]
   \<and> handleDelete cell_expr b_projection pg_idb True [Some (CInt64 1), None] = Ok []
   \<and> handleUpdate cell_expr plain_fmt True True b_projection pg_idb [''id''] (idb 1 0) None = Ok []"
proof -
  have proj: "newProjection (Some b_is_one) pg_idb = Ok b_projection" by code_simp
  have img: "\<forall>q\<in>leaves b_is_one. pr_Column q \<noteq> [] \<and> compared q \<and> column_value pg_idb [Some (CInt64 1), None :: int cell option] (pr_Column q) = None"
    by (simp add: b_is_one_def leaf_node_def compared_def column_value_def pg_idb_def FindColumn_def)
  have rows: "keep cell_expr b_projection (idb 1 1) pg_idb = Ok True" "keep cell_expr b_projection (idb 1 0) pg_idb = Ok False"
    using idb_keep [of 1 1] idb_keep [of 1 0] unfolding idb_keep_def by simp_all
  show ?thesis using key_only_images_leave_rows [OF proj img rows] by blast
qed

end
