(* ===== verification/Naming.thy ===== *)
theory Naming
  imports Go_Text
begin

text \<open>
  Names of worker groups (\<open>spec/spec.go\<close>, \<open>internal/routing/layout.go\<close>) and the rules of \<open>Validate\<close>
  (\<open>spec/validate.go\<close>) on the names and worker counts of a pipeline's tables. A name is given as its code points;
  lower-casing outside ASCII and the hash SHA-256 are parameters.

  The lemmas show that every worker group name is a DNS label and that the groups of a validated pipeline all
  have different names.
\<close>

section \<open>Labels\<close>

definition to_lower :: "(nat \<Rightarrow> nat) \<Rightarrow> nat \<Rightarrow> nat" where
  "to_lower uni r = (if r < 128 then (if 65 \<le> r \<and> r \<le> 90 then r + 32 else r) else uni r)"

definition alnum :: "nat \<Rightarrow> bool" where
  "alnum r \<longleftrightarrow> 97 \<le> r \<and> r \<le> 122 \<or> 48 \<le> r \<and> r \<le> 57"

definition label_step :: "string \<times> bool \<Rightarrow> nat \<Rightarrow> string \<times> bool" where
  "label_step st r =
     (case st of (b, dash) \<Rightarrow>
        if alnum r then (b @ [char_of r], False)
        else if b \<noteq> [] \<and> \<not> dash then (b @ ''-'', True)
        else (b, dash))"

definition trim_dashes :: "string \<Rightarrow> string" where
  "trim_dashes s = rev (dropWhile (\<lambda>c. c = CHR ''-'') (rev (dropWhile (\<lambda>c. c = CHR ''-'') s)))"

definition hex_digit :: "nat \<Rightarrow> char" where
  "hex_digit d = char_of (if d < 10 then 48 + d else 87 + d)"

definition hex_text :: "8 word list \<Rightarrow> string" where
  "hex_text bs = concat (map (\<lambda>b. [hex_digit (unat b div 16), hex_digit (unat b mod 16)]) bs)"

definition maxPrefix :: nat where "maxPrefix = 52"

definition dnsLabel :: "(nat \<Rightarrow> nat) \<Rightarrow> (string \<Rightarrow> 8 word list) \<Rightarrow> nat list \<Rightarrow> string" where
  "dnsLabel uni sha256 s =
     (let b = fst (foldl label_step ([], False) (map (to_lower uni) s));
          out = trim_dashes b;
          out1 = (if out = [] then ''w'' else out);
          out2 = (if of_char (hd out1) < (97 :: nat) \<or> of_char (hd out1) > (122 :: nat) then ''w-'' @ out1 else out1)
      in if length out2 > maxPrefix
         then take (maxPrefix - 9) out2 @ ''-'' @ hex_text (take 4 (sha256 out2))
         else out2)"

definition WorkerGroupPrefix :: "(nat \<Rightarrow> nat) \<Rightarrow> (string \<Rightarrow> 8 word list) \<Rightarrow> nat list \<Rightarrow> nat list \<Rightarrow> string" where
  "WorkerGroupPrefix uni sha256 pipeline target = dnsLabel uni sha256 (pipeline @ [45] @ target)"

record worker_spec =
  ws_Number :: int
  ws_Max :: int

record spec_table =
  st_Source :: "nat list"
  st_Target :: "nat list"
  st_Workers :: "worker_spec option"

definition WorkerCount :: "spec_table \<Rightarrow> nat" where
  "WorkerCount t = (case st_Workers t of None \<Rightarrow> 1 | Some w \<Rightarrow> if ws_Number w < 1 then 1 else nat (ws_Number w))"

definition WorkerGroupNames :: "(nat \<Rightarrow> nat) \<Rightarrow> (string \<Rightarrow> 8 word list) \<Rightarrow> nat list \<Rightarrow> spec_table \<Rightarrow> string list" where
  "WorkerGroupNames uni sha256 pipeline t =
     (let prefix = WorkerGroupPrefix uni sha256 pipeline (st_Target t)
      in map (\<lambda>i. prefix @ ''-'' @ FormatUint i) [0..<WorkerCount t])"

definition PartitionName :: "(nat \<Rightarrow> nat) \<Rightarrow> (string \<Rightarrow> 8 word list) \<Rightarrow> nat list \<Rightarrow> nat list \<Rightarrow> nat \<Rightarrow> string" where
  "PartitionName uni sha256 pipeline target p = WorkerGroupPrefix uni sha256 pipeline target @ ''-'' @ FormatUint p"

section \<open>Validation\<close>

datatype name_problem =
    SourceRequired nat | TargetRequired nat | TargetEmptyComponent nat | SourceDuplicated nat | TargetDuplicated nat | GroupDuplicated nat
  | NumberNegative nat | MaxNegative nat | MaxBelowNumber nat

fun split_runes :: "nat list \<Rightarrow> nat list list" where
  "split_runes [] = [[]]"
| "split_runes (r # rs) =
     (if r = 46 then [] # split_runes rs
      else (case split_runes rs of [] \<Rightarrow> [[r]] | p # ps \<Rightarrow> (r # p) # ps))"

definition hasEmptyPathComponent :: "nat list \<Rightarrow> bool" where
  "hasEmptyPathComponent s \<longleftrightarrow> [] \<in> set (split_runes s)"

definition worker_problems :: "nat \<Rightarrow> spec_table \<Rightarrow> name_problem list" where
  "worker_problems i t =
     (case st_Workers t of
        None \<Rightarrow> []
      | Some w \<Rightarrow>
          (if ws_Number w < 0 then [NumberNegative i] else []) @
          (if ws_Max w < 0 then [MaxNegative i] else []) @
          (if ws_Max w > 0 \<and> ws_Max w < int (WorkerCount t) then [MaxBelowNumber i] else []))"

text \<open>The table loop of \<open>Validate\<close>, over the sources, targets and groups seen so far.\<close>

fun naming_problems :: "(nat list \<Rightarrow> string) \<Rightarrow> bool \<Rightarrow> nat \<Rightarrow> spec_table list \<Rightarrow> nat list list \<Rightarrow> nat list list \<Rightarrow> string list \<Rightarrow> name_problem list" where
  "naming_problems group_of iceberg i [] sources targets groups = []"
| "naming_problems group_of iceberg i (t # ts) sources targets groups =
     (let s = st_Source t; g = group_of (st_Target t); tg = st_Target t in
      (if s = [] then [SourceRequired i] else []) @
      (if tg = [] then [TargetRequired i] else if iceberg \<and> hasEmptyPathComponent tg then [TargetEmptyComponent i] else []) @
      (if s \<noteq> [] \<and> s \<in> set sources then [SourceDuplicated i] else []) @
      (if tg \<noteq> [] \<and> tg \<in> set targets then [TargetDuplicated i] else []) @
      (if tg \<noteq> [] \<and> g \<in> set groups then [GroupDuplicated i] else []) @
      worker_problems i t @
      naming_problems group_of iceberg (i + 1) ts (if s \<noteq> [] then s # sources else sources)
        (if tg \<noteq> [] then tg # targets else targets) (if tg \<noteq> [] then g # groups else groups))"

section \<open>Every name is a label\<close>

definition label_char :: "char \<Rightarrow> bool" where
  "label_char c \<longleftrightarrow> alnum (of_char c) \<or> c = CHR ''-''"

text \<open>A DNS-1035 label.\<close>

definition dns_label :: "string \<Rightarrow> bool" where
  "dns_label l \<longleftrightarrow> l \<noteq> [] \<and> length l \<le> 63 \<and> (\<forall>c\<in>set l. label_char c)
     \<and> (97 :: nat) \<le> of_char (hd l) \<and> of_char (hd l) \<le> (122 :: nat) \<and> alnum (of_char (last l))"

lemma alnum_char [simp]: "alnum r \<Longrightarrow> of_char (char_of r :: char) = r"
  by (auto simp: alnum_def)

lemma alnum_mod [simp]: "alnum r \<Longrightarrow> r mod 256 = r"
  by (auto simp: alnum_def)

lemma label_chars: "\<forall>c\<in>set (fst st). label_char c \<Longrightarrow> \<forall>c\<in>set (fst (foldl label_step st rs)). label_char c"
proof (induction rs arbitrary: st)
  case (Cons r rs)
  have "\<forall>c\<in>set (fst (label_step st r)). label_char c"
    using Cons.prems by (auto simp: label_step_def label_char_def split: prod.splits if_splits)
  then show ?case using Cons.IH by simp
qed simp

lemma label_alnum: "label_char c \<Longrightarrow> c \<noteq> CHR ''-'' \<Longrightarrow> alnum (of_char c)"
  by (simp add: label_char_def)

lemma trim_dashes_prefix: "dropWhile (\<lambda>c. c = CHR ''-'') s = trim_dashes s @ rev (takeWhile (\<lambda>c. c = CHR ''-'') (rev (dropWhile (\<lambda>c. c = CHR ''-'') s)))"
proof -
  let ?P = "\<lambda>c. c = CHR ''-''" and ?t = "dropWhile (\<lambda>c. c = CHR ''-'') s"
  have "?t = rev (takeWhile ?P (rev ?t) @ dropWhile ?P (rev ?t))" by (simp only: takeWhile_dropWhile_id rev_rev_ident)
  also have "\<dots> = trim_dashes s @ rev (takeWhile ?P (rev ?t))" by (simp only: rev_append trim_dashes_def)
  finally show ?thesis .
qed

lemma trim_dashes_subset: "set (trim_dashes s) \<subseteq> set s"
proof -
  have "set (trim_dashes s) \<subseteq> set (dropWhile (\<lambda>c. c = CHR ''-'') s)"
    using arg_cong [OF trim_dashes_prefix [of s], of set] by (simp only: set_append Un_upper1)
  then show ?thesis using set_dropWhileD by fastforce
qed

lemma trim_dashes_ends:
  assumes "trim_dashes s \<noteq> []"
  shows "hd (trim_dashes s) \<noteq> CHR ''-''" "last (trim_dashes s) \<noteq> CHR ''-''"
proof -
  let ?P = "\<lambda>c. c = CHR ''-''"
  let ?t = "dropWhile ?P s"
  have r: "dropWhile ?P (rev ?t) \<noteq> []" using assms unfolding trim_dashes_def by simp
  have "last (trim_dashes s) = hd (dropWhile ?P (rev ?t))" unfolding trim_dashes_def by (rule last_rev)
  then show "last (trim_dashes s) \<noteq> CHR ''-''" using hd_dropWhile [OF r] by simp
  have "hd ?t = hd (trim_dashes s)" using arg_cong [OF trim_dashes_prefix [of s], of hd] assms by (simp only: hd_append if_False)
  moreover have "?t \<noteq> []" using trim_dashes_prefix [of s] assms by (metis append_is_Nil_conv)
  ultimately show "hd (trim_dashes s) \<noteq> CHR ''-''" using hd_dropWhile [of ?P s] by simp
qed

lemma hex_digit_alnum: "d < 16 \<Longrightarrow> alnum (of_char (hex_digit d))"
  by (auto simp: hex_digit_def alnum_def)

lemma hex_text_alnum:
  "c \<in> set (hex_text bs) \<Longrightarrow> alnum (of_char c)"
proof -
  have "unat b div 16 < 16" for b :: "8 word" using unsigned_less [of b, where ?'a = nat] by simp
  then show "c \<in> set (hex_text bs) \<Longrightarrow> alnum (of_char c)" by (auto simp: hex_text_def intro!: hex_digit_alnum)
qed

lemma length_hex_text: "length (hex_text bs) = 2 * length bs"
  by (induction bs) (simp_all add: hex_text_def)

lemma label_base:
  assumes "out = trim_dashes (fst (foldl label_step ([], False) rs))" "out \<noteq> []"
  shows "(\<forall>c\<in>set out. label_char c) \<and> alnum (of_char (hd out)) \<and> alnum (of_char (last out))"
proof -
  have all: "\<forall>c\<in>set out. label_char c"
    using label_chars [of "([], False)" rs] trim_dashes_subset unfolding assms(1) by fastforce
  then show ?thesis using trim_dashes_ends [of "fst (foldl label_step ([], False) rs)"] assms label_alnum by (metis hd_in_set last_in_set)
qed

lemma label_letters [simp]: "label_char CHR ''w''" "label_char CHR ''-''" "alnum (119 :: nat)"
  by (simp_all add: label_char_def alnum_def)

definition prefix_label :: "string \<Rightarrow> bool" where
  "prefix_label l \<longleftrightarrow> l \<noteq> [] \<and> (\<forall>c\<in>set l. label_char c) \<and> (97 :: nat) \<le> of_char (hd l) \<and> of_char (hd l) \<le> (122 :: nat) \<and> alnum (of_char (last l))"

lemma with_letter:
  assumes "out \<noteq> []" "\<forall>c\<in>set out. label_char c" "alnum (of_char (last out))"
  shows "prefix_label (if of_char (hd out) < (97 :: nat) \<or> of_char (hd out) > (122 :: nat) then ''w-'' @ out else out)"
  using assms by (auto simp: prefix_label_def)

lemma dnsLabel_label:
  assumes sha: "\<forall>x. length (sha256 x) = 32"
  shows "prefix_label (dnsLabel uni sha256 s) \<and> length (dnsLabel uni sha256 s) \<le> 52"
proof -
  let ?out = "trim_dashes (fst (foldl label_step ([], False) (map (to_lower uni) s)))"
  let ?out1 = "if ?out = [] then ''w'' else ?out"
  let ?out2 = "if of_char (hd ?out1) < (97 :: nat) \<or> of_char (hd ?out1) > (122 :: nat) then ''w-'' @ ?out1 else ?out1"
  have "?out1 \<noteq> [] \<and> (\<forall>c\<in>set ?out1. label_char c) \<and> alnum (of_char (last ?out1))"
    using label_base [OF refl, of "map (to_lower uni) s"] by auto
  then have out2: "prefix_label ?out2" using with_letter [of ?out1] by blast
  have label: "dnsLabel uni sha256 s = (if length ?out2 > 52 then take 43 ?out2 @ ''-'' @ hex_text (take 4 (sha256 ?out2)) else ?out2)"
    by (simp only: dnsLabel_def Let_def maxPrefix_def) simp
  let ?h = "hex_text (take 4 (sha256 ?out2))"
  have h: "length ?h = 8" using sha by (simp add: length_hex_text)
  then have "?h \<noteq> []" by auto
  then have last: "alnum (of_char (last ?h))" "\<forall>c\<in>set ?h. label_char c" using hex_text_alnum [of _ "take 4 (sha256 ?out2)"] by (auto simp: label_char_def)
  show ?thesis
  proof (cases "length ?out2 > 52")
    case True
    have "hd (take 43 ?out2 @ ''-'' @ ?h) = hd ?out2" "set (take 43 ?out2) \<subseteq> set ?out2" "take 43 ?out2 \<noteq> []"
      using True out2 by (auto simp: hd_append hd_take prefix_label_def dest: in_set_takeD)
    with True out2 last h \<open>?h \<noteq> []\<close> show ?thesis unfolding label by (auto simp: prefix_label_def)
  next
    case False
    with out2 show ?thesis unfolding label by auto
  qed
qed

section \<open>Names\<close>

lemma length_fmt_nat: "0 < k \<Longrightarrow> n < 10 ^ k \<Longrightarrow> length (fmt_nat 10 n) \<le> k"
proof (induction k arbitrary: n)
  case (Suc k)
  show ?case
  proof (cases "n < 10")
    case True
    then show ?thesis by (subst fmt_nat.simps) simp
  next
    case False
    then have "0 < k" using Suc.prems by (cases k) auto
    moreover have "n div 10 < 10 ^ k" using Suc.prems by (simp add: less_mult_imp_div_less mult.commute)
    ultimately show ?thesis using Suc.IH [of "n div 10"] False by (subst fmt_nat.simps) simp
  qed
qed simp

lemma FormatUint_inj: "FormatUint m = FormatUint n \<Longrightarrow> m = n"
proof -
  assume "FormatUint m = FormatUint n"
  then have "digits_val 10 0 (fmt_nat 10 m) = digits_val 10 0 (fmt_nat 10 n)" by (simp add: FormatUint_def)
  then show "m = n" by (simp add: digits_val_fmt)
qed

lemma FormatUint_alnum: "c \<in> set (FormatUint n) \<Longrightarrow> alnum (of_char c)"
  using set_fmt_nat [of 10 c n] by (auto simp: FormatUint_def alnum_def of_char_digit_chr)

lemma FormatUint_no_dash: "CHR ''-'' \<notin> set (FormatUint n)"
  unfolding FormatUint_def by (rule fmt_nat_no_sep) simp_all

lemma name_label:
  assumes "prefix_label p" "length p \<le> 52" "i < 10 ^ 10"
  shows "dns_label (p @ ''-'' @ FormatUint i)"
proof -
  have ne: "FormatUint i \<noteq> []" by (simp add: FormatUint_def)
  then have "alnum (of_char (last (FormatUint i)))" using FormatUint_alnum by (meson last_in_set)
  moreover have "length (FormatUint i) \<le> 10" using length_fmt_nat [of 10 i] assms(3) by (simp add: FormatUint_def)
  ultimately show ?thesis using assms(1,2) ne FormatUint_alnum [of _ i] by (auto simp: dns_label_def prefix_label_def label_char_def)
qed

lemma name_inj:
  assumes "p @ ''-'' @ FormatUint i = q @ ''-'' @ FormatUint j"
  shows "p = q \<and> i = j"
proof -
  have "cut_at (CHR ''-'') (rev (FormatUint i) @ CHR ''-'' # rev p) = cut_at (CHR ''-'') (rev (FormatUint j) @ CHR ''-'' # rev q)"
    using arg_cong [OF assms, of rev] by simp
  then have "Some (rev (FormatUint i), rev p) = Some (rev (FormatUint j), rev q)"
    using FormatUint_no_dash [of i] FormatUint_no_dash [of j] by (simp only: cut_at_append set_rev not_False_eq_True)
  then show ?thesis using FormatUint_inj by simp
qed

lemma groups_distinct:
  "naming_problems g iceberg i ts S T G = [] \<Longrightarrow> distinct (map (\<lambda>t. g (st_Target t)) ts) \<and> set (map (\<lambda>t. g (st_Target t)) ts) \<inter> set G = {}"
proof (induction ts arbitrary: i S T G)
  case (Cons t ts)
  then have t: "st_Target t \<noteq> []" "g (st_Target t) \<notin> set G" by (auto simp: Let_def split: if_splits)
  then have "naming_problems g iceberg (i + 1) ts (if st_Source t \<noteq> [] then st_Source t # S else S) (st_Target t # T) (g (st_Target t) # G) = []"
    using Cons.prems by (simp add: Let_def)
  from Cons.IH [OF this] t show ?case by auto
qed simp

lemma distinct_concat_map:
  assumes "distinct (map k ts)" "\<And>t. distinct (f t)" "\<And>t u n. n \<in> set (f t) \<Longrightarrow> n \<in> set (f u) \<Longrightarrow> k t = k u"
  shows "distinct (concat (map f ts))"
  using assms(1)
proof (induction ts)
  case (Cons t ts)
  have "set (f t) \<inter> set (concat (map f ts)) = {}"
  proof (rule equals0I)
    fix n
    assume "n \<in> set (f t) \<inter> set (concat (map f ts))"
    then obtain u where "u \<in> set ts" "n \<in> set (f t)" "n \<in> set (f u)" by auto
    with assms(3) have "k t \<in> k ` set ts" by blast
    with Cons.prems show False by simp
  qed
  with Cons assms(2) show ?case by simp
qed simp

definition group_names :: "string \<Rightarrow> nat \<Rightarrow> string list" where
  "group_names p n = map (\<lambda>i. p @ ''-'' @ FormatUint i) [0..<n]"

lemma group_names_mem: "x \<in> set (group_names p n) \<longleftrightarrow> (\<exists>i<n. x = p @ ''-'' @ FormatUint i)"
  unfolding group_names_def set_map by auto

lemma distinct_group_names: "distinct (group_names p n)"
proof -
  have "inj_on (\<lambda>i. p @ ''-'' @ FormatUint i) {0..<n}" by (rule inj_onI) (drule name_inj, rule conjunct2)
  then show ?thesis unfolding group_names_def by (simp only: distinct_map distinct_upt set_upt simp_thms)
qed

lemma group_names_prefix: "x \<in> set (group_names p m) \<Longrightarrow> x \<in> set (group_names q n) \<Longrightarrow> p = q"
  unfolding group_names_mem using name_inj by blast

lemma WorkerGroupNames_eq: "WorkerGroupNames uni sha256 pipeline t = group_names (WorkerGroupPrefix uni sha256 pipeline (st_Target t)) (WorkerCount t)"
  by (simp add: WorkerGroupNames_def group_names_def)

section \<open>Properties\<close>

text \<open>
  C28: worker group names are well typed. For a pipeline whose tables pass validation, every worker group name is a
  DNS-1035 label of at most 63 characters, whatever characters the pipeline's and the tables' names have; no
  two groups of the pipeline share a name; and the name of partition \<open>p\<close> derived at run time is the name the
  table's list has at \<open>p\<close>.
\<close>

theorem WorkerGroupNames_are_distinct_labels:
  assumes "\<forall>x. length (sha256 x) = 32"
    "naming_problems (WorkerGroupPrefix uni sha256 pipeline) iceberg 0 ts [] [] [] = []" "\<forall>t\<in>set ts. WorkerCount t \<le> 10 ^ 10"
  shows "(\<forall>n\<in>set (concat (map (WorkerGroupNames uni sha256 pipeline) ts)). dns_label n)
    \<and> distinct (concat (map (WorkerGroupNames uni sha256 pipeline) ts))
    \<and> (\<forall>t\<in>set ts. \<forall>p<WorkerCount t. WorkerGroupNames uni sha256 pipeline t ! p = PartitionName uni sha256 pipeline (st_Target t) p)"
proof (intro conjI ballI allI impI)
  fix n
  assume "n \<in> set (concat (map (WorkerGroupNames uni sha256 pipeline) ts))"
  then obtain t i where t: "t \<in> set ts" "i < WorkerCount t" "n = WorkerGroupPrefix uni sha256 pipeline (st_Target t) @ ''-'' @ FormatUint i"
    unfolding set_concat set_map WorkerGroupNames_eq by (auto simp only: group_names_mem)
  have "i < 10 ^ 10" using assms(3) t(1,2) less_le_trans by blast
  then show "dns_label n" unfolding t(3) WorkerGroupPrefix_def using dnsLabel_label [OF assms(1)] by (intro name_label) blast+
next
  show "distinct (concat (map (WorkerGroupNames uni sha256 pipeline) ts))"
    using groups_distinct [OF assms(2), THEN conjunct1]
    by (rule distinct_concat_map) (unfold WorkerGroupNames_eq, rule distinct_group_names, rule group_names_prefix)
next
  fix t p
  assume "p < WorkerCount t"
  then show "WorkerGroupNames uni sha256 pipeline t ! p = PartitionName uni sha256 pipeline (st_Target t) p"
    by (simp add: WorkerGroupNames_eq group_names_def PartitionName_def)
qed

definition runes :: "string \<Rightarrow> nat list" where
  "runes s = map of_char s"

definition shop_tables :: "spec_table list" where
  "shop_tables = [\<lparr>st_Source = runes ''shop.orders'', st_Target = runes ''raw.Orders'', st_Workers = Some \<lparr>ws_Number = 2, ws_Max = 4\<rparr>\<rparr>,
     \<lparr>st_Source = runes ''shop.items'', st_Target = runes ''raw.items'', st_Workers = None\<rparr>]"

definition zero_sum :: "string \<Rightarrow> 8 word list" where
  "zero_sum x = replicate 32 0"

theorem WorkerGroupNames_are_distinct_labels_witness:
  "concat (map (WorkerGroupNames id zero_sum (runes ''9_Shop'')) shop_tables) = [''w-9-shop-raw-orders-0'', ''w-9-shop-raw-orders-1'', ''w-9-shop-raw-items-0'']
   \<and> dns_label ''w-9-shop-raw-orders-0'' \<and> distinct [''w-9-shop-raw-orders-0'', ''w-9-shop-raw-orders-1'', ''w-9-shop-raw-items-0'']"
proof -
  have sum: "\<forall>x. length (zero_sum x) = 32" by (simp add: zero_sum_def)
  have valid: "naming_problems (WorkerGroupPrefix id zero_sum (runes ''9_Shop'')) True 0 shop_tables [] [] [] = []" by code_simp
  have count: "\<forall>t\<in>set shop_tables. WorkerCount t \<le> 10 ^ 10" by (simp add: shop_tables_def WorkerCount_def)
  have names: "concat (map (WorkerGroupNames id zero_sum (runes ''9_Shop'')) shop_tables)
      = [''w-9-shop-raw-orders-0'', ''w-9-shop-raw-orders-1'', ''w-9-shop-raw-items-0'']" by code_simp
  from WorkerGroupNames_are_distinct_labels [OF sum valid count] show ?thesis unfolding names by simp
qed

end
