(* ===== verification/Spec2Isabelle.thy ===== *)
theory Spec2Isabelle
  imports Snapshot_Table Staged_Commit Routing_Keys Routing_Scale Pump Columnar Resume Source_Changes Naming
begin

text \<open>
  Urutau replicates row changes from MySQL, PostgreSQL and Kafka into analytical stores. A coordinator reads a
  source's stream, routes its batches to workers and confirms to the source what the workers have made
  durable; workers collapse batches and commit them to a sink; a snapshot of a table is read in key chunks
  while its stream goes on. This library models the parts of the program that decide what is read, in which
  order it is handed on, what is confirmed and where a pipeline resumes. Everything below is under \<open>src/\<close>.

  \<^bold>\<open>How the program is modelled.\<close> A struct is a record with the source's field names, prefixed; a Go map is an
  association list with one entry per key (\<open>Prelude\<close>: \<open>gm_put\<close>, \<open>gm_del\<close>, \<open>gm_at\<close>), in an order no lemma
  depends on; nil is \<open>None\<close>; an error return is \<open>Err\<close> and a panic \<open>Panic\<close> of the type \<open>res\<close>; a pointer
  receiver's change is the returned record. Integers that may wrap are words, others unbounded. Operations
  under one mutex are one function; what several goroutines do is an inductive step relation over those
  functions, and what holds is shown for every sequence of steps. Code outside \<open>src/\<close> and a component's host
  are arguments: a record of functions, with what is relied on as named hypotheses. A loop that may not end
  is a \<open>partial_function\<close>, whose result \<open>None\<close> is running forever.

  \<^bold>\<open>Positions\<close> (\<open>Position_LSN\<close>, \<open>Position_GTID\<close>, \<open>Position_Offsets\<close>, \<open>Position_Fold\<close>; \<open>position/\<close>). The three
  kinds of source position with parsing, printing, \<open>Contains\<close> and \<open>Compare\<close>, and the folds \<open>Min\<close>, \<open>MinSafe\<close>
  and \<open>Ahead\<close>. The locale \<open>position_kind\<close> holds what a kind must satisfy; it is interpreted for each. Shown:
  \<open>MinSafe\<close> is the greatest position contained in all inputs, and printing then parsing gives an equivalent
  position, except for untagged GTID sets of several intervals.

  \<^bold>\<open>Flow control\<close> (\<open>Position_Index\<close>, \<open>Budget\<close>, \<open>Confirmed\<close>, \<open>Markers\<close>, \<open>Flow\<close>; \<open>internal/inflight\<close>,
  \<open>internal/confirmed\<close>, \<open>internal/snapshot/markers.go\<close>, \<open>internal/coordinator\<close>). The in-flight windows of
  workers, the byte budget, the confirmed positions and the handling of acks. Shown: the confirmed position
  never passes a worker that owes data; the budget's bounds hold under every interleaving, and an \<open>Acquire\<close>
  entered with a live context is admitted at the look that finds the budget idle; an ack releases the covered
  prefix and the ack table says so; and the books of windows and budget balance on every path.

  \<^bold>\<open>Snapshots\<close> (\<open>Partition\<close>, \<open>Chunk_Ranges\<close>, \<open>Go_Json\<close>, \<open>Snapshot_State\<close>, \<open>Snapshot_Plan\<close>, \<open>Snapshot_Table\<close>;
  \<open>internal/partition\<close>, \<open>internal/snapshot\<close>, \<open>internal/source/postgres/chunk/partition.go\<close>). The order of
  primary keys, chunks and ranges, persisted progress, planning, fan-out and the run of one table's
  snapshot. Shown: with ascending bounds and a key of one column every key is read exactly once; progress
  round-trips through its encoding where its values can be printed; a pass redoes what was dropped; and the
  steps of a finished snapshot, with the answers they got, come in the order that makes it safe.

  \<^bold>\<open>Staged commits\<close> (\<open>Staged_Cycles\<close>, \<open>Staged_Commit\<close>, \<open>Coalesce\<close>; \<open>internal/staged\<close>). The tracker of commit
  cycles refines one queue per table (locale \<open>cycle_tracker\<close>), so cycles commit in send order and only what was
  committed is confirmed; a failed commit ends its table for good; accumulators hand on batches in order.

  \<^bold>\<open>Routing and the pump\<close> (\<open>Routing_Keys\<close>, \<open>Routing_Scale\<close>, \<open>Gate\<close>, \<open>Pump\<close>; \<open>internal/routing\<close>,
  \<open>internal/gate\<close>, \<open>internal/coordinator/pump.go\<close>). Canonical keys and rendezvous hashing, layouts and re-slicing,
  the gate of snapshot windows (locale \<open>holding_gate\<close>), the input pause and the loop that moves batches.
  Shown: keys encode injectively, the caching router equals the plain one, a layout is published only after
  a drain, and under every interleaving a table's batches are handed on in source order, given two
  exclusions without which they are not.

  \<^bold>\<open>Workers\<close> (\<open>Columnar\<close>, \<open>Worker_Window\<close>; \<open>internal/columnar\<close>, \<open>internal/worker\<close>, \<open>internal/rowchange\<close>). Collapsing a
  batch equals replaying it, splitting by owner loses nothing, and a closed snapshot window emits exactly
  the rows no live change has overtaken.

  \<^bold>\<open>Sources\<close> (\<open>Row_Filter\<close>, \<open>Source_Changes\<close>; \<open>spec/filter.go\<close>, \<open>spec/validate.go\<close>, \<open>internal/source\<close>). Row filters
  in both renderings of both databases, the helpers that compare exact numbers, and what the readers emit for a
  change. Shown: the stream keeps a row exactly when the snapshot's query reads it, given what the expression
  language, the query builder and the databases document; and an upsert target stays equal to the filtered
  source, where the source sends full before images.

  \<^bold>\<open>Boot and names\<close> (\<open>Resume\<close>, \<open>Naming\<close>; \<open>internal/resume\<close>, \<open>spec/spec.go\<close>). Where a pipeline resumes and which
  tables it loads; the names of worker groups.

  \<^bold>\<open>Bounds.\<close> No definition runs on fuel. Loops that end are recursive functions with a termination proof; the
  waits of \<open>Routing_Scale\<close>, \<open>Snapshot_Table\<close>, \<open>Gate\<close> and \<open>Coalesce\<close>, which poll or retry, are partial functions
  over the events they see, and where one is claimed to end that is proved. Names of worker groups are
  labels for up to ten thousand million partitions, and Arrow keys are encoded faithfully for texts shorter
  than two to the thirty-second bytes, the bound of their length prefix.

  \<^bold>\<open>Theorems about flaws.\<close> Some theorems show what the code does where it does not do what it means to. Three
  give a run or an input: two oversized batches in flight, a replaced binary bound, and the pump's reordering
  without the exclusions. The others hold for every input of a class: GTID sets of several intervals that
  are misread, a sampled domain of one value whose split leaves out the keys below it, one wider than
  \<open>MaxInt64\<close> whose split leaves all keys to one range, finished chunks that every finished snapshot lists again,
  key strings that merge around a unit separator, an explicit start taken from diverging GTID sets, filters
  that diverge on a null in a list, and deletes dropped without full before images.

  \<^bold>\<open>Not modelled.\<close> Protocols, drivers and libraries the program calls (binlog and logical decoding, Kafka, Arrow
  kernels, Iceberg, ClickHouse, Couchbase, gRPC, Kubernetes, S3), which are parameters where a modelled
  function uses them; the sinks and readers built on them; generated code and character set tables;
  conversions of column values (\<open>core/cast.go\<close>), which rest on decimal, time and UUID libraries; enrichment; the
  batcher's timing, supervision, maintenance and restarts, which are timers and goroutines around the
  modelled functions; rules of the spec on other fields; logging, metrics, the dashboard and the commands.
  Reference counts of Arrow records are not modelled, nor are runs in which the process dies between two
  steps of one function. A worker's marking of a batch and the coordinator's delivery of one are single steps,
  although the code releases its locks within them.
\<close>

end
